(* ===== verification/Prelude.thy ===== *)
theory Prelude
  imports Main "HOL-Library.Word" "HOL-Library.Monad_Syntax"
begin

text \<open>
  Shared vocabulary of the development: the machine types of \<open>include/types.h\<close>, the
  outcome of code that may reach the \<open>panic\<close> macro, the byte ranges that the memory
  operations touch, and the generic lemmas on words and lists that the components use.
\<close>

unbundle bit_operations_syntax

section \<open>Machine types (include/types.h)\<close>

type_synonym uint8 = "8 word"
type_synonym uint16 = "16 word"
type_synonym uint32 = "32 word"
type_synonym uint64 = "64 word"

text \<open>Addresses of the 32-bit machine; the null pointer is 0.\<close>

type_synonym addr = uint32

text \<open>
  \<open>panic\<close> (include/display/display.h) prints and then runs \<open>for(;;);\<close>. Code that may reach
  it has an outcome: the value it returns, or the panic.
\<close>

datatype 'a outcome = Ret 'a | Panic

named_theorems range_simps \<open>facts about membership in byte ranges\<close>

section \<open>Byte ranges\<close>

text \<open>
  \<open>in_range p n x\<close>: address \<open>x\<close> is one of the \<open>n\<close> bytes that start at \<open>p\<close>, counted
  modulo \<open>2^32\<close> as the processor does.
\<close>

definition in_range :: "addr \<Rightarrow> uint32 \<Rightarrow> addr \<Rightarrow> bool" where
  "in_range p n x \<longleftrightarrow> x - p < n"

lemma in_range_zero [simp, range_simps]: "\<not> in_range p 0 x"
  by (simp add: in_range_def)

lemma in_range_start [range_simps]: "0 < n \<Longrightarrow> in_range p n p"
  by (simp add: in_range_def)

lemma unat32_lt: "unat (x :: uint32) < 4294967296"
  using unsigned_less [of x] by simp

lemma unat_sub_word:
  "unat (x - p :: addr) =
     (if unat p \<le> unat x then unat x - unat p else 4294967296 + unat x - unat p)"
  using unat_sub_if' [of x p] by (cases "unat p \<le> unat x") simp_all

lemma in_range_unat:
  assumes "unat p + unat n \<le> 4294967296"
  shows "in_range p n x \<longleftrightarrow> unat p \<le> unat x \<and> unat x < unat p + unat n"
  using assms unat32_lt [of x] unat32_lt [of p] unat32_lt [of n]
  by (auto simp: in_range_def word_less_nat_alt unat_sub_word split: if_splits)

lemma unat_add_small:
  "unat a + unat b < 4294967296 \<Longrightarrow> unat (a + b :: uint32) = unat a + unat b"
  by (simp add: unat_word_ariths)

lemma unat_of_nat_small: "n < 4294967296 \<Longrightarrow> unat (of_nat n :: uint32) = n"
  by (simp add: unsigned_of_nat take_bit_nat_eq_self)

lemma of_nat_inj32:
  "a < 4294967296 \<Longrightarrow> b < 4294967296 \<Longrightarrow> of_nat a = (of_nat b :: uint32) \<longleftrightarrow> a = b"
  by (metis unat_of_nat_small)

section \<open>Signed values\<close>

lemma sint32_bounds: "- 2147483648 \<le> sint (a :: uint32)" "sint (a :: uint32) < 2147483648"
  using sint_greater_eq [of a] sint_less [of a] by simp_all

lemma sint32_add:
  "- 2147483648 \<le> sint a + sint b \<Longrightarrow> sint a + sint b < 2147483648 \<Longrightarrow>
    sint (a + b :: uint32) = sint a + sint b"
  by (simp add: sint_word_ariths signed_take_bit_int_eq_self)

lemma sint32_sub:
  "- 2147483648 \<le> sint a - sint b \<Longrightarrow> sint a - sint b < 2147483648 \<Longrightarrow>
    sint (a - b :: uint32) = sint a - sint b"
  by (simp add: sint_word_ariths signed_take_bit_int_eq_self)

lemma sint32_of_nat: "n < 2147483648 \<Longrightarrow> sint (of_nat n :: uint32) = int n"
  by (simp add: signed_of_nat signed_take_bit_int_eq_self)

lemma sint32_nonneg: "0 \<le> sint (w :: uint32) \<Longrightarrow> sint w = int (unat w)"
  using sint32_bounds [of w] by (simp add: uint_sint take_bit_int_eq_self)

section \<open>Masks\<close>

text \<open>The masks of the code cut off the upper bits.\<close>

lemma and_ff: "a AND 0xFF = take_bit 8 a" for a :: "'a::len word"
  by (simp add: take_bit_eq_mask mask_eq_exp_minus_1)

lemma and_ffff: "a AND 0xFFFF = take_bit 16 a" for a :: "'a::len word"
  by (simp add: take_bit_eq_mask mask_eq_exp_minus_1)

lemma and_fff: "a AND 0xFFF = take_bit 12 a" for a :: "'a::len word"
  by (simp add: take_bit_eq_mask mask_eq_exp_minus_1)

lemmas low_masks = and_ff and_ffff and_fff

end
