(* ===== verification/Link_Ring.thy ===== *)
theory Link_Ring
  imports Prelude
begin

text \<open>
  Circular doubly linked lists. The kernel has two kinds: the lists of \<open>include/link.h\<close> (free
  network buffers, network interfaces, routes) and the ring of processes of \<open>src/tasking.c\<close>.
  The locale states what both stores of nodes offer: two pointer fields per node that can be
  read and written. Its lemmas say what the pointer updates of the code do to the ring, seen as
  the list of its nodes; each store interprets it.
\<close>

section \<open>Rings as lists\<close>

text \<open>
  \<open>segment nx pv a xs b\<close>: following \<open>nx\<close> from \<open>a\<close> passes the nodes \<open>xs\<close> and reaches \<open>b\<close>, and
  \<open>pv\<close> leads back.
\<close>

fun segment :: "(addr \<Rightarrow> addr) \<Rightarrow> (addr \<Rightarrow> addr) \<Rightarrow> addr \<Rightarrow> addr list \<Rightarrow> addr \<Rightarrow> bool" where
  "segment nx pv a [] b \<longleftrightarrow> nx a = b \<and> pv b = a"
| "segment nx pv a (x # xs) b \<longleftrightarrow> nx a = x \<and> pv x = a \<and> segment nx pv x xs b"

text \<open>\<open>is_ring nx pv a xs\<close>: the ring through \<open>a\<close> whose other nodes are \<open>xs\<close>, in order.\<close>

definition is_ring :: "(addr \<Rightarrow> addr) \<Rightarrow> (addr \<Rightarrow> addr) \<Rightarrow> addr \<Rightarrow> addr list \<Rightarrow> bool" where
  "is_ring nx pv a xs \<longleftrightarrow> distinct (a # xs) \<and> segment nx pv a xs a"

lemma segment_append:
  "segment nx pv a (xs @ y # ys) b \<longleftrightarrow> segment nx pv a xs y \<and> segment nx pv y ys b"
  by (induction nx pv a xs b rule: segment.induct) auto

lemma segment_frame:
  "segment nx pv a xs b \<Longrightarrow> (\<And>x. x \<in> set (a # xs) \<Longrightarrow> nx' x = nx x) \<Longrightarrow>
    (\<And>x. x \<in> set (b # xs) \<Longrightarrow> pv' x = pv x) \<Longrightarrow> segment nx' pv' a xs b"
  by (induction nx pv a xs b rule: segment.induct) auto

lemma segment_first: "segment nx pv a xs b \<Longrightarrow> nx a = (case xs of [] \<Rightarrow> b | x # _ \<Rightarrow> x)"
  by (cases xs) auto

lemma segment_last: "segment nx pv a xs b \<Longrightarrow> pv b = (if xs = [] then a else last xs)"
  by (induction nx pv a xs b rule: segment.induct) auto

lemma ring_next: "is_ring nx pv a xs \<Longrightarrow> nx a = hd (xs @ [a])"
  by (cases xs) (auto simp: is_ring_def)

lemma ring_prev: "is_ring nx pv a xs \<Longrightarrow> pv a = last (a # xs)"
  by (auto simp: is_ring_def dest: segment_last)

lemma ring_single: "is_ring nx pv a [] \<longleftrightarrow> nx a = a \<and> pv a = a"
  by (simp add: is_ring_def)

text \<open>The ring seen from the next node.\<close>

lemma ring_rotate: "is_ring nx pv a (x # xs) \<Longrightarrow> is_ring nx pv x (xs @ [a])"
  by (auto simp: is_ring_def segment_append)

lemma ring_rotate_back: "is_ring nx pv x (xs @ [a]) \<Longrightarrow> is_ring nx pv a (x # xs)"
  by (auto simp: is_ring_def segment_append)

lemma ring_rotate_to: "is_ring nx pv a (xs @ x # ys) \<Longrightarrow> is_ring nx pv x (ys @ a # xs)"
  by (auto simp: is_ring_def segment_append)

text \<open>A node joins behind \<open>a\<close>.\<close>

lemma ring_insert:
  assumes "is_ring nx pv a xs" and "x \<notin> set (a # xs)" and "n = nx a"
    and "nx' = nx(x := n, a := x)" and "pv' = pv(n := x, x := a)"
  shows "is_ring nx' pv' a (x # xs)"
proof (cases xs)
  case Nil
  with assms show ?thesis by (auto simp: is_ring_def)
next
  case (Cons y ys)
  with assms have n: "n = y" and seg: "segment nx pv y ys a" and d: "distinct (a # x # y # ys)"
    by (auto simp: is_ring_def)
  have "segment nx' pv' y ys a"
    using d by (intro segment_frame [OF seg]) (auto simp: assms(4,5) n)
  with d Cons show ?thesis by (auto simp: is_ring_def assms(4,5) n)
qed

text \<open>The node behind \<open>a\<close> leaves.\<close>

lemma ring_delete:
  assumes "is_ring nx pv a (x # xs)" and "n = nx x"
    and "nx' a = n" and "\<And>y. y \<in> set xs \<Longrightarrow> nx' y = nx y"
    and "pv' n = a" and "\<And>y. y \<in> set (a # xs) \<Longrightarrow> y \<noteq> n \<Longrightarrow> pv' y = pv y"
  shows "is_ring nx' pv' a xs"
proof (cases xs)
  case Nil
  with assms show ?thesis by (auto simp: is_ring_def)
next
  case (Cons y ys)
  with assms have n: "n = y" and seg: "segment nx pv y ys a" and d: "distinct (a # x # y # ys)"
    by (auto simp: is_ring_def)
  have "segment nx' pv' y ys a"
    using d Cons n by (intro segment_frame [OF seg] assms(4,6)) auto
  with d Cons n assms(3,5) show ?thesis by (auto simp: is_ring_def)
qed

section \<open>Stores of ring nodes\<close>

locale ring_store =
  fixes nxt :: "'s \<Rightarrow> addr \<Rightarrow> addr" and prv :: "'s \<Rightarrow> addr \<Rightarrow> addr"
    and set_nxt :: "addr \<Rightarrow> addr \<Rightarrow> 's \<Rightarrow> 's" and set_prv :: "addr \<Rightarrow> addr \<Rightarrow> 's \<Rightarrow> 's"
  assumes nxt_set_nxt: "nxt (set_nxt a v s) = (nxt s)(a := v)"
    and prv_set_nxt: "prv (set_nxt a v s) = prv s"
    and nxt_set_prv: "nxt (set_prv a v s) = nxt s"
    and prv_set_prv: "prv (set_prv a v s) = (prv s)(a := v)"
begin

lemmas fields = nxt_set_nxt prv_set_nxt nxt_set_prv prv_set_prv

text \<open>The four stores that put \<open>x\<close> between \<open>p\<close> and its successor, in either order of the code.\<close>

lemma insert_behind:
  assumes "is_ring (nxt s) (prv s) a xs" and "x \<notin> set (a # xs)"
    and "s' = set_nxt a x (set_prv x a (set_nxt x (nxt s a) (set_prv (nxt s a) x s)))"
  shows "is_ring (nxt s') (prv s') a (x # xs)"
  by (rule ring_insert [OF assms(1,2) refl]) (simp_all add: assms(3) fields)

lemma insert_behind_next_first:
  assumes "is_ring (nxt s) (prv s) a xs" and "x \<notin> set (a # xs)"
    and "s' = set_nxt a x (set_prv x a (set_prv (nxt s a) x (set_nxt x (nxt s a) s)))"
  shows "is_ring (nxt s') (prv s') a (x # xs)"
  by (rule ring_insert [OF assms(1,2) refl]) (simp_all add: assms(3) fields)

lemma insert_before:
  assumes "is_ring (nxt s) (prv s) a xs" and "x \<notin> set (a # xs)"
    and "s' = set_nxt (prv s a) x (set_prv x (prv s a) (set_nxt x a (set_prv a x s)))"
  shows "is_ring (nxt s') (prv s') a (xs @ [x])"
proof (cases xs rule: rev_cases)
  case Nil
  with assms show ?thesis by (auto simp: is_ring_def fields)
next
  case (snoc ys y)
  with assms(1) have y: "is_ring (nxt s) (prv s) y (a # ys)" by (auto intro: ring_rotate_back)
  then have "prv s a = y" "nxt s y = a" by (auto simp: is_ring_def)
  with insert_behind [OF y, of x s'] assms(2,3) snoc have "is_ring (nxt s') (prv s') y (x # a # ys)"
    by auto
  then have "is_ring (nxt s') (prv s') a (ys @ [y, x])"
    using ring_rotate_to [of "nxt s'" "prv s'" y "[x]" a ys] by simp
  with snoc show ?thesis by simp
qed

text \<open>The two stores that take \<open>x\<close> out, wherever it is.\<close>

lemma unlink:
  assumes "is_ring (nxt s) (prv s) a (xs @ x # ys)"
    and "s' = set_nxt (prv s x) (nxt s x) (set_prv (nxt s x) (prv s x) s) \<or>
      s' = set_prv (nxt s x) (prv s x) (set_nxt (prv s x) (nxt s x) s)"
  shows "is_ring (nxt s') (prv s') a (xs @ ys)"
proof -
  let ?p = "last (a # xs)"
  have px: "prv s x = ?p"
    using assms(1) segment_last [of "nxt s" "prv s" a xs x] by (auto simp: is_ring_def segment_append)
  have ring_p: "is_ring (nxt s) (prv s) ?p (x # ys @ butlast (a # xs))"
  proof (cases xs rule: rev_cases)
    case (snoc zs z)
    then show ?thesis using assms(1) ring_rotate_to [of "nxt s" "prv s" a zs z "x # ys"] by simp
  qed (use assms(1) in simp)
  have "is_ring (nxt s') (prv s') ?p (ys @ butlast (a # xs))"
    using assms(2) ring_p
    by (intro ring_delete [OF ring_p refl]) (auto simp: fields px is_ring_def)
  then show ?thesis
  proof (cases xs rule: rev_cases)
    case (snoc zs z)
    with \<open>is_ring (nxt s') (prv s') ?p (ys @ butlast (a # xs))\<close>
    have "is_ring (nxt s') (prv s') z (ys @ a # zs)" by simp
    then show ?thesis using ring_rotate_to [of "nxt s'" "prv s'" z ys a zs] snoc by simp
  qed simp
qed

text \<open>Following the ring \<open>k\<close> times.\<close>

lemma walk:
  "is_ring (nxt s) (prv s) a xs \<Longrightarrow> k \<le> length xs \<Longrightarrow> (nxt s ^^ k) a = (a # xs) ! k"
proof (induction k)
  case (Suc k)
  then have "(nxt s ^^ k) a = (a # xs) ! k" by simp
  moreover have "nxt s ((a # xs) ! k) = xs ! k"
  proof -
    obtain ys zs where xs: "xs = ys @ xs ! k # zs" "length ys = k"
      using Suc.prems(2) id_take_nth_drop [of k xs] by force
    with Suc.prems(1) have "segment (nxt s) (prv s) a ys (xs ! k)"
      by (metis is_ring_def segment_append)
    then show ?thesis using xs
    proof (cases ys rule: rev_cases)
      case (snoc us u)
      with \<open>segment _ _ a ys (xs ! k)\<close> have "nxt s u = xs ! k" by (simp add: segment_append)
      moreover have "(a # xs) ! k = u" using xs snoc by (metis length_append_singleton nth_Cons_Suc nth_append_length append_assoc append_Cons append_Nil)
      ultimately show ?thesis by simp
    qed auto
  qed
  ultimately show ?case by simp
qed simp

lemma walk_round:
  assumes "is_ring (nxt s) (prv s) a xs"
  shows "(nxt s ^^ Suc (length xs)) a = a"
proof -
  have "(nxt s ^^ length xs) a = last (a # xs)"
    using walk [OF assms, of "length xs"] by (simp add: last_conv_nth)
  moreover have "nxt s (last (a # xs)) = a"
    using assms by (cases xs rule: rev_cases) (auto simp: is_ring_def segment_append)
  ultimately show ?thesis by simp
qed

end

end
