(* ===== verification/Links.thy ===== *)
theory Links
  imports Link_Ring
begin

text \<open>
  The intrusive list of \<open>include/link.h\<close>: a \<open>Link\<close> in every element and one as the head. The
  store maps the address of a \<open>Link\<close> to its two pointers.
\<close>

section \<open>The code\<close>

record link_node =
  lnk_prev :: addr
  lnk_next :: addr

type_synonym links = "addr \<Rightarrow> link_node"

definition set_lnk_prev :: "addr \<Rightarrow> addr \<Rightarrow> links \<Rightarrow> links" where
  "set_lnk_prev x v h = h(x := (h x)\<lparr>lnk_prev := v\<rparr>)"

definition set_lnk_next :: "addr \<Rightarrow> addr \<Rightarrow> links \<Rightarrow> links" where
  "set_lnk_next x v h = h(x := (h x)\<lparr>lnk_next := v\<rparr>)"

definition link_init :: "links \<Rightarrow> addr \<Rightarrow> links" where
  "link_init h x = set_lnk_next x x (set_lnk_prev x x h)"

definition link_after :: "links \<Rightarrow> addr \<Rightarrow> addr \<Rightarrow> links" where
  "link_after h a x =
     (let p = a; n = lnk_next (h a);
          h1 = set_lnk_prev n x h; h2 = set_lnk_next x n h1; h3 = set_lnk_prev x p h2
      in set_lnk_next p x h3)"

definition link_before :: "links \<Rightarrow> addr \<Rightarrow> addr \<Rightarrow> links" where
  "link_before h a x =
     (let p = lnk_prev (h a); n = a;
          h1 = set_lnk_prev n x h; h2 = set_lnk_next x n h1; h3 = set_lnk_prev x p h2
      in set_lnk_next p x h3)"

definition link_remove :: "links \<Rightarrow> addr \<Rightarrow> links" where
  "link_remove h x =
     (let p = lnk_prev (h x); n = lnk_next (h x);
          h1 = set_lnk_prev n p h; h2 = set_lnk_next p n h1; h3 = set_lnk_next x 0 h2
      in set_lnk_prev x 0 h3)"

definition link_move_after :: "links \<Rightarrow> addr \<Rightarrow> addr \<Rightarrow> links" where
  "link_move_after h a x =
     (let p = lnk_prev (h x); n = lnk_next (h x);
          h1 = set_lnk_prev n p h; h2 = set_lnk_next p n h1;
          p' = a; n' = lnk_next (h2 a);
          h3 = set_lnk_prev n' x h2; h4 = set_lnk_next x n' h3; h5 = set_lnk_prev x p' h4
      in set_lnk_next p' x h5)"

definition link_move_before :: "links \<Rightarrow> addr \<Rightarrow> addr \<Rightarrow> links" where
  "link_move_before h a x =
     (let p = lnk_prev (h x); n = lnk_next (h x);
          h1 = set_lnk_prev n p h; h2 = set_lnk_next p n h1;
          p' = lnk_prev (h2 a); n' = a;
          h3 = set_lnk_prev n' x h2; h4 = set_lnk_next x n' h3; h5 = set_lnk_prev x p' h4
      in set_lnk_next p' x h5)"

definition link_list_is_empty :: "links \<Rightarrow> addr \<Rightarrow> bool" where
  "link_list_is_empty h x \<longleftrightarrow> lnk_next (h x) = x"

section \<open>The store of links\<close>

definition lnk_nexts :: "links \<Rightarrow> addr \<Rightarrow> addr" where "lnk_nexts h x = lnk_next (h x)"

definition lnk_prevs :: "links \<Rightarrow> addr \<Rightarrow> addr" where "lnk_prevs h x = lnk_prev (h x)"

interpretation lk: ring_store lnk_nexts lnk_prevs set_lnk_next set_lnk_prev
  by unfold_locales
    (auto simp: lnk_nexts_def lnk_prevs_def set_lnk_next_def set_lnk_prev_def fun_eq_iff)

text \<open>\<open>link_list h a xs\<close>: the list with head \<open>a\<close> holds the elements \<open>xs\<close>.\<close>

definition link_list :: "links \<Rightarrow> addr \<Rightarrow> addr list \<Rightarrow> bool" where
  "link_list h a xs \<longleftrightarrow> is_ring (lnk_nexts h) (lnk_prevs h) a xs"

lemma link_init_empty: "link_list (link_init h x) x []"
  by (simp add: link_list_def ring_single link_init_def lk.fields)

lemma link_after_list:
  "link_list h a xs \<Longrightarrow> x \<notin> set (a # xs) \<Longrightarrow> link_list (link_after h a x) a (x # xs)"
  unfolding link_list_def link_after_def Let_def lnk_nexts_def [symmetric]
  by (rule lk.insert_behind) simp_all

lemma link_before_list:
  "link_list h a xs \<Longrightarrow> x \<notin> set (a # xs) \<Longrightarrow> link_list (link_before h a x) a (xs @ [x])"
  unfolding link_list_def link_before_def Let_def lnk_prevs_def [symmetric]
  by (rule lk.insert_before) simp_all

lemma link_unlink:
  "link_list h a (xs @ x # ys) \<Longrightarrow>
    link_list (set_lnk_next (lnk_prev (h x)) (lnk_next (h x)) (set_lnk_prev (lnk_next (h x)) (lnk_prev (h x)) h))
      a (xs @ ys)"
  unfolding link_list_def lnk_prevs_def [symmetric] lnk_nexts_def [symmetric]
  by (rule lk.unlink) auto

lemma link_list_outside:
  assumes "link_list h a xs" and "x \<notin> set (a # xs)"
  shows "link_list (set_lnk_prev x v (set_lnk_next x w h)) a xs"
  using assms unfolding link_list_def is_ring_def lk.fields
  by (auto intro!: segment_frame [of "lnk_nexts h" "lnk_prevs h"])

lemma link_remove_clears: "link_remove h x x = \<lparr>lnk_prev = 0, lnk_next = 0\<rparr>"
  by (simp add: link_remove_def Let_def set_lnk_prev_def set_lnk_next_def)

lemma link_remove_list:
  assumes "link_list h a (xs @ x # ys)"
  shows "link_list (link_remove h x) a (xs @ ys)"
proof -
  have "x \<notin> set (a # xs @ ys)" using assms by (auto simp: link_list_def is_ring_def)
  from link_list_outside [OF link_unlink [OF assms] this] show ?thesis
    by (simp only: link_remove_def Let_def)
qed

lemma link_move_after_list:
  assumes "link_list h a (xs @ x # ys)"
  shows "link_list (link_move_after h a x) a (x # xs @ ys)"
proof -
  have "x \<notin> set (a # xs @ ys)" using assms by (auto simp: link_list_def is_ring_def)
  from link_after_list [OF link_unlink [OF assms] this] show ?thesis
    by (simp add: link_move_after_def link_after_def Let_def)
qed

lemma link_move_before_list:
  assumes "link_list h a (xs @ x # ys)"
  shows "link_list (link_move_before h a x) a (xs @ ys @ [x])"
proof -
  have "x \<notin> set (a # xs @ ys)" using assms by (auto simp: link_list_def is_ring_def)
  from link_before_list [OF link_unlink [OF assms] this] show ?thesis
    by (simp add: link_move_before_def link_before_def Let_def)
qed

lemma link_list_empty_iff: "link_list h a xs \<Longrightarrow> link_list_is_empty h a \<longleftrightarrow> xs = []"
  by (cases xs) (auto simp: link_list_def is_ring_def link_list_is_empty_def lnk_nexts_def)

text \<open>
  C13. The operations of \<open>link.h\<close> are the list operations: \<open>link_after\<close> the head puts an element
  in front, \<open>link_before\<close> the head puts it at the end, \<open>link_remove\<close> takes an element out and
  clears its pointers, the two moves do both, and the test for emptiness is right.
\<close>

theorem link_ops_refine_lists:
  assumes "link_list h a (xs @ x # ys)" and "y \<notin> set (a # xs @ x # ys)"
  shows "link_list (link_after h a y) a (y # xs @ x # ys) \<and>
    link_list (link_before h a y) a (xs @ x # ys @ [y]) \<and>
    link_list (link_remove h x) a (xs @ ys) \<and> link_remove h x x = \<lparr>lnk_prev = 0, lnk_next = 0\<rparr> \<and>
    link_list (link_move_after h a x) a (x # xs @ ys) \<and>
    link_list (link_move_before h a x) a (xs @ ys @ [x]) \<and> \<not> link_list_is_empty h a"
  using link_after_list [OF assms] link_before_list [OF assms] link_remove_list [OF assms(1)]
    link_move_after_list [OF assms(1)] link_move_before_list [OF assms(1)]
    link_list_empty_iff [OF assms(1)] link_remove_clears
  by simp

text \<open>A list with head 100 and the elements 200 and 300.\<close>

definition sample_links :: links where
  "sample_links = link_before (link_after (link_init (\<lambda>_. \<lparr>lnk_prev = 0, lnk_next = 0\<rparr>) 100) 100 200) 100 300"

lemma sample_links_list: "link_list sample_links 100 [200, 300]"
  using link_before_list [of _ 100 "[200]" 300] link_after_list [OF link_init_empty, of 200]
  by (simp add: sample_links_def)

theorem link_ops_refine_lists_witness:
  "link_list (link_remove sample_links 300) 100 [200] \<and>
   link_list (link_after sample_links 100 400) 100 [400, 200, 300]"
  using link_ops_refine_lists [of sample_links 100 "[200]" 300 "[]" 400] sample_links_list by simp

end
