(* ===== verification/Memory.thy ===== *)
theory Memory
  imports Prelude
begin

text \<open>
  The kernel's memory. Paging maps the whole 32-bit space onto itself
  (\<open>src/memory/paging.c\<close>), so an access at any address reaches a byte and memory is a total
  function from addresses to bytes. Values of 16 and 32 bits are little endian. The section
  also holds \<open>src/memory/mmioutils.c\<close>, whose accessors are the plain loads and stores.
\<close>

type_synonym mem = "addr \<Rightarrow> uint8"

section \<open>Loads and stores\<close>

definition load16 :: "mem \<Rightarrow> addr \<Rightarrow> uint16" where
  "load16 m a = ucast (m a) OR push_bit 8 (ucast (m (a + 1)))"

definition load32 :: "mem \<Rightarrow> addr \<Rightarrow> uint32" where
  "load32 m a = ucast (m a) OR push_bit 8 (ucast (m (a + 1)))
     OR push_bit 16 (ucast (m (a + 2))) OR push_bit 24 (ucast (m (a + 3)))"

definition load64 :: "mem \<Rightarrow> addr \<Rightarrow> uint64" where
  "load64 m a = ucast (load32 m a) OR push_bit 32 (ucast (load32 m (a + 4)))"

definition store16 :: "mem \<Rightarrow> addr \<Rightarrow> uint16 \<Rightarrow> mem" where
  "store16 m a v = m(a := ucast v, a + 1 := ucast (drop_bit 8 v))"

definition store32 :: "mem \<Rightarrow> addr \<Rightarrow> uint32 \<Rightarrow> mem" where
  "store32 m a v = m(a := ucast v, a + 1 := ucast (drop_bit 8 v),
     a + 2 := ucast (drop_bit 16 v), a + 3 := ucast (drop_bit 24 v))"

definition store64 :: "mem \<Rightarrow> addr \<Rightarrow> uint64 \<Rightarrow> mem" where
  "store64 m a v = store32 (store32 m a (ucast v)) (a + 4) (ucast (drop_bit 32 v))"

lemma load16_store16 [simp]: "load16 (store16 m a v) a = v"
  by (rule bit_word_eqI) (auto simp: load16_def store16_def bit_simps)

lemma load32_store32 [simp]: "load32 (store32 m a v) a = v"
proof (rule bit_word_eqI)
  fix n assume "n < LENGTH(32)"
  then consider "n < 8" | "8 \<le> n" "n < 16" | "16 \<le> n" "n < 24" | "24 \<le> n" "n < 32"
    by fastforce
  then show "bit (load32 (store32 m a v) a) n = bit v n"
    by cases (auto simp: load32_def store32_def bit_simps)
qed

lemma store16_other: "\<not> in_range a 2 x \<Longrightarrow> store16 m a v x = m x"
  by (auto simp: store16_def in_range_def)

lemma store32_other: "\<not> in_range a 4 x \<Longrightarrow> store32 m a v x = m x"
  by (auto simp: store32_def in_range_def)

lemma load16_cong: "m a = m' a \<Longrightarrow> m (a + 1) = m' (a + 1) \<Longrightarrow> load16 m a = load16 m' a"
  by (simp add: load16_def)

lemma load32_cong:
  assumes "\<And>x. in_range a 4 x \<Longrightarrow> m x = m' x"
  shows "load32 m a = load32 m' a"
  using assms [of a] assms [of "a + 1"] assms [of "a + 2"] assms [of "a + 3"]
  by (simp add: load32_def in_range_def)

lemma load32_zero: "m a = 0 \<Longrightarrow> m (a + 1) = 0 \<Longrightarrow> m (a + 2) = 0 \<Longrightarrow> m (a + 3) = 0 \<Longrightarrow> load32 m a = 0"
  by (simp add: load32_def)

lemma load32_byte:
  "ucast (load32 m a) = m a"
  "ucast (drop_bit 8 (load32 m a)) = m (a + 1)"
  "ucast (drop_bit 16 (load32 m a)) = m (a + 2)"
  "ucast (drop_bit 24 (load32 m a)) = m (a + 3)"
  unfolding load32_def by (rule bit_word_eqI, auto simp: bit_simps dest: bit_imp_le_length)+

lemma load32_eq_0_iff:
  "load32 m a = 0 \<longleftrightarrow> m a = 0 \<and> m (a + 1) = 0 \<and> m (a + 2) = 0 \<and> m (a + 3) = 0"
proof
  assume "load32 m a = 0"
  then show "m a = 0 \<and> m (a + 1) = 0 \<and> m (a + 2) = 0 \<and> m (a + 3) = 0"
    using load32_byte [of m a] by simp
qed (simp add: load32_zero)

section \<open>Memory-mapped registers (src/memory/mmioutils.c)\<close>

text \<open>
  The accessors dereference a volatile pointer of their width. They are used on the registers
  of a device as well; the driver that does so models the device itself.
\<close>

definition mmio_read8 :: "mem \<Rightarrow> addr \<Rightarrow> uint8" where "mmio_read8 m p_addr = m p_addr"

definition mmio_read16 :: "mem \<Rightarrow> addr \<Rightarrow> uint16" where "mmio_read16 m p_addr = load16 m p_addr"

definition mmio_read32 :: "mem \<Rightarrow> addr \<Rightarrow> uint32" where "mmio_read32 m p_addr = load32 m p_addr"

definition mmio_read64 :: "mem \<Rightarrow> addr \<Rightarrow> uint64" where "mmio_read64 m p_addr = load64 m p_addr"

definition mmio_write8 :: "mem \<Rightarrow> addr \<Rightarrow> uint8 \<Rightarrow> mem" where
  "mmio_write8 m p_addr p_val = m(p_addr := p_val)"

definition mmio_write16 :: "mem \<Rightarrow> addr \<Rightarrow> uint16 \<Rightarrow> mem" where
  "mmio_write16 m p_addr p_val = store16 m p_addr p_val"

definition mmio_write32 :: "mem \<Rightarrow> addr \<Rightarrow> uint32 \<Rightarrow> mem" where
  "mmio_write32 m p_addr p_val = store32 m p_addr p_val"

definition mmio_write64 :: "mem \<Rightarrow> addr \<Rightarrow> uint64 \<Rightarrow> mem" where
  "mmio_write64 m p_addr p_val = store64 m p_addr p_val"

lemma load32_store32_disjoint:
  assumes "\<And>x. in_range b 4 x \<Longrightarrow> \<not> in_range a 4 x"
  shows "load32 (store32 m a v) b = load32 m b"
  by (rule load32_cong) (simp add: store32_other assms)

lemma load64_store64: "load64 (store64 m a v) a = v"
proof -
  have dis: "\<not> in_range (a + 4) 4 x" if "in_range a 4 x" for x
  proof -
    define d where "d = x - a"
    have eq: "x - (a + 4) = d - 4" by (simp add: d_def)
    have "d < 4" using that by (simp add: in_range_def d_def)
    then have "\<not> d - 4 < 4"
      by (simp add: word_less_nat_alt unat_sub_word)
    then show ?thesis by (simp only: in_range_def eq not_False_eq_True)
  qed
  show ?thesis
    unfolding load64_def store64_def
    by (simp add: load32_store32_disjoint dis)
       (rule bit_word_eqI, auto simp: bit_simps)
qed

section \<open>Areas that change\<close>

text \<open>\<open>m'\<close> differs from \<open>m\<close> in the \<open>n\<close> bytes from \<open>p\<close> at most.\<close>

definition within :: "mem \<Rightarrow> mem \<Rightarrow> addr \<Rightarrow> nat \<Rightarrow> bool" where
  "within m m' p n \<longleftrightarrow> (\<forall>x. n \<le> unat (x - p) \<longrightarrow> m' x = m x)"

lemma unat_4w: "unat (4 :: addr) = 4"
  by simp

lemma unat_sub4: "unat (x - (p + 4) :: addr) = (if 4 \<le> unat (x - p) then unat (x - p) - 4 else 4294967292 + unat (x - p))"
proof -
  have "x - (p + 4) = x - p - 4" by simp
  then show ?thesis using unat_sub_word [of "x - p" 4] by (simp only: unat_4w) simp
qed

lemma within_store32: "4 \<le> n \<Longrightarrow> within m (store32 m p v) p n"
  by (auto simp: within_def in_range_def word_less_nat_alt store32_other)

lemma within_load32:
  assumes "within m m' (p + 4) n" and "n \<le> 4294967288"
  shows "load32 m' p = load32 m p"
proof (rule load32_cong)
  fix x assume "in_range p 4 x"
  then have "unat (x - p) < 4" by (simp add: in_range_def word_less_nat_alt)
  with assms show "m' x = m x" by (auto simp: within_def unat_sub4)
qed

lemma within_trans4:
  assumes "within m1 m2 (p + 4) n" "within m m1 p 4" "n + 4 \<le> 4294967292"
  shows "within m m2 p (n + 4)"
  using assms by (auto simp: within_def unat_sub4)

lemma within_load32_apart:
  assumes w: "within m m' (b + of_nat d) n" and apart: "e + 4 \<le> d \<or> d + n \<le> e"
    and small: "d + n < 2147483648" "e < 2147483640"
  shows "load32 m' (b + of_nat e) = load32 m (b + of_nat e)"
proof (rule load32_cong)
  fix x assume "in_range (b + of_nat e) 4 x"
  then have "unat (x - (b + of_nat e)) < 4" by (simp add: in_range_def word_less_nat_alt)
  moreover define t where "t = unat (x - (b + of_nat e))"
  moreover have "of_nat t = x - (b + of_nat e)" by (simp add: t_def)
  then have "x = b + of_nat (e + t)" by (simp add: add.assoc [symmetric])
  ultimately have t: "t < 4" "x = b + of_nat (e + t)" by blast+
  have "unat (of_nat (e + t) - of_nat d :: addr) = (if d \<le> e + t then e + t - d else 4294967296 + (e + t) - d)"
    using small t(1) by (simp add: unat_sub_word unat_of_nat_small del: of_nat_add)
  then have "n \<le> unat (x - (b + of_nat d))" using apart small t by (auto simp: algebra_simps)
  with w show "m' x = m x" by (simp add: within_def)
qed

lemma within_mono:
  assumes "within m m' (b + of_nat d) n" "d + n \<le> N" "N < 4294967296"
  shows "within m m' b N"
  unfolding within_def
proof (intro allI impI)
  fix x assume "N \<le> unat (x - b)"
  moreover have "unat (of_nat d :: addr) = d" using assms by (simp add: unat_of_nat_small)
  ultimately have "n \<le> unat (x - b - of_nat d)" using assms(2) unat_sub_word [of "x - b" "of_nat d"] by simp
  then have "n \<le> unat (x - (b + of_nat d))" by (simp add: diff_diff_eq)
  with assms(1) show "m' x = m x" by (simp add: within_def)
qed

lemma within_trans: "within m1 m2 p n \<Longrightarrow> within m m1 p n \<Longrightarrow> within m m2 p n"
  by (simp add: within_def)

end
