(* ===== verification/Mutex_Lock.thy ===== *)
theory Mutex_Lock
  imports Memory
begin

text \<open>
  The spin lock of \<open>src/mutex.c\<close>. A mutex is one byte in memory (\<open>include/mutex.h\<close>), but the
  lock operation runs a 32-bit \<open>lock cmpxchg\<close> on its address, so it compares and writes the
  three bytes after it as well. The definitions take the three \<open>asm\<close> statements of the loop
  body as one sequence on the registers \<open>eax\<close> and \<open>ebx\<close>, as they are written.
\<close>

section \<open>The operations\<close>

text \<open>\<open>cmpxchg\<close>: the accumulator after the instruction, and the memory.\<close>

definition cmpxchg32 :: "mem \<Rightarrow> addr \<Rightarrow> uint32 \<Rightarrow> uint32 \<Rightarrow> uint32 \<times> mem" where
  "cmpxchg32 mm a eax ebx =
     (if load32 mm a = eax then (eax, store32 mm a ebx) else (load32 mm a, mm))"

text \<open>One pass of the loop up to the call of the scheduler: \<open>retry\<close> is the register \<open>al\<close>.\<close>

definition mutex_try :: "addr \<Rightarrow> mem \<Rightarrow> uint8 \<times> mem" where
  "mutex_try m mm = (let (eax, mm') = cmpxchg32 mm m 0 1 in (ucast eax, mm'))"

text \<open>
  \<open>sched\<close> is the effect on memory of \<open>schedule_noirq()\<close>: what the other processes do before
  this one runs again, the identity while tasking is not enabled. A lock that is never
  released is \<open>None\<close>.
\<close>

partial_function (option) mutex_lock :: "(mem \<Rightarrow> mem) \<Rightarrow> addr \<Rightarrow> mem \<Rightarrow> mem option" where
  "mutex_lock sched m mm =
     (let (retry, mm1) = mutex_try m mm; mm2 = sched mm1
      in if retry \<noteq> 0 then mutex_lock sched m mm2 else Some mm2)"

definition mutex_unlock :: "(mem \<Rightarrow> mem) \<Rightarrow> addr \<Rightarrow> mem \<Rightarrow> mem" where
  "mutex_unlock sched m mm = sched (mm(m := 0))"

section \<open>One attempt\<close>

text \<open>The three bytes behind the mutex, which the code takes to be zero.\<close>

definition mutex_pad_clear :: "addr \<Rightarrow> mem \<Rightarrow> bool" where
  "mutex_pad_clear m mm \<longleftrightarrow> mm (m + 1) = 0 \<and> mm (m + 2) = 0 \<and> mm (m + 3) = 0"

lemma mutex_try_free:
  "mm m = 0 \<Longrightarrow> mutex_pad_clear m mm \<Longrightarrow> mutex_try m mm = (0, store32 mm m 1)"
  by (simp add: mutex_try_def cmpxchg32_def mutex_pad_clear_def load32_zero)

lemma mutex_try_held: "mm m \<noteq> 0 \<Longrightarrow> mutex_try m mm = (mm m, mm)"
  by (simp add: mutex_try_def cmpxchg32_def load32_eq_0_iff load32_byte)

lemma mutex_try_dirty_pad:
  "mm m = 0 \<Longrightarrow> \<not> mutex_pad_clear m mm \<Longrightarrow> mutex_try m mm = (0, mm)"
  by (auto simp: mutex_try_def cmpxchg32_def mutex_pad_clear_def load32_eq_0_iff load32_byte)

lemma store32_one:
  "store32 mm m 1 = mm(m := 1, m + 1 := 0, m + 2 := 0, m + 3 := 0)"
  by (simp add: store32_def)

lemma mutex_lock_free:
  assumes "mm m = 0" and "mutex_pad_clear m mm"
  shows "mutex_lock sched m mm = Some (sched (mm(m := 1)))"
proof -
  have "store32 mm m 1 = mm(m := 1)"
    using assms(2) by (auto simp: store32_one mutex_pad_clear_def fun_eq_iff)
  then show ?thesis
    by (subst mutex_lock.simps) (simp add: mutex_try_free assms)
qed

text \<open>While nobody else runs, taking and releasing a free lock changes nothing.\<close>

lemma mutex_unlock_lock:
  "mm m = 0 \<Longrightarrow> mutex_unlock (\<lambda>x. x) m (mm(m := 1)) = mm"
  by (auto simp: mutex_unlock_def fun_eq_iff)

text \<open>A held lock is waited for until some other process clears it.\<close>

lemma mutex_lock_waits:
  "mm m \<noteq> 0 \<Longrightarrow> mutex_lock sched m mm = mutex_lock sched m (sched mm)"
  by (subst mutex_lock.simps) (simp add: mutex_try_held)

lemma mutex_lock_deadlock:
  assumes "mm m \<noteq> 0"
  shows "mutex_lock (\<lambda>x. x) m mm = None"
proof (rule ccontr)
  assume "mutex_lock (\<lambda>x. x) m mm \<noteq> None"
  then obtain r where r: "mutex_lock (\<lambda>x. x) m mm = Some r" by auto
  have "sched = (\<lambda>x. x) \<longrightarrow> mm m = 0" if "mutex_lock sched m mm = Some r" for sched m mm r
  proof (rule mutex_lock.raw_induct [where P = "\<lambda>s m mm r. s = (\<lambda>x. x) \<longrightarrow> mm m = 0", OF _ that])
    fix lock :: "(mem \<Rightarrow> mem) \<Rightarrow> addr \<Rightarrow> mem \<Rightarrow> mem option" and s m mm r
    assume IH: "\<And>s m mm r. lock s m mm = Some r \<Longrightarrow> s = (\<lambda>x. x) \<longrightarrow> mm m = 0"
      and step: "(let (retry, mm1) = mutex_try m mm; mm2 = s mm1
        in if retry \<noteq> 0 then lock s m mm2 else Some mm2) = Some r"
    show "s = (\<lambda>x. x) \<longrightarrow> mm m = 0"
      using step IH by (cases "mm m = 0") (auto simp: mutex_try_held)
  qed
  from this [OF r] assms show False by simp
qed

section \<open>Processes that share a lock\<close>

text \<open>
  The processes of the kernel interleave at the calls of the scheduler and at timer
  interrupts; the locked \<open>cmpxchg\<close> and the byte store of the release are single steps. A
  process is outside, spinning in \<open>mutex_lock\<close>, or between the lock and the release.
  \<open>work\<close> is any other store of any process: it may hit every byte but the four that the
  \<open>cmpxchg\<close> reads.
\<close>

datatype lock_pc = Outside | Spinning | Inside

record lock_sys =
  lk_mem :: mem
  lk_pc :: "nat \<Rightarrow> lock_pc"

definition lock_start :: "addr \<Rightarrow> mem \<Rightarrow> lock_sys" where
  "lock_start m mm = \<lparr>lk_mem = mm, lk_pc = (\<lambda>_. Outside)\<rparr>"

inductive lock_step :: "addr \<Rightarrow> lock_sys \<Rightarrow> lock_sys \<Rightarrow> bool" for m where
  call: "lk_pc s i = Outside \<Longrightarrow> lock_step m s (s\<lparr>lk_pc := (lk_pc s)(i := Spinning)\<rparr>)"
| got: "lk_pc s i = Spinning \<Longrightarrow> mutex_try m (lk_mem s) = (0, mm) \<Longrightarrow>
    lock_step m s (s\<lparr>lk_mem := mm, lk_pc := (lk_pc s)(i := Inside)\<rparr>)"
| again: "lk_pc s i = Spinning \<Longrightarrow> mutex_try m (lk_mem s) = (retry, mm) \<Longrightarrow> retry \<noteq> 0 \<Longrightarrow>
    lock_step m s (s\<lparr>lk_mem := mm\<rparr>)"
| release: "lk_pc s i = Inside \<Longrightarrow>
    lock_step m s (s\<lparr>lk_mem := (lk_mem s)(m := 0), lk_pc := (lk_pc s)(i := Outside)\<rparr>)"
| work: "\<not> in_range m 4 a \<Longrightarrow> lock_step m s (s\<lparr>lk_mem := (lk_mem s)(a := v)\<rparr>)"

inductive lock_reach :: "addr \<Rightarrow> mem \<Rightarrow> lock_sys \<Rightarrow> bool" for m mm where
  start: "lock_reach m mm (lock_start m mm)"
| step: "lock_reach m mm s \<Longrightarrow> lock_step m s t \<Longrightarrow> lock_reach m mm t"

inductive_cases lock_stepE: "lock_step m s t"

text \<open>The mutex byte is set exactly while some process is inside, and then only one is.\<close>

definition lock_inv :: "addr \<Rightarrow> lock_sys \<Rightarrow> bool" where
  "lock_inv m s \<longleftrightarrow> mutex_pad_clear m (lk_mem s) \<and>
     (lk_mem s m = 0 \<longrightarrow> (\<forall>i. lk_pc s i \<noteq> Inside)) \<and>
     (\<forall>i j. lk_pc s i = Inside \<longrightarrow> lk_pc s j = Inside \<longrightarrow> i = j)"

lemma pad_clear_store: "\<not> in_range m 4 a \<Longrightarrow> mutex_pad_clear m (mm(a := v)) = mutex_pad_clear m mm"
  by (auto simp: mutex_pad_clear_def in_range_def)

lemma lock_inv_try:
  assumes inv: "lock_inv m s" and spin: "lk_pc s i = Spinning"
    and att: "mutex_try m (lk_mem s) = (0, mm)"
  shows "lock_inv m (s\<lparr>lk_mem := mm, lk_pc := (lk_pc s)(i := Inside)\<rparr>)"
proof (cases "lk_mem s m = 0")
  case True
  with inv att have "mm = store32 (lk_mem s) m 1" and "\<forall>j. lk_pc s j \<noteq> Inside"
    by (auto simp: lock_inv_def mutex_try_free)
  then show ?thesis
    by (auto simp: lock_inv_def mutex_pad_clear_def store32_one)
next
  case False
  with att show ?thesis by (simp add: mutex_try_held)
qed

lemma lock_inv_step: "lock_step m s t \<Longrightarrow> lock_inv m s \<Longrightarrow> lock_inv m t"
proof (induction rule: lock_step.induct)
  case (got s i mm)
  then show ?case by (blast intro: lock_inv_try)
next
  case (again s i retry mm)
  have "lk_mem s m \<noteq> 0"
  proof
    assume "lk_mem s m = 0"
    with again have "retry = 0" by (simp add: lock_inv_def mutex_try_free)
    with again show False by simp
  qed
  with again have "mm = lk_mem s" by (simp add: mutex_try_held)
  with again show ?case by (simp add: lock_inv_def)
next
  case (work a s v)
  then have "a \<noteq> m" by (auto simp: in_range_def)
  with work show ?case by (auto simp: lock_inv_def pad_clear_store)
qed (auto simp: lock_inv_def mutex_pad_clear_def)

lemma lock_reach_inv:
  "lock_reach m mm s \<Longrightarrow> mutex_pad_clear m mm \<Longrightarrow> lock_inv m s"
proof (induction rule: lock_reach.induct)
  case start
  then show ?case by (simp add: lock_start_def lock_inv_def)
next
  case (step s t)
  then show ?case by (blast intro: lock_inv_step)
qed

section \<open>Properties\<close>

text \<open>
  C14. Mutual exclusion: however the processes interleave, two processes are never both between
  \<open>mutex_lock\<close> and \<open>mutex_unlock\<close>, and while one is, the byte of the mutex is set, as long as
  the three bytes behind the mutex are zero at the start and no other code writes to the four.
\<close>

theorem mutex_mutual_exclusion:
  assumes "mutex_pad_clear m mm" and "lock_reach m mm s"
    and "lk_pc s i = Inside" and "lk_pc s j = Inside"
  shows "i = j \<and> lk_mem s m \<noteq> 0"
  using lock_reach_inv [OF assms(2,1)] assms(3,4) by (auto simp: lock_inv_def)

text \<open>A lock at address 64: process 1 takes it, writes to 128, and process 2 spins.\<close>

definition sample_lock :: lock_sys where
  "sample_lock = \<lparr>lk_mem = (store32 (\<lambda>_. 0) 64 1)(128 := 7),
     lk_pc = (\<lambda>_. Outside)(1 := Spinning, 1 := Inside, 2 := Spinning)\<rparr>"

lemma sample_lock_reach: "lock_reach 64 (\<lambda>_. 0) sample_lock"
proof -
  let ?s1 = "(lock_start 64 (\<lambda>_. 0))\<lparr>lk_pc := (\<lambda>_. Outside)(1 := Spinning)\<rparr>"
  let ?s2 = "?s1\<lparr>lk_mem := store32 (\<lambda>_. 0) 64 1, lk_pc := (\<lambda>_. Outside)(1 := Spinning, 1 := Inside)\<rparr>"
  let ?s3 = "?s2\<lparr>lk_mem := (store32 (\<lambda>_. 0) 64 1)(128 := 7)\<rparr>"
  have "lock_reach 64 (\<lambda>_. 0) ?s1"
    using lock_step.call [of "lock_start 64 (\<lambda>_. 0)" 1 64]
    by (auto intro!: lock_reach.step [OF lock_reach.start] simp: lock_start_def)
  moreover have "lock_step 64 ?s1 ?s2"
    using lock_step.got [of ?s1 1 64 "store32 (\<lambda>_. 0) 64 1"]
    by (simp add: mutex_try_free mutex_pad_clear_def lock_start_def)
  moreover have "lock_step 64 ?s2 ?s3"
    using lock_step.work [of 64 128 ?s2 7] by (simp add: in_range_def)
  moreover have "lock_step 64 ?s3 sample_lock"
    using lock_step.call [of ?s3 2 64] by (simp add: sample_lock_def lock_start_def)
  ultimately show ?thesis by (meson lock_reach.step)
qed

theorem mutex_mutual_exclusion_witness: "lk_mem sample_lock 64 \<noteq> 0"
  using mutex_mutual_exclusion [of 64 "\<lambda>_. 0" sample_lock 1 1] sample_lock_reach
  by (simp add: mutex_pad_clear_def sample_lock_def)

text \<open>
  The lock operation compares four bytes although a mutex has one: where one of the three
  bytes behind a free mutex is not zero, \<open>mutex_lock\<close> returns as if it had the lock and leaves
  the mutex free, so the next caller gets it too.
\<close>

theorem mutex_lock_dirty_pad:
  assumes "mm m = 0" and "mm (m + 1) \<noteq> 0 \<or> mm (m + 2) \<noteq> 0 \<or> mm (m + 3) \<noteq> 0"
  shows "mutex_lock (\<lambda>x. x) m mm = Some mm"
proof -
  have "mutex_try m mm = (0, mm)"
    using assms by (intro mutex_try_dirty_pad) (auto simp: mutex_pad_clear_def)
  then show ?thesis by (subst mutex_lock.simps) simp
qed

theorem mutex_lock_dirty_pad_witness:
  "mutex_lock (\<lambda>x. x) 64 ((\<lambda>_. 0)(66 := 9)) = Some ((\<lambda>_. 0)(66 := 9))"
  using mutex_lock_dirty_pad [of "(\<lambda>_. 0)(66 := 9)" 64] by simp

text \<open>
  \<open>mutex_lock\<close> returns with the lock taken when another process releases it after any number of passes of the
  scheduler, and never returns when nobody runs who could release it.
\<close>

theorem mutex_lock_waits_for_release:
  assumes "\<And>k. k < n \<Longrightarrow> (sched ^^ k) mm m \<noteq> 0" and "(sched ^^ n) mm m = 0"
    and "mutex_pad_clear m ((sched ^^ n) mm)" and "mm' m \<noteq> 0"
  shows "mutex_lock sched m mm = Some (sched (((sched ^^ n) mm)(m := 1))) \<and>
    mutex_lock (\<lambda>x. x) m mm' = None"
proof -
  have "mutex_lock sched m mm = mutex_lock sched m ((sched ^^ n) mm)"
    using assms(1)
  proof (induction n arbitrary: mm)
    case (Suc n)
    have "mutex_lock sched m mm = mutex_lock sched m (sched mm)"
      using Suc.prems [of 0] by (simp add: mutex_lock_waits)
    also have "\<dots> = mutex_lock sched m ((sched ^^ n) (sched mm))"
      using Suc.prems [of "Suc _"] by (intro Suc.IH) (simp add: funpow_swap1)
    finally show ?case by (simp add: funpow_swap1)
  qed simp
  with assms(2-4) show ?thesis by (simp add: mutex_lock_free mutex_lock_deadlock)
qed

theorem mutex_lock_waits_for_release_witness:
  "mutex_lock (\<lambda>x. x(64 := 0)) 64 ((\<lambda>_. 0)(64 := 1)) = Some (\<lambda>_. 0)"
  using mutex_lock_waits_for_release [of 1 "\<lambda>x. x(64 := 0)" "(\<lambda>_. 0)(64 := 1)" 64 "\<lambda>_. 1"]
  by (simp add: mutex_pad_clear_def fun_upd_def cong: if_cong)

end
