(* ===== verification/Mem_Utils.thy ===== *)
theory Mem_Utils
  imports Mutex_Lock
begin

text \<open>
  \<open>src/memory/memutils.c\<close>: \<open>memset\<close>, \<open>memset16\<close> and the \<open>memcpy\<close> that copies the odd byte
  first, then pairs of bytes, inside the lock \<open>m_memcpy\<close>. The loops run \<open>num\<close> times for a
  32-bit \<open>num\<close>. The functions return their first argument, which callers ignore; the model
  returns the memory.
\<close>

section \<open>The code\<close>

fun memset_loop :: "nat \<Rightarrow> mem \<Rightarrow> addr \<Rightarrow> uint8 \<Rightarrow> mem" where
  "memset_loop 0 m p v = m"
| "memset_loop (Suc n) m p v = memset_loop n (m(p := v)) (p + 1) v"

definition memset :: "mem \<Rightarrow> addr \<Rightarrow> uint32 \<Rightarrow> uint32 \<Rightarrow> mem" where
  "memset m ptr value num = memset_loop (unat num) m ptr (ucast value)"

fun memset16_loop :: "nat \<Rightarrow> mem \<Rightarrow> addr \<Rightarrow> uint16 \<Rightarrow> mem" where
  "memset16_loop 0 m p v = m"
| "memset16_loop (Suc n) m p v = memset16_loop n (store16 m p v) (p + 2) v"

definition memset16 :: "mem \<Rightarrow> addr \<Rightarrow> uint16 \<Rightarrow> uint32 \<Rightarrow> mem" where
  "memset16 m ptr value num = memset16_loop (unat num) m ptr value"

fun memcpy_pairs :: "nat \<Rightarrow> mem \<Rightarrow> addr \<Rightarrow> addr \<Rightarrow> mem" where
  "memcpy_pairs 0 m dst8 src8 = m"
| "memcpy_pairs (Suc n) m dst8 src8 =
     (let m1 = m(dst8 := m src8); m2 = m1(dst8 + 1 := m1 (src8 + 1))
      in memcpy_pairs n m2 (dst8 + 2) (src8 + 2))"

definition memcpy_body :: "mem \<Rightarrow> addr \<Rightarrow> addr \<Rightarrow> uint32 \<Rightarrow> mem" where
  "memcpy_body m dest src num =
     (let (m1, dst8, src8) =
        (if num AND 1 \<noteq> 0 then (m(dest := m src), dest + 1, src + 1) else (m, dest, src))
      in memcpy_pairs (unat (num div 2)) m1 dst8 src8)"

definition memcpy :: "(mem \<Rightarrow> mem) \<Rightarrow> addr \<Rightarrow> mem \<Rightarrow> addr \<Rightarrow> addr \<Rightarrow> uint32 \<Rightarrow> mem option" where
  "memcpy sched m_memcpy m dest src num = do {
     m1 \<leftarrow> mutex_lock sched m_memcpy m;
     Some (mutex_unlock sched m_memcpy (memcpy_body m1 dest src num))
   }"

section \<open>memset\<close>

lemma memset_loop_apply:
  "memset_loop n m p v x = (if unat (x - p) < n then v else m x)"
proof (induction n arbitrary: m p)
  case (Suc n)
  show ?case
  proof (cases "x = p")
    case True
    then show ?thesis using Suc.IH [of "m(p := v)" "p + 1"] by (simp del: fun_upd_apply) simp
  next
    case False
    then have "unat (x - p) \<noteq> 0" by (simp add: unat_eq_0)
    then have "unat (x - (p + 1)) = unat (x - p) - 1"
      by (metis diff_diff_eq unat_eq_0 unat_minus_one)
    with Suc False \<open>unat (x - p) \<noteq> 0\<close> show ?thesis by auto
  qed
qed simp

lemma memset_apply [range_simps]:
  "memset m p v n x = (if in_range p n x then ucast v else m x)"
  by (simp add: memset_def memset_loop_apply in_range_def word_less_nat_alt)

section \<open>memcpy\<close>

text \<open>The reference: one byte after the other, upwards.\<close>

fun copy_bytes :: "nat \<Rightarrow> mem \<Rightarrow> addr \<Rightarrow> addr \<Rightarrow> mem" where
  "copy_bytes 0 m d s = m"
| "copy_bytes (Suc n) m d s = copy_bytes n (m(d := m s)) (d + 1) (s + 1)"

lemma memcpy_pairs_bytes: "memcpy_pairs n m d s = copy_bytes (2 * n) m d s"
  by (induction n arbitrary: m d s) (simp_all add: Let_def add.assoc)

lemma odd_word32: "num AND 1 \<noteq> 0 \<longleftrightarrow> odd (unat num)" for num :: uint32
  by (auto simp: and_one_eq odd_iff_mod_2_eq_one unat_mod simp flip: unat_eq_0)

lemma memcpy_body_bytes: "memcpy_body m d s num = copy_bytes (unat num) m d s"
proof (cases "odd (unat num)")
  case True
  then obtain k where k: "unat num = Suc (2 * k)" by (elim oddE) simp
  then have "unat (num div 2) = k" by (simp add: unat_div)
  with True k show ?thesis by (simp add: memcpy_body_def odd_word32 memcpy_pairs_bytes)
next
  case False
  then obtain k where k: "unat num = 2 * k" by auto
  then have "unat (num div 2) = k" by (simp add: unat_div)
  with False k show ?thesis by (simp add: memcpy_body_def odd_word32 memcpy_pairs_bytes)
qed

text \<open>Where the target does not start inside the source, the source is copied as it was.\<close>

lemma copy_bytes_apply:
  assumes "d = s \<or> n \<le> unat (d - s)" and "n < 4294967296"
  shows "copy_bytes n m d s x = (if unat (x - d) < n then m (s + (x - d)) else m x)"
  using assms
proof (induction n arbitrary: m d s)
  case (Suc n)
  let ?m = "m(d := m s)"
  have IH: "copy_bytes n ?m (d + 1) (s + 1) x =
      (if unat (x - (d + 1)) < n then ?m (s + 1 + (x - (d + 1))) else ?m x)"
    using Suc.prems by (intro Suc.IH) auto
  show ?case
  proof (cases "x = d")
    case True
    have "unat (- 1 :: addr) = 4294967295"
      by (simp add: unsigned_minus_1_eq_mask mask_eq_exp_minus_1)
    with True IH Suc.prems(2) show ?thesis by simp
  next
    case False
    then have pos: "unat (x - d) \<noteq> 0" by (simp add: unat_eq_0)
    then have pred: "unat (x - (d + 1)) = unat (x - d) - 1"
      by (metis diff_diff_eq unat_eq_0 unat_minus_one)
    have "s + (x - d) \<noteq> d" if "unat (x - d) < Suc n"
    proof
      assume "s + (x - d) = d"
      then have "x - d = d - s" by (simp add: algebra_simps)
      with Suc.prems(1) that False show False by auto
    qed
    with IH pred pos False show ?thesis by (auto simp: algebra_simps)
  qed
qed simp

lemma memcpy_body_apply:
  assumes "d = s \<or> num \<le> d - s"
  shows "memcpy_body m d s num x = (if in_range d num x then m (s + (x - d)) else m x)"
  using copy_bytes_apply [of d s "unat num" m x] assms unat32_lt [of num]
  by (simp add: memcpy_body_bytes in_range_def word_less_nat_alt word_le_nat_alt)

text \<open>
  With the lock free and nobody else running, \<open>memcpy\<close> returns with the target holding the
  old source bytes, everything else as it was, and the lock free again.
\<close>

lemma memcpy_alone:
  assumes lock: "m lk = 0" "mutex_pad_clear lk m"
    and sep: "\<not> in_range d num lk" "\<not> in_range s num lk" "d = s \<or> num \<le> d - s"
  shows "memcpy (\<lambda>x. x) lk m d s num =
    Some (\<lambda>x. if in_range d num x then m (s + (x - d)) else m x)"
proof -
  have src: "s + (x - d) \<noteq> lk" if "in_range d num x" for x
  proof
    assume "s + (x - d) = lk"
    then have "lk - s = x - d" by auto
    with that sep(2) show False by (simp add: in_range_def)
  qed
  have "memcpy (\<lambda>x. x) lk m d s num = Some ((memcpy_body (m(lk := 1)) d s num)(lk := 0))"
    by (simp add: memcpy_def mutex_lock_free lock mutex_unlock_def fun_eq_iff)
  also have "(memcpy_body (m(lk := 1)) d s num)(lk := 0) =
      (\<lambda>x. if in_range d num x then m (s + (x - d)) else m x)"
    using sep lock(1) src by (auto simp: fun_eq_iff memcpy_body_apply)
  finally show ?thesis .
qed

section \<open>Properties\<close>

text \<open>
  C30. The loop of \<open>memcpy\<close> that copies an odd byte first and then pairs of bytes does what the byte
  loop does, for every length and however the areas overlap; and where the target does not
  start inside the source, the source is copied as it was and nothing else changes.
\<close>

theorem memcpy_copies:
  assumes "d = s \<or> num \<le> d - s"
  shows "memcpy_body m d' s' num' = copy_bytes (unat num') m d' s' \<and>
    memcpy_body m d s num x = (if in_range d num x then m (s + (x - d)) else m x)"
  using memcpy_body_apply [OF assms] by (simp add: memcpy_body_bytes)

theorem memcpy_copies_witness: "memcpy_body ((\<lambda>_. 0)(16 := 7)) 32 15 3 33 = 7"
  using memcpy_copies [of 32 15 3 "(\<lambda>_. 0)(16 := 7)" 0 0 0 33] by (simp add: in_range_def)

text \<open>
  A call of \<open>memcpy\<close> with its lock free, while nobody else runs, returns, and leaves the lock
  free; with the lock held by nobody who runs it never returns. So a call from an interrupt
  that stopped a process inside \<open>memcpy\<close> hangs.
\<close>

theorem memcpy_returns_iff_lock_free:
  assumes "mutex_pad_clear lk m" and "\<not> in_range d num lk" and "\<not> in_range s num lk"
    and "d = s \<or> num \<le> d - s"
  shows "memcpy (\<lambda>x. x) lk m d s num =
    (if m lk = 0 then Some (\<lambda>x. if in_range d num x then m (s + (x - d)) else m x) else None)"
proof (cases "m lk = 0")
  case True
  with memcpy_alone [OF True assms] show ?thesis by simp
next
  case False
  then show ?thesis by (simp add: memcpy_def mutex_lock_deadlock)
qed

theorem memcpy_returns_iff_lock_free_witness:
  "memcpy (\<lambda>x. x) 4 ((\<lambda>_. 0)(4 := 1)) 32 16 3 = None \<and>
   (case memcpy (\<lambda>x. x) 4 ((\<lambda>_. 0)(17 := 9)) 32 16 3 of Some m \<Rightarrow> m 33 = 9 \<and> m 4 = 0 | None \<Rightarrow> False)"
  using memcpy_returns_iff_lock_free [of 4 "(\<lambda>_. 0)(4 := 1)" 32 3 16]
    memcpy_returns_iff_lock_free [of 4 "(\<lambda>_. 0)(17 := 9)" 32 3 16]
  by (simp add: mutex_pad_clear_def in_range_def)

text \<open>
  \<open>memset\<close> writes the low byte of its value to exactly \<open>num\<close> bytes, also across the end of
  the address space.
\<close>

theorem memset_fills:
  "memset m p v num x = (if in_range p num x then ucast v else m x)"
  by (rule memset_apply)

end
