(* ===== verification/Heap_Alloc.thy ===== *)
theory Heap_Alloc
  imports Mem_Utils
begin

text \<open>
  The kernel heap of \<open>src/memory/malloc.c\<close>: \<open>malloc\<close> and \<open>free\<close> on a chain of blocks in the
  kernel's memory, and \<open>pmalloc\<close> and \<open>pfree\<close> on 32 pages with a descriptor byte each. A
  block is its \<open>alloc_t\<close> header (\<open>include/memory/memory.h\<close>: the status byte at offset 0, the
  size at offset 4, 8 bytes in all), its bytes, and 4 more bytes that nothing uses.
\<close>

section \<open>The code\<close>

record mm_state =
  last_alloc :: uint32
  heap_end :: uint32
  heap_begin :: uint32
  pheap_begin :: uint32
  pheap_end :: uint32
  pheap_desc :: addr
  memory_used :: uint32
  ram :: mem

definition a_status :: "mem \<Rightarrow> addr \<Rightarrow> uint8" where "a_status m a = m a"

definition a_size :: "mem \<Rightarrow> addr \<Rightarrow> uint32" where "a_size m a = load32 m (a + 4)"

text \<open>
  The search loop of \<open>malloc\<close>: \<open>Some (Some a)\<close> when the free block at \<open>a\<close> is taken,
  \<open>Some None\<close> when control reaches the label \<open>nalloc\<close>, \<open>None\<close> when the loop does not end.
\<close>

partial_function (option) malloc_scan :: "mm_state \<Rightarrow> uint32 \<Rightarrow> addr \<Rightarrow> addr option option" where
  "malloc_scan s sz mem =
     (if mem < last_alloc s then
        if a_size (ram s) mem = 0 then Some None
        else if a_status (ram s) mem \<noteq> 0
          then malloc_scan s sz (mem + (a_size (ram s) mem + 8 + 4))
        else if sz \<le> a_size (ram s) mem then Some (Some mem)
        else malloc_scan s sz (mem + (a_size (ram s) mem + 8 + 4))
      else Some None)"

text \<open>Taking the free block at \<open>a\<close>.\<close>

definition malloc_reuse :: "mm_state \<Rightarrow> uint32 \<Rightarrow> addr \<Rightarrow> addr outcome \<times> mm_state" where
  "malloc_reuse s sz a =
     (let m1 = (ram s)(a := 1); m2 = memset m1 (a + 8) 0 sz
      in (Ret (a + 8), s\<lparr>ram := m2, memory_used := memory_used s + (sz + 8)\<rparr>))"

text \<open>The code at the label \<open>nalloc\<close>.\<close>

definition malloc_new :: "mm_state \<Rightarrow> uint32 \<Rightarrow> addr outcome \<times> mm_state" where
  "malloc_new s sz =
     (if heap_end s \<le> last_alloc s + sz + 8 then (Panic, s)
      else let a = last_alloc s;
               m1 = (ram s)(a := 1);
               m2 = store32 m1 (a + 4) sz;
               m3 = memset m2 (a + 8) 0 sz
           in (Ret (a + 8), s\<lparr>ram := m3, last_alloc := a + (sz + 8 + 4),
                 memory_used := memory_used s + (sz + 8 + 4)\<rparr>))"

definition malloc :: "mm_state \<Rightarrow> uint32 \<Rightarrow> (addr outcome \<times> mm_state) option" where
  "malloc s sz =
     (if sz = 0 then Some (Ret 0, s)
      else case malloc_scan s sz (heap_begin s) of
        None \<Rightarrow> None
      | Some (Some a) \<Rightarrow> Some (malloc_reuse s sz a)
      | Some None \<Rightarrow> Some (malloc_new s sz))"

definition free :: "mm_state \<Rightarrow> addr \<Rightarrow> mm_state" where
  "free s p =
     (let a = p - 8
      in s\<lparr>memory_used := memory_used s - (a_size (ram s) a + 8), ram := (ram s)(a := 0)\<rparr>)"

definition MAX_PAGE_ALIGNED_ALLOCS :: nat where "MAX_PAGE_ALIGNED_ALLOCS = 32"

text \<open>\<open>mm_init\<close> clears the heap and takes the page descriptors from it.\<close>

definition mm_init :: "mm_state \<Rightarrow> uint32 \<Rightarrow> (unit outcome \<times> mm_state) option" where
  "mm_init s kernel_end =
     (let la = kernel_end + 0x1000;
          pe = 0x400000;
          pb = pe - of_nat (MAX_PAGE_ALIGNED_ALLOCS * 4096);
          s1 = s\<lparr>last_alloc := la, heap_begin := la, pheap_end := pe, pheap_begin := pb,
                 heap_end := pb, ram := memset (ram s) la 0 (pb - la)\<rparr>
      in case malloc s1 (of_nat MAX_PAGE_ALIGNED_ALLOCS) of
           None \<Rightarrow> None
         | Some (Panic, s2) \<Rightarrow> Some (Panic, s2)
         | Some (Ret p, s2) \<Rightarrow> Some (Ret (), s2\<lparr>pheap_desc := p\<rparr>))"

fun pmalloc_loop :: "nat \<Rightarrow> mm_state \<Rightarrow> uint32 \<Rightarrow> addr \<times> mm_state" where
  "pmalloc_loop 0 s i = (0, s)"
| "pmalloc_loop (Suc n) s i =
     (if ram s (pheap_desc s + i) \<noteq> 0 then pmalloc_loop n s (i + 1)
      else (pheap_begin s + i * 4096, s\<lparr>ram := (ram s)(pheap_desc s + i := 1)\<rparr>))"

text \<open>The argument of \<open>pmalloc\<close> is not used.\<close>

definition pmalloc :: "mm_state \<Rightarrow> uint32 \<Rightarrow> addr \<times> mm_state" where
  "pmalloc s sz = pmalloc_loop MAX_PAGE_ALIGNED_ALLOCS s 0"

definition pfree :: "mm_state \<Rightarrow> addr \<Rightarrow> mm_state" where
  "pfree s p =
     (if p < pheap_begin s \<or> pheap_end s < p then s
      else let ad = (p - pheap_begin s) div 4096
           in s\<lparr>ram := (ram s)(pheap_desc s + ad := 0)\<rparr>)"

section \<open>The heap as a list of blocks\<close>

text \<open>A block is its status byte and its size. The list is in address order.\<close>

type_synonym block = "uint8 \<times> uint32"

text \<open>\<open>heap_chain m a bs e\<close>: the blocks \<open>bs\<close> lie one after the other from \<open>a\<close> up to \<open>e\<close>.\<close>

fun heap_chain :: "mem \<Rightarrow> addr \<Rightarrow> block list \<Rightarrow> addr \<Rightarrow> bool" where
  "heap_chain m a [] e \<longleftrightarrow> a = e"
| "heap_chain m a ((st, sz) # bs) e \<longleftrightarrow>
     a_status m a = st \<and> a_size m a = sz \<and> sz \<noteq> 0 \<and>
     unat a + unat sz + 12 < 4294967296 \<and> heap_chain m (a + (sz + 12)) bs e"

text \<open>The headers with their blocks.\<close>

fun placed :: "addr \<Rightarrow> block list \<Rightarrow> (addr \<times> block) list" where
  "placed a [] = []"
| "placed a ((st, sz) # bs) = (a, st, sz) # placed (a + (sz + 12)) bs"

text \<open>The allocator on the list: first fit, else a new block at the end.\<close>

fun first_fit :: "addr \<Rightarrow> block list \<Rightarrow> uint32 \<Rightarrow> addr option" where
  "first_fit a [] n = None"
| "first_fit a ((st, sz) # bs) n =
     (if st = 0 \<and> n \<le> sz then Some a else first_fit (a + (sz + 12)) bs n)"

fun set_status :: "addr \<Rightarrow> block list \<Rightarrow> addr \<Rightarrow> uint8 \<Rightarrow> block list" where
  "set_status a [] x v = []"
| "set_status a ((st, sz) # bs) x v =
     (if a = x then (v, sz) # bs else (st, sz) # set_status (a + (sz + 12)) bs x v)"

definition heap_inv :: "mm_state \<Rightarrow> block list \<Rightarrow> bool" where
  "heap_inv s bs \<longleftrightarrow> heap_chain (ram s) (heap_begin s) bs (last_alloc s)"

subsection \<open>Facts about chains\<close>

lemma next_block_unat:
  "unat a + unat sz + 12 < 4294967296 \<Longrightarrow> unat (a + (sz + 12) :: addr) = unat a + unat sz + 12"
  by (simp add: unat_word_ariths)

lemma heap_chain_le: "heap_chain m a bs e \<Longrightarrow> unat a \<le> unat e"
  by (induction m a bs e rule: heap_chain.induct) (auto simp: next_block_unat)

lemma heap_chain_placed:
  assumes "heap_chain m a bs e" and "(x, st, sz) \<in> set (placed a bs)"
  shows "unat a \<le> unat x \<and> unat x + unat sz + 12 \<le> unat e \<and> a_status m x = st \<and>
    a_size m x = sz \<and> sz \<noteq> 0"
  using assms
proof (induction m a bs e rule: heap_chain.induct)
  case (2 m a st' sz' bs e)
  from "2.prems"(1) have nx: "unat (a + (sz' + 12)) = unat a + unat sz' + 12"
    and le: "unat (a + (sz' + 12)) \<le> unat e"
    by (auto simp: next_block_unat dest: heap_chain_le)
  show ?case
  proof (cases "(x, st, sz) = (a, st', sz')")
    case True
    with "2.prems" nx le show ?thesis by auto
  next
    case False
    with "2.prems" have "(x, st, sz) \<in> set (placed (a + (sz' + 12)) bs)" by auto
    with "2.IH" "2.prems" nx show ?thesis by auto
  qed
qed simp

text \<open>Only the bytes between the ends matter.\<close>

lemma header_bytes:
  assumes "unat a + unat sz + 12 < 4294967296" and "in_range (a + 4) 4 y"
  shows "unat a + 4 \<le> unat y \<and> unat y < unat a + 8"
proof -
  have "unat (a + 4) = unat a + 4" using assms(1) unat_add_small [of a 4] by simp
  with assms show ?thesis by (simp add: in_range_unat)
qed

lemma a_size_cong:
  assumes "unat a + unat sz + 12 < 4294967296"
    and "\<And>y. unat a + 4 \<le> unat y \<Longrightarrow> unat y < unat a + 8 \<Longrightarrow> m' y = m y"
  shows "a_size m' a = a_size m a"
  unfolding a_size_def
  by (rule load32_cong) (use assms header_bytes in fastforce)

lemma heap_chain_frame:
  assumes "heap_chain m a bs e"
    and "\<And>y. unat a \<le> unat y \<Longrightarrow> unat y < unat e \<Longrightarrow> m' y = m y"
  shows "heap_chain m' a bs e"
  using assms
proof (induction m a bs e rule: heap_chain.induct)
  case (2 m a st sz bs e)
  from "2.prems"(1) have nx: "unat (a + (sz + 12)) = unat a + unat sz + 12"
    and le: "unat (a + (sz + 12)) \<le> unat e"
    by (auto simp: next_block_unat dest: heap_chain_le)
  have "a_status m' a = a_status m a"
    using "2.prems"(2) [of a] nx le by (simp add: a_status_def)
  moreover have "a_size m' a = a_size m a"
    using "2.prems" nx le by (intro a_size_cong [of a sz]) auto
  moreover have "heap_chain m' (a + (sz + 12)) bs e"
    using "2.prems" nx by (intro "2.IH") auto
  ultimately show ?case using "2.prems"(1) by simp
qed simp

lemma heap_chain_append:
  "heap_chain m a (bs @ cs) e \<longleftrightarrow> (\<exists>d. heap_chain m a bs d \<and> heap_chain m d cs e)"
  by (induction m a bs e rule: heap_chain.induct) auto

text \<open>Rewriting a status byte, and the bytes of that block behind its header.\<close>

lemma heap_chain_set_status:
  assumes "heap_chain m a bs e" and "(x, st, sz) \<in> set (placed a bs)"
    and "m' x = v"
    and "\<And>y. y \<noteq> x \<Longrightarrow> \<not> (unat x + 8 \<le> unat y \<and> unat y < unat x + unat sz + 12) \<Longrightarrow> m' y = m y"
  shows "heap_chain m' a (set_status a bs x v) e"
  using assms
proof (induction m a bs e rule: heap_chain.induct)
  case (2 m a st' sz' bs e)
  note chain = "2.prems"(1) and mem = "2.prems"(2) and keep = "2.prems"(4)
  from chain have nx: "unat (a + (sz' + 12)) = unat a + unat sz' + 12"
    by (auto simp: next_block_unat)
  show ?case
  proof (cases "a = x")
    case True
    have "sz = sz'"
    proof (rule ccontr)
      assume "sz \<noteq> sz'"
      with mem True have "(x, st, sz) \<in> set (placed (a + (sz' + 12)) bs)" by auto
      with chain have "unat (a + (sz' + 12)) \<le> unat x"
        using heap_chain_placed [of m "a + (sz' + 12)" bs e x st sz] by simp
      with nx True show False by simp
    qed
    have "a_size m' a = a_size m a"
    proof (rule a_size_cong [of a sz'])
      show "unat a + unat sz' + 12 < 4294967296" using chain by simp
      fix y :: addr assume "unat a + 4 \<le> unat y" "unat y < unat a + 8"
      then show "m' y = m y" using True by (intro keep) auto
    qed
    moreover have "heap_chain m' (a + (sz' + 12)) bs e"
      using chain True nx \<open>sz = sz'\<close>
      by (auto intro!: heap_chain_frame [of m] keep)
    ultimately show ?thesis using chain True "2.prems"(3) by (simp add: a_status_def)
  next
    case False
    with mem have mem': "(x, st, sz) \<in> set (placed (a + (sz' + 12)) bs)" by auto
    with heap_chain_placed [of m "a + (sz' + 12)" bs e] chain nx
    have above: "unat a + unat sz' + 12 \<le> unat x" by fastforce
    have "a_status m' a = a_status m a"
      using keep [of a] False above by (simp add: a_status_def)
    moreover have "a_size m' a = a_size m a"
    proof (rule a_size_cong [of a sz'])
      show "unat a + unat sz' + 12 < 4294967296" using chain by simp
      fix y :: addr assume "unat y < unat a + 8"
      then show "m' y = m y" using above by (intro keep) auto
    qed
    moreover have "heap_chain m' (a + (sz' + 12)) (set_status (a + (sz' + 12)) bs x v) e"
      using chain mem' "2.prems"(3) by (intro "2.IH") (auto intro: keep)
    ultimately show ?thesis using chain False by simp
  qed
qed simp

subsection \<open>The search is first fit\<close>

lemma first_fit_placed:
  "first_fit a bs n = Some x \<Longrightarrow> \<exists>sz. (x, 0, sz) \<in> set (placed a bs) \<and> n \<le> sz"
  by (induction a bs n rule: first_fit.induct) (auto split: if_splits)

lemma first_fit_None:
  "first_fit a bs n = None \<Longrightarrow> (x, 0, sz) \<in> set (placed a bs) \<Longrightarrow> sz < n"
  by (induction a bs n rule: first_fit.induct) (auto split: if_splits)

lemma malloc_scan_first_fit:
  "heap_chain (ram s) a bs (last_alloc s) \<Longrightarrow> malloc_scan s n a = Some (first_fit a bs n)"
proof (induction bs arbitrary: a)
  case Nil
  then show ?case by (simp add: malloc_scan.simps)
next
  case (Cons b bs)
  obtain st sz where b: "b = (st, sz)" by force
  with Cons.prems have nx: "unat (a + (sz + 12)) = unat a + unat sz + 12"
    and le: "unat (a + (sz + 12)) \<le> unat (last_alloc s)"
    by (auto simp: next_block_unat dest: heap_chain_le)
  then have "a < last_alloc s" by (simp add: word_less_nat_alt)
  then show ?case
    using Cons.prems b Cons.IH [of "a + (sz + 12)"]
    by (subst malloc_scan.simps) (simp add: add.commute [of 12])
qed

subsection \<open>malloc refines the list\<close>

text \<open>What a block returned by \<open>malloc\<close> looks like: \<open>n\<close> zero bytes at \<open>p\<close>.\<close>

definition zeroed :: "mem \<Rightarrow> addr \<Rightarrow> uint32 \<Rightarrow> bool" where
  "zeroed m p n \<longleftrightarrow> (\<forall>y. in_range p n y \<longrightarrow> m y = 0)"

lemma payload_range:
  assumes "unat x + unat sz + 12 < 4294967296" and "n \<le> sz" and "in_range (x + 8) n y"
  shows "unat x + 8 \<le> unat y \<and> unat y < unat x + 8 + unat n"
proof -
  have "unat (x + 8) = unat x + 8" using assms(1) unat_add_small [of x 8] by simp
  moreover have "unat n \<le> unat sz" using assms(2) by (simp add: word_le_nat_alt)
  ultimately show ?thesis using assms by (simp add: in_range_unat)
qed

lemma malloc_reuse_chain:
  assumes inv: "heap_inv s bs" and blk: "(x, st, sz) \<in> set (placed (heap_begin s) bs)" and n: "n \<le> sz"
    and res: "malloc_reuse s n x = (r, s')"
  shows "r = Ret (x + 8) \<and> heap_inv s' (set_status (heap_begin s) bs x 1) \<and> zeroed (ram s') (x + 8) n \<and>
    last_alloc s' = last_alloc s \<and> heap_begin s' = heap_begin s \<and>
    (\<forall>y. y \<noteq> x \<longrightarrow> \<not> in_range (x + 8) n y \<longrightarrow> ram s' y = ram s y)"
proof -
  from heap_chain_placed [OF inv [unfolded heap_inv_def] blk] unat32_lt [of "last_alloc s"]
  have bnd: "unat x + unat sz + 12 < 4294967296 \<or> unat x + unat sz + 12 = unat (last_alloc s)" 
    and lt: "unat x + unat sz + 12 < 4294967296" by auto
  note pay = payload_range [OF lt n]
  have nx: "\<not> in_range (x + 8) n x" using pay [of x] by auto
  from res have r: "r = Ret (x + 8)" and s': "s' = s\<lparr>ram := memset ((ram s)(x := 1)) (x + 8) 0 n,
      memory_used := memory_used s + (n + 8)\<rparr>"
    by (auto simp: malloc_reuse_def Let_def)
  have nsz: "unat n \<le> unat sz" using n by (simp add: word_le_nat_alt)
  have "heap_chain (ram s') (heap_begin s) (set_status (heap_begin s) bs x 1) (last_alloc s)"
  proof (rule heap_chain_set_status [OF inv [unfolded heap_inv_def] blk])
    show "ram s' x = 1" using nx by (simp add: s' memset_apply)
    fix y assume "y \<noteq> x" and "\<not> (unat x + 8 \<le> unat y \<and> unat y < unat x + unat sz + 12)"
    then show "ram s' y = ram s y" using pay [of y] nsz by (auto simp: s' memset_apply)
  qed
  then show ?thesis
    by (auto simp: r s' heap_inv_def zeroed_def memset_apply)
qed

lemma malloc_new_chain:
  assumes inv: "heap_inv s bs" and n: "n \<noteq> 0"
    and room: "unat (last_alloc s) + unat n + 12 < 4294967296"
    and res: "malloc_new s n = (r, s')" and fits: "last_alloc s + n + 8 < heap_end s"
  shows "r = Ret (last_alloc s + 8) \<and> heap_inv s' (bs @ [(1, n)]) \<and> zeroed (ram s') (last_alloc s + 8) n \<and>
    last_alloc s' = last_alloc s + (n + 12) \<and> heap_begin s' = heap_begin s \<and>
    (\<forall>y. \<not> in_range (last_alloc s) (n + 8) y \<longrightarrow> ram s' y = ram s y)"
proof -
  define a where "a = last_alloc s"
  note room' = room [folded a_def]
  note pay = payload_range [OF room' order.refl]
  note hdr = header_bytes [OF room']
  define m3 where "m3 = memset (store32 ((ram s)(a := 1)) (a + 4) n) (a + 8) 0 n"
  have r: "r = Ret (a + 8)" and s': "s' = s\<lparr>ram := m3, last_alloc := a + (n + 12),
      memory_used := memory_used s + (n + 12)\<rparr>"
    using res fits
    by (simp_all add: malloc_new_def Let_def a_def m3_def not_le [symmetric] add.commute [of 12])
  have m3: "m3 y = ram s y" if "\<not> (unat a \<le> unat y \<and> unat y < unat a + unat n + 8)" for y
  proof -
    have "y \<noteq> a" "\<not> in_range (a + 4) 4 y" "\<not> in_range (a + 8) n y"
      using that pay [of y] hdr [of y] by auto
    then show ?thesis by (simp add: m3_def memset_apply store32_other)
  qed
  have below: "unat y < unat a \<Longrightarrow> m3 y = ram s y" for y using m3 [of y] by simp
  have "\<not> in_range (a + 4) 4 a" and "\<not> in_range (a + 8) n a"
    using pay [of a] hdr [of a] by auto
  then have "a_status m3 a = 1"
    by (simp add: m3_def a_status_def memset_apply store32_other)
  moreover have "load32 m3 (a + 4) = load32 (store32 ((ram s)(a := 1)) (a + 4) n) (a + 4)"
    by (rule load32_cong) (use pay hdr in \<open>fastforce simp: m3_def memset_apply\<close>)
  then have "a_size m3 a = n" by (simp add: a_size_def)
  moreover have "heap_chain m3 (heap_begin s) bs a"
    using inv below unfolding heap_inv_def a_def [symmetric] by (blast intro: heap_chain_frame)
  ultimately have "heap_chain m3 (heap_begin s) (bs @ [(1, n)]) (a + (n + 12))"
    using n room' by (auto simp: heap_chain_append)
  moreover have "m3 y = ram s y" if "\<not> in_range a (n + 8) y" for y
  proof (rule m3)
    have "unat (n + 8) = unat n + 8" using room' unat_add_small [of n 8] by simp
    with that room' show "\<not> (unat a \<le> unat y \<and> unat y < unat a + unat n + 8)"
      by (simp add: in_range_unat add.assoc)
  qed
  ultimately show ?thesis
    by (auto simp: r s' heap_inv_def zeroed_def m3_def memset_apply simp flip: a_def)
qed

text \<open>
  The invariant of the heap: the chain, an end that leaves room in the address space (the
  kernel's heap ends at \<open>0x3E0000\<close>), and a next block at most 3 bytes behind that end, since
  the test of \<open>malloc\<close> leaves out the 4 bytes after a block.
\<close>

definition heap_ok :: "mm_state \<Rightarrow> block list \<Rightarrow> bool" where
  "heap_ok s bs \<longleftrightarrow> heap_inv s bs \<and> unat (heap_end s) < 2147483648 \<and>
     unat (last_alloc s) < unat (heap_end s) + 4"

text \<open>The sizes callers may ask for: not 0, and below half of the address space.\<close>

definition size_ok :: "uint32 \<Rightarrow> bool" where
  "size_ok n \<longleftrightarrow> n \<noteq> 0 \<and> unat n < 2147483000"

lemma heap_ok_room:
  "heap_ok s bs \<Longrightarrow> size_ok n \<Longrightarrow> unat (last_alloc s) + unat n + 12 < 4294967296"
  by (simp add: heap_ok_def size_ok_def)

lemma malloc_cases:
  assumes "heap_ok s bs" and "size_ok n"
  shows "malloc s n = (case first_fit (heap_begin s) bs n of
      Some x \<Rightarrow> Some (malloc_reuse s n x) | None \<Rightarrow> Some (malloc_new s n))"
proof -
  have "heap_chain (ram s) (heap_begin s) bs (last_alloc s)"
    using assms(1) by (simp add: heap_ok_def heap_inv_def)
  then show ?thesis
    using assms(2) by (simp add: malloc_def malloc_scan_first_fit size_ok_def split: option.split)
qed

lemma heap_full_unat:
  assumes "heap_ok s bs" and "size_ok n"
  shows "heap_end s \<le> last_alloc s + n + 8 \<longleftrightarrow>
    unat (heap_end s) \<le> unat (last_alloc s) + unat n + 8"
proof -
  have "unat (last_alloc s + n + 8) = unat (last_alloc s) + unat n + 8"
    using heap_ok_room [OF assms] by (simp add: unat_word_ariths)
  then show ?thesis by (simp add: word_le_nat_alt)
qed

lemma malloc_reuse_ok:
  assumes ok: "heap_ok s bs" and fit: "first_fit (heap_begin s) bs n = Some x"
  shows "\<exists>s'. malloc_reuse s n x = (Ret (x + 8), s') \<and>
    heap_ok s' (set_status (heap_begin s) bs x 1) \<and> zeroed (ram s') (x + 8) n \<and>
    heap_begin s' = heap_begin s \<and>
    (\<forall>y. y \<noteq> x \<longrightarrow> \<not> in_range (x + 8) n y \<longrightarrow> ram s' y = ram s y)"
proof -
  obtain r s' where res: "malloc_reuse s n x = (r, s')" by force
  obtain sz where blk: "(x, 0, sz) \<in> set (placed (heap_begin s) bs)" and n: "n \<le> sz"
    using first_fit_placed [OF fit] by auto
  have "heap_end s' = heap_end s" using res by (auto simp: malloc_reuse_def Let_def)
  with malloc_reuse_chain [OF _ blk n res] ok res show ?thesis by (auto simp: heap_ok_def)
qed

lemma malloc_new_ok:
  assumes ok: "heap_ok s bs" and n: "size_ok n"
    and room: "unat (last_alloc s) + unat n + 8 < unat (heap_end s)"
  shows "\<exists>s'. malloc_new s n = (Ret (last_alloc s + 8), s') \<and>
    heap_ok s' (bs @ [(1, n)]) \<and> zeroed (ram s') (last_alloc s + 8) n \<and>
    heap_begin s' = heap_begin s \<and>
    (\<forall>y. \<not> in_range (last_alloc s) (n + 8) y \<longrightarrow> ram s' y = ram s y)"
proof -
  obtain r s' where res: "malloc_new s n = (r, s')" by force
  have fits: "last_alloc s + n + 8 < heap_end s"
    using heap_full_unat [OF ok n] room by (simp add: not_le [symmetric])
  have end_eq: "heap_end s' = heap_end s"
    using res by (auto simp: malloc_new_def Let_def split: if_splits)
  note new = malloc_new_chain [OF _ _ heap_ok_room [OF ok n] res fits, of bs]
  have "unat (last_alloc s + (n + 12)) = unat (last_alloc s) + unat n + 12"
    using heap_ok_room [OF ok n] by (simp add: next_block_unat)
  with new ok n res room end_eq show ?thesis by (auto simp: heap_ok_def size_ok_def)
qed

section \<open>The allocator contract\<close>

text \<open>
  What the rest of the kernel relies on when it calls an allocator: \<open>live\<close> is the set of
  blocks handed out and not released, each with the bytes it owns.
\<close>

locale allocator =
  fixes inv :: "'s \<Rightarrow> bool"
    and live :: "'s \<Rightarrow> (addr \<times> uint32) set"
    and bytes :: "'s \<Rightarrow> mem"
    and alloc :: "'s \<Rightarrow> uint32 \<Rightarrow> (addr \<times> 's) option"
    and release :: "'s \<Rightarrow> addr \<Rightarrow> 's"
  assumes alloc_inv: "inv s \<Longrightarrow> alloc s n = Some (p, s') \<Longrightarrow> inv s'"
    and alloc_live: "inv s \<Longrightarrow> alloc s n = Some (p, s') \<Longrightarrow>
      \<exists>sz. n \<le> sz \<and> live s' = insert (p, sz) (live s)"
    and alloc_zero: "inv s \<Longrightarrow> alloc s n = Some (p, s') \<Longrightarrow> zeroed (bytes s') p n"
    and alloc_keeps: "inv s \<Longrightarrow> alloc s n = Some (p, s') \<Longrightarrow> (q, sz) \<in> live s \<Longrightarrow>
      in_range q sz y \<Longrightarrow> bytes s' y = bytes s y"
    and live_disjoint: "inv s \<Longrightarrow> (p, n) \<in> live s \<Longrightarrow> (q, k) \<in> live s \<Longrightarrow> (p, n) \<noteq> (q, k) \<Longrightarrow>
      in_range p n y \<Longrightarrow> \<not> in_range q k y"
    and alloc_new: "inv s \<Longrightarrow> alloc s n = Some (p, s') \<Longrightarrow> (p, sz) \<notin> live s"
    and release_inv: "inv s \<Longrightarrow> (p, n) \<in> live s \<Longrightarrow> inv (release s p)"
    and release_live: "inv s \<Longrightarrow> (p, n) \<in> live s \<Longrightarrow> live (release s p) = live s - {(p, n)}"
begin

lemma alloc_owns:
  assumes "inv s" and "alloc s n = Some (p, s')"
  shows "\<exists>sz. n \<le> sz \<and> (p, sz) \<in> live s'"
  using alloc_live [OF assms] by blast

text \<open>A new block shares no byte with one that was live before.\<close>

lemma alloc_fresh:
  assumes "inv s" and "alloc s n = Some (p, s')" and "(q, k) \<in> live s" and "in_range q k y"
  shows "\<not> in_range p n y"
proof -
  obtain sz where sz: "n \<le> sz" "live s' = insert (p, sz) (live s)"
    using alloc_live [OF assms(1,2)] by blast
  have "(q, k) \<noteq> (p, sz)" using alloc_new [OF assms(1,2)] assms(3) by auto
  with sz assms live_disjoint [OF alloc_inv [OF assms(1,2)], of q k p sz y]
  have "\<not> in_range p sz y" by auto
  with sz(1) show ?thesis by (auto simp: in_range_def)
qed

text \<open>Two allocations in a row give disjoint blocks.\<close>

lemma two_allocs_disjoint:
  assumes "inv s" and "alloc s n = Some (p, s1)" and "alloc s1 k = Some (q, s2)" and "in_range p n y"
  shows "\<not> in_range q k y"
proof -
  obtain sz where "n \<le> sz" "(p, sz) \<in> live s1" using alloc_owns [OF assms(1,2)] by blast
  moreover from \<open>n \<le> sz\<close> assms(4) have "in_range p sz y" by (auto simp: in_range_def)
  ultimately show ?thesis using alloc_fresh alloc_inv [OF assms(1,2)] assms(3) by blast
qed

end

section \<open>malloc and free keep the contract\<close>

definition live_of :: "addr \<Rightarrow> block list \<Rightarrow> (addr \<times> uint32) set" where
  "live_of a bs = {(x + 8, sz) | x st sz. (x, st, sz) \<in> set (placed a bs) \<and> st \<noteq> 0}"

definition heap_good :: "mm_state \<Rightarrow> bool" where
  "heap_good s \<longleftrightarrow> (\<exists>bs. heap_ok s bs)"

definition heap_live :: "mm_state \<Rightarrow> (addr \<times> uint32) set" where
  "heap_live s = (\<Union>bs \<in> {bs. heap_ok s bs}. live_of (heap_begin s) bs)"

definition malloc_alloc :: "mm_state \<Rightarrow> uint32 \<Rightarrow> (addr \<times> mm_state) option" where
  "malloc_alloc s n =
     (if size_ok n then case malloc s n of Some (Ret p, s') \<Rightarrow> Some (p, s') | _ \<Rightarrow> None else None)"

lemma heap_chain_unique:
  "heap_chain m a bs e \<Longrightarrow> heap_chain m a cs e \<Longrightarrow> bs = cs"
proof (induction m a bs e arbitrary: cs rule: heap_chain.induct)
  case (1 m a e)
  then show ?case
  proof (cases cs)
    case (Cons c ds)
    obtain st sz where "c = (st, sz)" by force
    with 1 Cons have "unat a + unat sz + 12 < 4294967296" "heap_chain m (a + (sz + 12)) ds a" by auto
    from heap_chain_le [OF this(2)] next_block_unat [OF this(1)] show ?thesis by simp
  qed simp
next
  case (2 m a st sz bs e)
  show ?case
  proof (cases cs)
    case Nil
    with "2.prems" have "unat a + unat sz + 12 < 4294967296" "heap_chain m (a + (sz + 12)) bs a" by auto
    from heap_chain_le [OF this(2)] next_block_unat [OF this(1)] show ?thesis by simp
  next
    case (Cons c ds)
    with 2 show ?thesis by (cases c) auto
  qed
qed

lemma heap_live_eq: "heap_ok s bs \<Longrightarrow> heap_live s = live_of (heap_begin s) bs"
proof -
  assume ok: "heap_ok s bs"
  have "bs' = bs" if "heap_ok s bs'" for bs'
    using that ok heap_chain_unique by (auto simp: heap_ok_def heap_inv_def)
  with ok have "{bs. heap_ok s bs} = {bs}" by blast
  then show ?thesis by (simp add: heap_live_def)
qed

lemma placed_apart:
  assumes "heap_chain m a bs e" and "(x, st, sz) \<in> set (placed a bs)"
    and "(y, st', sz') \<in> set (placed a bs)"
  shows "(x, st, sz) = (y, st', sz') \<or> unat x + unat sz + 12 \<le> unat y \<or> unat y + unat sz' + 12 \<le> unat x"
  using assms
proof (induction m a bs e rule: heap_chain.induct)
  case (2 m a st0 sz0 bs e)
  let ?n = "a + (sz0 + 12)"
  have tail: "unat a + unat sz0 + 12 \<le> unat z" if "(z, t, k) \<in> set (placed ?n bs)" for z t k
    using heap_chain_placed [of m ?n bs e z t k] that "2.prems"(1) by (simp add: next_block_unat)
  show ?case using 2 tail by auto
qed simp

lemma placed_set_status:
  "heap_chain m a bs e \<Longrightarrow>
    placed a (set_status a bs x v) = map (\<lambda>(y, st, sz). (y, if y = x then v else st, sz)) (placed a bs)"
proof (induction m a bs e rule: heap_chain.induct)
  case (2 m a st0 sz0 bs e)
  let ?n = "a + (sz0 + 12)"
  have "z \<noteq> a" if "(z, t, k) \<in> set (placed ?n bs)" for z t k
    using heap_chain_placed [of m ?n bs e z t k] that "2.prems"(1) by (auto simp: next_block_unat)
  then have "map (\<lambda>(y, st, sz). (y, if y = a then v else st, sz)) (placed ?n bs) = placed ?n bs"
    by (auto intro!: map_idI)
  with 2 show ?case by auto
qed simp

lemma placed_append:
  "heap_chain m a bs d \<Longrightarrow> placed a (bs @ cs) = placed a bs @ placed d cs"
  by (induction m a bs d rule: heap_chain.induct) auto

lemma image_status:
  fixes A :: "(addr \<times> uint8 \<times> uint32) set"
  shows "(y, t, k) \<in> (\<lambda>(y, st, sz). (y, if y = x then v else st, sz)) ` A \<longleftrightarrow>
    (\<exists>t0. (y, t0, k) \<in> A \<and> t = (if y = x then v else t0))" (is "?l \<longleftrightarrow> ?r")
proof
  assume ?l then show ?r by auto
next
  assume ?r
  then obtain t0 where "(y, t0, k) \<in> A" "t = (if y = x then v else t0)" by blast
  then show ?l by (intro image_eqI [of _ _ "(y, t0, k)"]) simp_all
qed
lemma live_of_set:
  assumes "heap_chain m a bs e" and "(x, st, sz) \<in> set (placed a bs)"
  shows "live_of a (set_status a bs x v) =
    (if v = 0 then live_of a bs - {(x + 8, sz)} else insert (x + 8, sz) (live_of a bs))"
proof -
  let ?A = "set (placed a bs)"
  have uniq: "(x, t, k) \<in> ?A \<longleftrightarrow> t = st \<and> k = sz" for t k
    using placed_apart [OF assms, of x t k] assms(2) by auto
  have mem: "(y, t, k) \<in> set (placed a (set_status a bs x v)) \<longleftrightarrow>
      (y \<noteq> x \<and> (y, t, k) \<in> ?A) \<or> (y = x \<and> t = v \<and> k = sz)" for y t k
    unfolding placed_set_status [OF assms(1)] set_map image_status
    by (cases "y = x") (auto simp: uniq)
  define L where "L = {(y + 8, k) | y t k. y \<noteq> x \<and> (y, t, k) \<in> ?A \<and> t \<noteq> 0}"
  have "live_of a (set_status a bs x v) = L \<union> (if v = 0 then {} else {(x + 8, sz)})"
    unfolding live_of_def mem L_def by auto
  moreover have "live_of a bs = L \<union> (if st = 0 then {} else {(x + 8, sz)})"
    unfolding live_of_def L_def using uniq by auto
  moreover have "(x + 8, sz) \<notin> L" by (auto simp: L_def)
  ultimately show ?thesis by auto
qed

lemma live_of_append:
  "heap_chain m a bs d \<Longrightarrow> live_of a (bs @ [(1, n)]) = insert (d + 8, n) (live_of a bs)"
  by (auto simp: live_of_def placed_append) (rule exI [of _ 1], simp)

lemma live_of_range:
  assumes "heap_chain m a bs e" and "(x, st, sz) \<in> set (placed a bs)" and "in_range (x + 8) sz y"
  shows "unat x + 8 \<le> unat y \<and> unat y < unat x + unat sz + 8 \<and> unat x + unat sz + 12 \<le> unat e"
proof -
  have "unat x + unat sz + 12 \<le> unat e" using heap_chain_placed [OF assms(1,2)] by simp
  moreover from this have "unat x + unat sz + 12 < 4294967296" using unat32_lt [of e] by simp
  ultimately show ?thesis using payload_range [OF _ order.refl assms(3)] by simp
qed

lemma payloads_disjoint:
  assumes "heap_chain m a bs e" and "(x, st, sz) \<in> set (placed a bs)" and "(y, st', sz') \<in> set (placed a bs)"
    and "(x, sz) \<noteq> (y, sz')" and "in_range (x + 8) sz z"
  shows "\<not> in_range (y + 8) sz' z"
  using placed_apart [OF assms(1-3)] live_of_range [OF assms(1,2,5)]
    live_of_range [OF assms(1,3), of z] assms(4) by fastforce

lemma malloc_alloc_cases [consumes 2, case_names reuse new]:
  assumes ok: "heap_ok s bs" and res: "malloc_alloc s n = Some (p, s')"
  obtains (reuse) x sz where "first_fit (heap_begin s) bs n = Some x" and "(x, 0, sz) \<in> set (placed (heap_begin s) bs)"
      and "n \<le> sz" and "p = x + 8" and "heap_ok s' (set_status (heap_begin s) bs x 1)"
      and "\<And>y. y \<noteq> x \<Longrightarrow> \<not> in_range (x + 8) n y \<Longrightarrow> ram s' y = ram s y"
      and "zeroed (ram s') p n" and "heap_begin s' = heap_begin s" and "size_ok n"
  | (new) "first_fit (heap_begin s) bs n = None" and "p = last_alloc s + 8" and "heap_ok s' (bs @ [(1, n)])"
      and "\<And>y. unat y < unat (last_alloc s) \<Longrightarrow> ram s' y = ram s y"
      and "zeroed (ram s') p n" and "heap_begin s' = heap_begin s" and "size_ok n"
proof (cases "first_fit (heap_begin s) bs n")
  case (Some x)
  obtain sz where sz: "(x, 0, sz) \<in> set (placed (heap_begin s) bs)" "n \<le> sz"
    using first_fit_placed [OF Some] by auto
  have n: "size_ok n" using res by (simp add: malloc_alloc_def split: if_splits)
  show thesis
    using malloc_reuse_ok [OF ok Some] sz Some n res malloc_cases [OF ok n]
    by (intro reuse) (auto simp: malloc_alloc_def)
next
  case None
  have n: "size_ok n" using res by (simp add: malloc_alloc_def split: if_splits)
  then have new': "malloc_new s n = (Ret p, s')"
    using res malloc_cases [OF ok n] None by (auto simp: malloc_alloc_def split: outcome.splits prod.splits)
  then have "\<not> heap_end s \<le> last_alloc s + n + 8" by (auto simp: malloc_new_def)
  then have "unat (last_alloc s) + unat n + 8 < unat (heap_end s)"
    by (simp add: heap_full_unat [OF ok n])
  from malloc_new_ok [OF ok n this] new' have *: "p = last_alloc s + 8" "heap_ok s' (bs @ [(1, n)])"
    "zeroed (ram s') p n" "heap_begin s' = heap_begin s"
    "\<And>y. \<not> in_range (last_alloc s) (n + 8) y \<Longrightarrow> ram s' y = ram s y" by auto
  have "ram s' y = ram s y" if "unat y < unat (last_alloc s)" for y
  proof (rule *(5))
    have "unat (n + 8) = unat n + 8" using heap_ok_room [OF ok n] unat_add_small [of n 8] by simp
    with that heap_ok_room [OF ok n] show "\<not> in_range (last_alloc s) (n + 8) y"
      by (simp add: in_range_unat)
  qed
  with * None n show thesis by (intro new)
qed

lemma free_chain:
  assumes ok: "heap_ok s bs" and blk: "(x, st, sz) \<in> set (placed (heap_begin s) bs)"
  shows "heap_ok (free s (x + 8)) (set_status (heap_begin s) bs x 0) \<and>
    memory_used (free s (x + 8)) = memory_used s - (sz + 8) \<and>
    heap_begin (free s (x + 8)) = heap_begin s \<and>
    ram (free s (x + 8)) = (ram s)(x := 0)"
proof -
  have chain: "heap_chain (ram s) (heap_begin s) bs (last_alloc s)"
    using ok by (simp add: heap_ok_def heap_inv_def)
  have "heap_chain ((ram s)(x := 0)) (heap_begin s) (set_status (heap_begin s) bs x 0) (last_alloc s)"
    by (rule heap_chain_set_status [OF chain blk]) auto
  with ok heap_chain_placed [OF chain blk] show ?thesis
    by (simp add: heap_ok_def heap_inv_def free_def Let_def)
qed

interpretation kheap: allocator heap_good heap_live ram malloc_alloc free
proof unfold_locales
  fix s n p s'
  assume good: "heap_good s" and res: "malloc_alloc s n = Some (p, s')"
  then obtain bs where ok: "heap_ok s bs" by (auto simp: heap_good_def)
  have chain: "heap_chain (ram s) (heap_begin s) bs (last_alloc s)"
    using ok by (simp add: heap_ok_def heap_inv_def)
  show "heap_good s'"
    using ok res by (cases rule: malloc_alloc_cases) (auto simp: heap_good_def)
  show "zeroed (ram s') p n"
    using ok res by (cases rule: malloc_alloc_cases) auto
  show "\<exists>sz. n \<le> sz \<and> heap_live s' = insert (p, sz) (heap_live s)"
  using ok res proof (cases rule: malloc_alloc_cases)
    case (reuse x sz)
    then show ?thesis
      using live_of_set [OF chain reuse(2), of 1] by (auto simp: heap_live_eq [OF ok] heap_live_eq)
  next
    case new
    then show ?thesis
      using live_of_append [OF chain, of n] by (auto simp: heap_live_eq [OF ok] heap_live_eq)
  qed
  show "ram s' y = ram s y" if ql: "(q, sz) \<in> heap_live s" and y: "in_range q sz y" for q sz y
  proof -
    obtain x st where blk: "(x, st, sz) \<in> set (placed (heap_begin s) bs)" "st \<noteq> 0" and q: "q = x + 8"
      using ql by (auto simp: heap_live_eq [OF ok] live_of_def)
    note rng = live_of_range [OF chain blk(1) y [unfolded q]]
    show ?thesis
    using ok res proof (cases rule: malloc_alloc_cases)
      case (reuse x' sz')
      have "(x, st, sz) \<noteq> (x', 0, sz')" using blk(2) by simp
      then have "unat x + unat sz + 12 \<le> unat x' \<or> unat x' + unat sz' + 12 \<le> unat x"
        using placed_apart [OF chain blk(1) reuse(2)] by blast
      moreover have "in_range (x' + 8) n y \<Longrightarrow> in_range (x' + 8) sz' y"
        using reuse(3) by (auto simp: in_range_def)
      ultimately show ?thesis
        using rng live_of_range [OF chain reuse(2), of y] reuse(6) [of y] by fastforce
    next
      case new
      with rng show ?thesis by simp
    qed
  qed
  show "(p, sz) \<notin> heap_live s" for sz
  proof
    assume "(p, sz) \<in> heap_live s"
    then obtain x st where blk: "(x, st, sz) \<in> set (placed (heap_begin s) bs)" "st \<noteq> 0" and q: "p = x + 8"
      by (auto simp: heap_live_eq [OF ok] live_of_def)
    show False
    using ok res proof (cases rule: malloc_alloc_cases)
      case (reuse x' sz')
      then have "x = x'" using q by simp
      with placed_apart [OF chain blk(1) reuse(2)] blk(2) show False by auto
    next
      case new
      then have "x = last_alloc s" using q by simp
      with heap_chain_placed [OF chain blk(1)] show False by simp
    qed
  qed
next
  fix s p n q k y
  assume "heap_good s" and pq: "(p, n) \<in> heap_live s" "(q, k) \<in> heap_live s" "(p, n) \<noteq> (q, k)"
    and y: "in_range p n y"
  then obtain bs where ok: "heap_ok s bs" by (auto simp: heap_good_def)
  have chain: "heap_chain (ram s) (heap_begin s) bs (last_alloc s)"
    using ok by (simp add: heap_ok_def heap_inv_def)
  from pq y show "\<not> in_range q k y"
    by (auto simp: heap_live_eq [OF ok] live_of_def dest: payloads_disjoint [OF chain])
next
  fix s p n
  assume "heap_good s" and live: "(p, n) \<in> heap_live s"
  then obtain bs where ok: "heap_ok s bs" by (auto simp: heap_good_def)
  have chain: "heap_chain (ram s) (heap_begin s) bs (last_alloc s)"
    using ok by (simp add: heap_ok_def heap_inv_def)
  obtain x st where blk: "(x, st, n) \<in> set (placed (heap_begin s) bs)" and p: "p = x + 8"
    using live by (auto simp: heap_live_eq [OF ok] live_of_def)
  note fc = free_chain [OF ok blk]
  show "heap_good (free s p)" using fc p by (auto simp: heap_good_def)
  show "heap_live (free s p) = heap_live s - {(p, n)}"
    using fc p live_of_set [OF chain blk, of 0]
    by (simp add: heap_live_eq [OF ok] heap_live_eq [OF conjunct1 [OF fc]])
qed

section \<open>Properties of the heap\<close>

text \<open>
  C10. \<open>malloc\<close> implements first fit over the list of blocks and always returns or panics: it
  takes the first free block that is large enough, else appends a block, else (when the heap
  is full) panics with the state unchanged.
\<close>

theorem malloc_refines_first_fit:
  assumes "heap_ok s bs" and "size_ok n"
  shows "case first_fit (heap_begin s) bs n of
      Some x \<Rightarrow> (\<exists>s'. malloc s n = Some (Ret (x + 8), s') \<and>
        heap_ok s' (set_status (heap_begin s) bs x 1))
    | None \<Rightarrow> if unat (heap_end s) \<le> unat (last_alloc s) + unat n + 8 then malloc s n = Some (Panic, s)
        else (\<exists>s'. malloc s n = Some (Ret (last_alloc s + 8), s') \<and> heap_ok s' (bs @ [(1, n)]))"
proof (cases "first_fit (heap_begin s) bs n")
  case None
  show ?thesis
  proof (cases "unat (heap_end s) \<le> unat (last_alloc s) + unat n + 8")
    case True
    then have "malloc_new s n = (Panic, s)"
      by (simp add: malloc_new_def heap_full_unat [OF assms])
    with None True show ?thesis by (simp add: malloc_cases [OF assms])
  next
    case False
    with malloc_new_ok [OF assms] None show ?thesis by (auto simp: malloc_cases [OF assms])
  qed
next
  case (Some x)
  with malloc_reuse_ok [OF assms(1) Some] show ?thesis by (auto simp: malloc_cases [OF assms])
qed

text \<open>A heap as \<open>mm_init\<close> leaves it: empty, from \<open>0x200000\<close> to \<open>0x3E0000\<close>.\<close>

definition sample_heap :: mm_state where
  "sample_heap = \<lparr>last_alloc = 0x200000, heap_end = 0x3E0000, heap_begin = 0x200000,
     pheap_begin = 0x3E0000, pheap_end = 0x400000, pheap_desc = 0x300000, memory_used = 0,
     ram = (\<lambda>_. 0)\<rparr>"

lemma sample_heap_ok: "heap_ok sample_heap []"
  by (simp add: heap_ok_def heap_inv_def sample_heap_def)

theorem malloc_refines_first_fit_witness:
  "\<exists>s'. malloc sample_heap 100 = Some (Ret 0x200008, s') \<and> heap_ok s' [(1, 100)]"
  using malloc_refines_first_fit [OF sample_heap_ok, of 100]
  by (simp add: size_ok_def sample_heap_def)

text \<open>
  C11. A block that \<open>malloc\<close> returns is zero, shares no byte with a block that was live, and no
  byte of a live block changes; afterwards the new block is live with at least the size asked
  for.
\<close>

theorem malloc_fresh_block:
  assumes "heap_good s" and "size_ok n" and "malloc s n = Some (Ret p, s')"
  shows "heap_good s' \<and> zeroed (ram s') p n \<and>
    (\<exists>sz. n \<le> sz \<and> heap_live s' = insert (p, sz) (heap_live s)) \<and>
    (\<forall>(q, k) \<in> heap_live s. \<forall>y. in_range q k y \<longrightarrow> \<not> in_range p n y \<and> ram s' y = ram s y)"
proof -
  have al: "malloc_alloc s n = Some (p, s')" using assms(2,3) by (simp add: malloc_alloc_def)
  note facts = kheap.alloc_inv [OF assms(1) al] kheap.alloc_zero [OF assms(1) al]
    kheap.alloc_live [OF assms(1) al]
  show ?thesis
    using facts kheap.alloc_fresh [OF assms(1) al] kheap.alloc_keeps [OF assms(1) al] by auto
qed

theorem malloc_fresh_block_witness:
  "\<exists>s'. malloc sample_heap 100 = Some (Ret 0x200008, s') \<and> zeroed (ram s') 0x200008 100 \<and>
     (\<exists>sz. 100 \<le> sz \<and> heap_live s' = insert (0x200008, sz) (heap_live sample_heap))"
proof -
  have sz: "size_ok 100" by (simp add: size_ok_def)
  have good: "heap_good sample_heap" using sample_heap_ok by (auto simp: heap_good_def)
  have "malloc sample_heap 100 = Some (malloc_new sample_heap 100)"
    using malloc_cases [OF sample_heap_ok sz] by simp
  moreover obtain s' where "malloc_new sample_heap 100 = (Ret 0x200008, s')"
    by (simp add: malloc_new_def sample_heap_def Let_def)
  ultimately have "malloc sample_heap 100 = Some (Ret 0x200008, s')" by simp
  with malloc_fresh_block [OF good sz this] show ?thesis by blast
qed

text \<open>
  C12. \<open>free\<close> of a live block makes exactly that block free: the heap stays well formed, every
  other live block stays live, and the only byte of memory that changes is the status byte of
  the block.
\<close>

theorem free_releases_block:
  assumes "heap_good s" and "(p, n) \<in> heap_live s"
  shows "heap_good (free s p) \<and> heap_live (free s p) = heap_live s - {(p, n)} \<and>
    (\<forall>y. y \<noteq> p - 8 \<longrightarrow> ram (free s p) y = ram s y)"
  using kheap.release_inv [OF assms] kheap.release_live [OF assms]
  by (simp add: free_def Let_def)

theorem free_releases_block_witness:
  "\<exists>s sz. (0x200008, sz) \<in> heap_live s \<and> heap_good (free s 0x200008) \<and>
     heap_live (free s 0x200008) = heap_live s - {(0x200008, sz)}"
proof -
  have good: "heap_good sample_heap" using sample_heap_ok by (auto simp: heap_good_def)
  have "\<exists>s'. malloc_alloc sample_heap 100 = Some (0x200008, s')"
    by (simp add: malloc_alloc_def size_ok_def malloc_def malloc_scan.simps malloc_new_def
        sample_heap_def Let_def)
  then obtain s' where al: "malloc_alloc sample_heap 100 = Some (0x200008, s')" ..
  obtain sz where "(0x200008, sz) \<in> heap_live s'" using kheap.alloc_owns [OF good al] by blast
  with free_releases_block [OF kheap.alloc_inv [OF good al] this] show ?thesis by blast
qed

lemma first_fit_freed:
  assumes "heap_chain m a bs e" and "first_fit a bs n = None"
    and "(x, st, sz) \<in> set (placed a bs)" and "n \<le> sz"
  shows "first_fit a (set_status a bs x 0) n = Some x"
  using assms
proof (induction m a bs e rule: heap_chain.induct)
  case (2 m a st0 sz0 bs e)
  let ?n = "a + (sz0 + 12)"
  show ?case
  proof (cases "a = x")
    case True
    then have "(a, st0, sz0) = (x, st, sz)"
      using placed_apart [OF "2.prems"(1), of a st0 sz0 x st sz] "2.prems"(3) by auto
    with "2.prems" show ?thesis by simp
  next
    case False
    with "2.prems" have "(x, st, sz) \<in> set (placed ?n bs)" by auto
    with 2 False show ?thesis by (auto split: if_splits)
  qed
qed simp

text \<open>
  Memory is used again: when no free block is large enough, freeing a block of at least
  \<open>n\<close> bytes makes the next \<open>malloc n\<close> return that same block.
\<close>

theorem free_then_malloc_reuses:
  assumes "heap_ok s bs" and "size_ok n" and "first_fit (heap_begin s) bs n = None"
    and "(x, st, sz) \<in> set (placed (heap_begin s) bs)" and "n \<le> sz"
  shows "\<exists>s'. malloc (free s (x + 8)) n = Some (Ret (x + 8), s')"
proof -
  let ?f = "free s (x + 8)"
  note fc = free_chain [OF assms(1,4)]
  have chain: "heap_chain (ram s) (heap_begin s) bs (last_alloc s)"
    using assms(1) by (simp add: heap_ok_def heap_inv_def)
  have ok: "heap_ok ?f (set_status (heap_begin s) bs x 0)" using fc by blast
  have "first_fit (heap_begin ?f) (set_status (heap_begin s) bs x 0) n = Some x"
    using fc first_fit_freed [OF chain assms(3-5)] by simp
  with malloc_cases [OF ok assms(2)] malloc_reuse_ok [OF ok] show ?thesis by fastforce
qed

text \<open>A heap with one live block of 100 bytes.\<close>

definition sample_heap1 :: mm_state where
  "sample_heap1 = sample_heap\<lparr>last_alloc := 0x200070, memory_used := 112,
     ram := (\<lambda>_. 0)(0x200000 := 1, 0x200004 := 100)\<rparr>"

lemma sample_heap1_ok: "heap_ok sample_heap1 [(1, 100)]"
  by (simp add: heap_ok_def heap_inv_def sample_heap1_def sample_heap_def a_status_def a_size_def
      load32_def)

theorem free_then_malloc_reuses_witness:
  "\<exists>s'. malloc (free sample_heap1 0x200008) 60 = Some (Ret 0x200008, s')"
  using free_then_malloc_reuses [OF sample_heap1_ok, of 60 "0x200000" 1 100]
  by (simp add: size_ok_def sample_heap1_def sample_heap_def)

text \<open>
  The size test of \<open>malloc\<close> is done modulo \<open>2^32\<close>: a request so large that
  \<open>last_alloc + size + 8\<close> wraps below the end of the heap is granted, although no such block
  exists, and the end of the chain moves backwards.
\<close>

theorem malloc_wraps:
  assumes "heap_ok s bs" and "first_fit (heap_begin s) bs n = None"
    and "4294967296 \<le> unat (last_alloc s) + unat n + 8" and "unat n + 12 < 4294967296"
    and "unat (last_alloc s) + unat n + 8 < 4294967296 + unat (heap_end s)"
  shows "\<exists>s'. malloc s n = Some (Ret (last_alloc s + 8), s') \<and> last_alloc s' < last_alloc s"
proof -
  have chain: "heap_chain (ram s) (heap_begin s) bs (last_alloc s)"
    using assms(1) by (simp add: heap_ok_def heap_inv_def)
  have la: "unat (last_alloc s) < 2147483652" and he: "unat (heap_end s) < 2147483648"
    using assms(1) by (auto simp: heap_ok_def)
  have n0: "n \<noteq> 0" using assms(3) la by auto
  have "unat (last_alloc s + (n + 8)) = unat (last_alloc s) + unat n + 8 - 4294967296"
    using assms(3,4) la by (simp add: unat_word_ariths le_mod_geq)
  then have no_panic: "\<not> heap_end s \<le> last_alloc s + n + 8"
    using assms(3,5) by (simp add: word_le_nat_alt add.assoc)
  have "unat (last_alloc s + (n + 12)) = unat (last_alloc s) + unat n + 12 - 4294967296"
    using assms(3,4) la by (simp add: unat_word_ariths le_mod_geq)
  then have "last_alloc s + (n + 12) < last_alloc s"
    using assms(3,4) la by (simp add: word_less_nat_alt)
  moreover have "malloc s n = Some (malloc_new s n)"
    using n0 chain assms(2) by (simp add: malloc_def malloc_scan_first_fit)
  ultimately show ?thesis
    using no_panic by (auto simp: malloc_new_def Let_def add.commute [of 12])
qed

theorem malloc_wraps_witness:
  "\<exists>s'. malloc sample_heap 0xFFFF0000 = Some (Ret 0x200008, s') \<and> last_alloc s' < 0x200000"
  using malloc_wraps [OF sample_heap_ok, of "0xFFFF0000"] by (simp add: sample_heap_def)

text \<open>
  The count of used memory drifts: a fresh block adds \<open>size + 12\<close> to \<open>memory_used\<close>, but
  \<open>free\<close> takes only \<open>size + 8\<close> off again.
\<close>

theorem memory_used_drifts:
  assumes "heap_ok s bs" and "size_ok n" and "first_fit (heap_begin s) bs n = None"
    and "malloc s n = Some (Ret p, s')"
  shows "memory_used (free s' p) = memory_used s + 4"
proof -
  from assms have new: "malloc_new s n = (Ret p, s')" by (simp add: malloc_cases)
  then have "\<not> heap_end s \<le> last_alloc s + n + 8" by (auto simp: malloc_new_def)
  then have "unat (last_alloc s) + unat n + 8 < unat (heap_end s)"
    by (simp add: heap_full_unat [OF assms(1,2)])
  with malloc_new_ok [OF assms(1,2)] new have p: "p = last_alloc s + 8"
    and ok: "heap_ok s' (bs @ [(1, n)])" and hb: "heap_begin s' = heap_begin s" by auto
  have chain: "heap_chain (ram s) (heap_begin s) bs (last_alloc s)"
    using assms(1) by (simp add: heap_ok_def heap_inv_def)
  have "(last_alloc s, 1, n) \<in> set (placed (heap_begin s') (bs @ [(1, n)]))"
    using chain by (simp add: hb placed_append)
  from free_chain [OF ok this] p have "memory_used (free s' p) = memory_used s' - (n + 8)" by simp
  moreover have "memory_used s' = memory_used s + (n + 12)"
    using new by (auto simp: malloc_new_def Let_def algebra_simps split: if_splits)
  ultimately show ?thesis by simp
qed

theorem memory_used_drifts_witness:
  "\<exists>p s'. malloc sample_heap 100 = Some (Ret p, s') \<and>
     memory_used (free s' p) = memory_used sample_heap + 4"
proof -
  have n: "size_ok 100" by (simp add: size_ok_def)
  obtain s' where s': "malloc sample_heap 100 = Some (Ret 0x200008, s')"
    using malloc_refines_first_fit [OF sample_heap_ok n] by (auto simp: sample_heap_def)
  from memory_used_drifts [OF sample_heap_ok n _ s'] s' show ?thesis by auto
qed

section \<open>Pages\<close>

text \<open>\<open>page_used s i\<close>: the descriptor of page \<open>i\<close> is set.\<close>

definition page_used :: "mm_state \<Rightarrow> nat \<Rightarrow> bool" where
  "page_used s i \<longleftrightarrow> ram s (pheap_desc s + of_nat i) \<noteq> 0"

lemma pmalloc_loop_find:
  "pmalloc_loop k s (of_nat i) = (case find (\<lambda>j. \<not> page_used s j) [i..<i + k] of
     None \<Rightarrow> (0, s)
   | Some j \<Rightarrow> (pheap_begin s + of_nat j * 4096, s\<lparr>ram := (ram s)(pheap_desc s + of_nat j := 1)\<rparr>))"
proof (induction k arbitrary: i)
  case (Suc k)
  have "[i..<i + Suc k] = i # [Suc i..<Suc i + k]" by (simp add: upt_conv_Cons)
  then show ?case using Suc.IH [of "Suc i"]
    by (auto simp: page_used_def ac_simps)
qed simp

lemma pmalloc_find:
  "pmalloc s n = (case find (\<lambda>j. \<not> page_used s j) [0..<32] of
     None \<Rightarrow> (0, s)
   | Some j \<Rightarrow> (pheap_begin s + of_nat j * 4096, s\<lparr>ram := (ram s)(pheap_desc s + of_nat j := 1)\<rparr>))"
  using pmalloc_loop_find [of 32 s 0] by (simp add: pmalloc_def MAX_PAGE_ALIGNED_ALLOCS_def)

definition pages_ok :: "mm_state \<Rightarrow> bool" where
  "pages_ok s \<longleftrightarrow> pheap_begin s \<noteq> 0 \<and> unat (pheap_begin s) + 131072 < 4294967296 \<and>
     pheap_end s = pheap_begin s + 131072"

lemma page_addr:
  assumes "pages_ok s" and "j \<le> 32"
  shows "unat (pheap_begin s + of_nat j * 4096) = unat (pheap_begin s) + j * 4096"
proof -
  have "unat (of_nat j * 4096 :: addr) = j * 4096"
    using assms(2) by (simp add: unat_word_ariths unat_of_nat_small)
  with assms show ?thesis by (simp add: pages_ok_def unat_word_ariths)
qed

lemma pfree_page:
  assumes "pages_ok s" and "j \<le> 32"
  shows "pfree s (pheap_begin s + of_nat j * 4096) =
    s\<lparr>ram := (ram s)(pheap_desc s + of_nat j := 0)\<rparr>"
proof -
  note pa = page_addr [OF assms]
  have pe: "unat (pheap_end s) = unat (pheap_begin s) + 131072"
    using assms(1) by (simp add: pages_ok_def unat_word_ariths)
  have "(of_nat j * 4096 :: addr) div 4096 = of_nat j"
    using assms(2) by (simp add: word_unat_eq_iff unat_div unat_word_ariths unat_of_nat_small)
  then show ?thesis
    using assms(2) by (simp add: pfree_def word_less_nat_alt pa pe)
qed

text \<open>
  \<open>pmalloc\<close> hands out the first page whose descriptor is clear, a page of the page heap
  aligned to 4096 bytes from its start, and marks it; it returns 0, changing nothing, exactly
  when all 32 pages are in use. \<open>pfree\<close> of the page gives back the state before.
\<close>

theorem pmalloc_pfree_roundtrip:
  assumes "pages_ok s"
  shows "case find (\<lambda>j. \<not> page_used s j) [0..<32] of
      None \<Rightarrow> pmalloc s n = (0, s) \<and> (\<forall>j < 32. page_used s j)
    | Some j \<Rightarrow> j < 32 \<and> \<not> page_used s j \<and> (\<exists>s'. pmalloc s n = (pheap_begin s + of_nat j * 4096, s') \<and>
        page_used s' j \<and> pfree s' (pheap_begin s + of_nat j * 4096) = s)"
proof (cases "find (\<lambda>j. \<not> page_used s j) [0..<32]")
  case None
  then have "\<forall>j < 32. page_used s j" by (auto simp: find_None_iff)
  with None show ?thesis by (simp add: pmalloc_find)
next
  case (Some j)
  then have j: "j < 32" "\<not> page_used s j" by (auto simp: find_Some_iff)
  let ?s = "s\<lparr>ram := (ram s)(pheap_desc s + of_nat j := 1)\<rparr>"
  have "pages_ok ?s" using assms by (simp add: pages_ok_def)
  from pfree_page [OF this, of j] j have "pfree ?s (pheap_begin s + of_nat j * 4096) = s"
    by (simp add: page_used_def fun_upd_idem)
  with Some j show ?thesis by (simp add: pmalloc_find page_used_def)
qed

lemma sample_pages_ok: "pages_ok sample_heap"
  by (simp add: pages_ok_def sample_heap_def)

theorem pmalloc_pfree_roundtrip_witness:
  "\<exists>s'. pmalloc sample_heap 512 = (0x3E0000, s') \<and> pfree s' 0x3E0000 = sample_heap"
proof -
  have "find (\<lambda>j. \<not> page_used sample_heap j) [0..<32] = Some 0"
    by (simp add: page_used_def sample_heap_def upt_rec)
  then show ?thesis
    using pmalloc_pfree_roundtrip [OF sample_pages_ok, of 512]
    by (auto simp: sample_heap_def)
qed

text \<open>
  \<open>pfree\<close> admits the address one past the last page (the test is \<open>mem > pheap_end\<close>) and
  then clears the byte behind the 32 descriptors. Every process has this address in \<open>cr3\<close>, since
  the page directory starts at \<open>pheap_end\<close>, so the end of each process does this store.
\<close>

theorem pfree_off_by_one:
  assumes "pages_ok s"
  shows "ram (pfree s (pheap_end s)) = (ram s)(pheap_desc s + 32 := 0)"
  using pfree_page [OF assms, of 32] assms by (simp add: pages_ok_def)

theorem pfree_off_by_one_witness:
  "ram (pfree sample_heap 0x400000) 0x300020 = 0"
  using pfree_off_by_one [OF sample_pages_ok] by (simp add: sample_heap_def)

section \<open>The start of the heap\<close>

lemma mm_init_result:
  assumes "unat ke + 4096 + 32 + 8 < 0x3E0000"
  shows "\<exists>s'. mm_init s ke = Some (Ret (), s') \<and> heap_begin s' = ke + 0x1000 \<and>
    heap_ok s' [(1, 32)] \<and> pages_ok s' \<and> (\<forall>j < 32. \<not> page_used s' j) \<and> pheap_desc s' = ke + 0x1008 \<and>
    heap_end s' = 0x3E0000 \<and> last_alloc s' = ke + 0x102C \<and>
    (\<forall>y. \<not> in_range (ke + 0x1000) 40 y \<longrightarrow>
      ram s' y = (if in_range (ke + 0x1000) (0x3E0000 - (ke + 0x1000)) y then 0 else ram s y))"
proof -
  define s1 where "s1 = s\<lparr>last_alloc := ke + 0x1000, heap_begin := ke + 0x1000, pheap_end := 0x400000,
      pheap_begin := 0x3E0000, heap_end := 0x3E0000,
      ram := memset (ram s) (ke + 0x1000) 0 (0x3E0000 - (ke + 0x1000))\<rparr>"
  have la: "unat (ke + 0x1000) = unat ke + 4096" using assms by (simp add: unat_word_ariths)
  have ok: "heap_ok s1 []" using assms la by (simp add: heap_ok_def heap_inv_def s1_def)
  have sz: "size_ok 32" by (simp add: size_ok_def)
  have "unat (last_alloc s1) + unat (32 :: uint32) + 8 < unat (heap_end s1)"
    using assms la by (simp add: s1_def)
  from malloc_new_ok [OF ok sz this] obtain s2 where s2: "malloc_new s1 32 = (Ret (ke + 0x1008), s2)"
    "heap_ok s2 [(1, 32)]" "zeroed (ram s2) (ke + 0x1008) 32" "heap_begin s2 = ke + 0x1000"
    "\<And>y. \<not> in_range (ke + 0x1000) 40 y \<Longrightarrow> ram s2 y = ram s1 y"
    by (auto simp: s1_def add.commute [of ke])
  then have pb: "pheap_begin s2 = 0x3E0000" "pheap_end s2 = 0x400000" "heap_end s2 = 0x3E0000" "last_alloc s2 = ke + 0x102C"
    by (auto simp: malloc_new_def s1_def Let_def split: if_splits)
  have "mm_init s ke = Some (Ret (), s2\<lparr>pheap_desc := ke + 0x1008\<rparr>)"
    using malloc_cases [OF ok sz] s2(1)
    by (simp add: mm_init_def MAX_PAGE_ALIGNED_ALLOCS_def s1_def)
  moreover have "heap_ok (s2\<lparr>pheap_desc := ke + 0x1008\<rparr>) [(1, 32)]"
    using s2(2) by (simp add: heap_ok_def heap_inv_def)
  moreover have "\<not> page_used (s2\<lparr>pheap_desc := ke + 0x1008\<rparr>) j" if "j < 32" for j
    using s2(3) that
    by (simp add: page_used_def zeroed_def in_range_def word_less_nat_alt unat_of_nat_small)
  moreover have "ram s2 y = (if in_range (ke + 0x1000) (0x3E0000 - (ke + 0x1000)) y then 0 else ram s y)"
    if "\<not> in_range (ke + 0x1000) 40 y" for y
    using s2(5) [OF that] by (simp add: s1_def memset_apply)
  ultimately show ?thesis using s2(4) pb by (auto simp: pages_ok_def)
qed

text \<open>
  Where the kernel ends early enough, \<open>mm_init\<close> leaves a well-formed heap that begins a
  page behind the end of the kernel and holds one block, the 32 page descriptors, and all 32
  pages are free.
\<close>

theorem mm_init_establishes:
  assumes "unat ke + 4096 + 32 + 8 < 0x3E0000"
  shows "\<exists>s'. mm_init s ke = Some (Ret (), s') \<and> heap_begin s' = ke + 0x1000 \<and>
    heap_ok s' [(1, 32)] \<and> pages_ok s' \<and> (\<forall>j < 32. \<not> page_used s' j)"
  using mm_init_result [OF assms, of s] by blast

theorem mm_init_establishes_witness:
  "\<exists>s'. mm_init sample_heap 0x100000 = Some (Ret (), s') \<and> heap_ok s' [(1, 32)] \<and> pages_ok s'"
  using mm_init_establishes [where ke = "0x100000" and s = sample_heap] by auto

section \<open>Owners write to their blocks\<close>

text \<open>
  Whoever has a block may write to its bytes, and to the 4 bytes behind it, which no header
  uses: the heap stays well formed and the same blocks are live. That also holds for a block
  that was released; \<open>blocks\<close> are those and the live ones.
\<close>

locale owned_memory = allocator inv live bytes alloc release
  for inv :: "'s \<Rightarrow> bool" and live :: "'s \<Rightarrow> (addr \<times> uint32) set" and bytes :: "'s \<Rightarrow> mem"
    and alloc :: "'s \<Rightarrow> uint32 \<Rightarrow> (addr \<times> 's) option" and release :: "'s \<Rightarrow> addr \<Rightarrow> 's" +
  fixes set_bytes :: "mem \<Rightarrow> 's \<Rightarrow> 's" and blocks :: "'s \<Rightarrow> (addr \<times> uint32) set"
  assumes bytes_set: "bytes (set_bytes m s) = m"
    and live_blocks: "live s \<subseteq> blocks s"
    and blocks_disjoint: "inv s \<Longrightarrow> (p, n) \<in> blocks s \<Longrightarrow> (q, k) \<in> blocks s \<Longrightarrow> (p, n) \<noteq> (q, k) \<Longrightarrow>
      in_range p (n + 4) y \<Longrightarrow> \<not> in_range q (k + 4) y"
    and release_blocks: "inv s \<Longrightarrow> (p, n) \<in> live s \<Longrightarrow> blocks (release s p) = blocks s"
    and release_keeps: "inv s \<Longrightarrow> (p, n) \<in> live s \<Longrightarrow> (q, k) \<in> blocks s \<Longrightarrow> in_range q (k + 4) y \<Longrightarrow>
      bytes (release s p) y = bytes s y"
    and write_inv: "inv s \<Longrightarrow> (p, n) \<in> blocks s \<Longrightarrow>
      (\<And>y. \<not> in_range p (n + 4) y \<Longrightarrow> m y = bytes s y) \<Longrightarrow> inv (set_bytes m s)"
    and write_live: "inv s \<Longrightarrow> (p, n) \<in> blocks s \<Longrightarrow>
      (\<And>y. \<not> in_range p (n + 4) y \<Longrightarrow> m y = bytes s y) \<Longrightarrow> live (set_bytes m s) = live s"
    and write_blocks: "inv s \<Longrightarrow> (p, n) \<in> blocks s \<Longrightarrow>
      (\<And>y. \<not> in_range p (n + 4) y \<Longrightarrow> m y = bytes s y) \<Longrightarrow> blocks (set_bytes m s) = blocks s"
    and room: "inv s \<Longrightarrow> (p, n) \<in> blocks s \<Longrightarrow> n \<noteq> 0 \<and> unat p + unat n + 4 < 4294967296"
begin

lemma grow_range: "inv s \<Longrightarrow> (p, n) \<in> blocks s \<Longrightarrow> in_range p n y \<Longrightarrow> in_range p (n + 4) y"
  using room [of s p n] unat_add_small [of n 4] by (simp add: in_range_def word_less_nat_alt)

text \<open>A write by the holder of one block is not seen by the holder of another.\<close>

lemma write_other:
  assumes "inv s" and "(p, n) \<in> blocks s" and "(q, k) \<in> blocks s" and "p \<noteq> q"
    and "\<And>y. \<not> in_range p (n + 4) y \<Longrightarrow> m y = bytes s y" and "in_range q (k + 4) y"
  shows "m y = bytes s y"
  using blocks_disjoint [OF assms(1,3,2), of y] assms(4-6) by auto

text \<open>The block behind a pointer is unique.\<close>

lemma block_unique:
  assumes "inv s" and "(p, n) \<in> blocks s" and "(p, k) \<in> blocks s"
  shows "n = k"
proof (rule ccontr)
  assume "n \<noteq> k"
  have "in_range p (n + 4) p" "in_range p (k + 4) p"
    using grow_range [OF assms(1,2), of p] grow_range [OF assms(1,3), of p]
      room [OF assms(1,2)] room [OF assms(1,3)] by (simp_all add: in_range_def word_gt_0)
  with \<open>n \<noteq> k\<close> blocks_disjoint [OF assms, of p] show False by simp
qed

end

definition heap_blocks :: "mm_state \<Rightarrow> (addr \<times> uint32) set" where
  "heap_blocks s = {(x + 8, sz) | x st sz bs. heap_ok s bs \<and> (x, st, sz) \<in> set (placed (heap_begin s) bs)}"

lemma heap_blocks_eq:
  assumes ok: "heap_ok s bs"
  shows "heap_blocks s = {(x + 8, sz) | x st sz. (x, st, sz) \<in> set (placed (heap_begin s) bs)}"
proof -
  have "heap_ok s bs' \<longleftrightarrow> bs' = bs" for bs'
    using ok heap_chain_unique by (auto simp: heap_ok_def heap_inv_def)
  then show ?thesis by (simp add: heap_blocks_def)
qed

lemma heap_block_cases:
  assumes "heap_ok s bs" and "(p, n) \<in> heap_blocks s"
  obtains x st where "(x, st, n) \<in> set (placed (heap_begin s) bs)" and "p = x + 8"
    and "heap_chain (ram s) (heap_begin s) bs (last_alloc s)"
  using assms by (auto simp: heap_blocks_eq heap_ok_def heap_inv_def)

lemma block_range:
  assumes "heap_chain m a bs e" and "(x, st, sz) \<in> set (placed a bs)"
  shows "in_range (x + 8) (sz + 4) y \<longleftrightarrow> unat x + 8 \<le> unat y \<and> unat y < unat x + unat sz + 12"
    and "unat (x + 8) = unat x + 8" and "unat x + unat sz + 12 < 4294967296"
proof -
  show room: "unat x + unat sz + 12 < 4294967296"
    using heap_chain_placed [OF assms] unat32_lt [of e] by simp
  then show px: "unat (x + 8) = unat x + 8" using unat_add_small [of x 8] by simp
  have "unat (sz + 4) = unat sz + 4" using room unat_add_small [of sz 4] by simp
  with room show "in_range (x + 8) (sz + 4) y \<longleftrightarrow> unat x + 8 \<le> unat y \<and> unat y < unat x + unat sz + 12"
    by (subst in_range_unat) (auto simp: px)
qed

lemma set_status_same:
  "heap_chain m a bs e \<Longrightarrow> (x, st, sz) \<in> set (placed a bs) \<Longrightarrow> set_status a bs x st = bs"
proof (induction m a bs e rule: heap_chain.induct)
  case (2 m a st0 sz0 bs e)
  let ?n = "a + (sz0 + 12)"
  have "z \<noteq> a" if "(z, t, k) \<in> set (placed ?n bs)" for z t k
    using heap_chain_placed [of m ?n bs e z t k] that "2.prems"(1) by (auto simp: next_block_unat)
  with 2 show ?case by auto
qed simp

lemma owned_write:
  assumes ok: "heap_ok s bs" and blk: "(p, n) \<in> heap_blocks s"
    and same: "\<And>y. \<not> in_range p (n + 4) y \<Longrightarrow> m y = ram s y"
  shows "heap_ok (s\<lparr>ram := m\<rparr>) bs"
  using ok blk
proof (cases rule: heap_block_cases)
  case (1 x st)
  note rng = block_range [OF 1(3,1)]
  have "heap_chain m (heap_begin s) (set_status (heap_begin s) bs x st) (last_alloc s)"
    using heap_chain_placed [OF 1(3,1)] rng same
    by (intro heap_chain_set_status [OF 1(3,1)]) (auto simp: 1(2) a_status_def)
  with ok show ?thesis by (simp add: set_status_same [OF 1(3,1)] heap_ok_def heap_inv_def)
qed

lemma heap_blocks_disjoint:
  assumes ok: "heap_ok s bs" and "(p, n) \<in> heap_blocks s" and "(q, k) \<in> heap_blocks s"
    and ne: "(p, n) \<noteq> (q, k)" and y: "in_range p (n + 4) y"
  shows "\<not> in_range q (k + 4) y"
  using ok assms(2)
proof (cases rule: heap_block_cases)
  case x: (1 x st)
  show ?thesis
    using ok assms(3)
  proof (cases rule: heap_block_cases)
    case z: (1 z st')
    from ne x(2) z(2) have "(x, st, n) \<noteq> (z, st', k)" by auto
    with placed_apart [OF x(3,1) z(1)] y show ?thesis
      by (auto simp: x(2) z(2) block_range [OF x(3,1)] block_range [OF z(3,1)])
  qed
qed

lemma free_blocks:
  assumes ok: "heap_ok s bs" and live: "(p, n) \<in> heap_live s"
  shows "heap_blocks (free s p) = heap_blocks s \<and>
    (\<forall>q k y. (q, k) \<in> heap_blocks s \<longrightarrow> in_range q (k + 4) y \<longrightarrow> ram (free s p) y = ram s y)"
proof -
  have chain: "heap_chain (ram s) (heap_begin s) bs (last_alloc s)"
    using ok by (simp add: heap_ok_def heap_inv_def)
  obtain x st where blk: "(x, st, n) \<in> set (placed (heap_begin s) bs)" and p: "p = x + 8"
    using live by (auto simp: heap_live_eq [OF ok] live_of_def)
  note fc = free_chain [OF ok blk]
  have "(\<exists>t. (y, t, k) \<in> set (placed (heap_begin s) (set_status (heap_begin s) bs x 0))) \<longleftrightarrow>
      (\<exists>t. (y, t, k) \<in> set (placed (heap_begin s) bs))" for y k
    unfolding placed_set_status [OF chain] set_map image_status by (cases "y = x") auto
  then have "heap_blocks (free s p) = heap_blocks s"
    using fc unfolding p heap_blocks_eq [OF ok] heap_blocks_eq [OF conjunct1 [OF fc]] by auto blast+
  moreover have "ram (free s p) y = ram s y" if "(q, k) \<in> heap_blocks s" "in_range q (k + 4) y" for q k y
    using ok that(1)
  proof (cases rule: heap_block_cases)
    case (1 z st')
    with that(2) have "y \<noteq> x"
      using placed_apart [OF chain blk 1(1)] by (auto simp: block_range [OF 1(3,1)])
    with fc show ?thesis by (simp add: p)
  qed
  ultimately show ?thesis by blast
qed

interpretation kram: owned_memory heap_good heap_live ram malloc_alloc free "\<lambda>m s. s\<lparr>ram := m\<rparr>" heap_blocks
proof unfold_locales
  fix s :: mm_state and p n
  show "heap_live s \<subseteq> heap_blocks s"
    by (auto simp: heap_live_def heap_blocks_def live_of_def)
  assume "heap_good s"
  then obtain bs where ok: "heap_ok s bs" by (auto simp: heap_good_def)
  { assume live: "(p, n) \<in> heap_live s"
    note fb = free_blocks [OF ok this]
    show "heap_blocks (free s p) = heap_blocks s" using fb by blast
    show "ram (free s p) y = ram s y" if "(q, k) \<in> heap_blocks s" "in_range q (k + 4) y" for q k y
      using fb that by blast }
  assume blk: "(p, n) \<in> heap_blocks s"
  show "n \<noteq> 0 \<and> unat p + unat n + 4 < 4294967296"
    using ok blk by (cases rule: heap_block_cases) (auto simp: block_range dest: heap_chain_placed block_range(3))
  show "\<not> in_range q (k + 4) y" if "(q, k) \<in> heap_blocks s" "(p, n) \<noteq> (q, k)" "in_range p (n + 4) y" for q k y
    using heap_blocks_disjoint [OF ok blk] that by blast
  fix m assume same: "\<And>y. \<not> in_range p (n + 4) y \<Longrightarrow> m y = ram s y"
  from owned_write [OF ok blk same] have ok': "heap_ok (s\<lparr>ram := m\<rparr>) bs" by blast
  then show "heap_good (s\<lparr>ram := m\<rparr>)" by (auto simp: heap_good_def)
  show "heap_live (s\<lparr>ram := m\<rparr>) = heap_live s"
    by (simp add: heap_live_eq [OF ok] heap_live_eq [OF ok'])
  show "heap_blocks (s\<lparr>ram := m\<rparr>) = heap_blocks s"
    by (simp add: heap_blocks_eq [OF ok] heap_blocks_eq [OF ok'])
qed simp_all

text \<open>
  \<open>pfree\<close>, also of the address one past the last page, keeps the heap: the byte it then clears
  is the first of the 4 unused bytes behind the descriptors.
\<close>

lemma pfree_heap:
  assumes good: "heap_good s" and desc: "(pheap_desc s, k) \<in> heap_blocks s" and k: "32 \<le> k"
    and pages: "pages_ok s"
  shows "heap_good (pfree s p) \<and> heap_live (pfree s p) = heap_live s \<and>
    heap_blocks (pfree s p) = heap_blocks s \<and> (\<forall>y. \<not> in_range (pheap_desc s) (k + 4) y \<longrightarrow> ram (pfree s p) y = ram s y) \<and>
    pheap_desc (pfree s p) = pheap_desc s \<and> pages_ok (pfree s p)"
proof (cases "p < pheap_begin s \<or> pheap_end s < p")
  case True
  with assms show ?thesis by (simp add: pfree_def)
next
  case False
  let ?i = "(p - pheap_begin s) div 4096"
  have pe: "unat (pheap_end s) = unat (pheap_begin s) + 131072"
    using pages by (simp add: pages_ok_def unat_word_ariths)
  have "unat (p - pheap_begin s) \<le> 131072"
    using False pe by (simp add: unat_sub_word word_less_nat_alt not_less) linarith
  then have "unat ?i \<le> 32" by (simp add: unat_div)
  moreover have "unat (k + 4) = unat k + 4"
    using kram.room [OF good desc] unat_add_small [of k 4] by simp
  ultimately have "?i < k + 4" using k by (simp add: word_less_nat_alt word_le_nat_alt)
  then have rng: "in_range (pheap_desc s) (k + 4) (pheap_desc s + ?i)" by (simp add: in_range_def)
  define m where "m = (ram s)(pheap_desc s + ?i := 0)"
  have same: "\<not> in_range (pheap_desc s) (k + 4) y \<Longrightarrow> m y = ram s y" for y
    using rng by (auto simp: m_def)
  have "pfree s p = s\<lparr>ram := m\<rparr>" using False by (simp add: pfree_def Let_def m_def)
  with kram.write_inv [OF good desc same] kram.write_live [OF good desc same]
    kram.write_blocks [OF good desc same] same pages
  show ?thesis by (simp add: pages_ok_def)
qed

end
