(* ===== verification/Ownership.thy ===== *)
theory Ownership
  imports Heap_Alloc "HOL-Library.Multiset"
begin

text \<open>
  Bookkeeping for the clients of the heap: \<open>holds h A\<close> says that the heap is well formed and that
  the pointers in \<open>A\<close> are different live blocks of at least the sizes given there.
\<close>

definition holds :: "mm_state \<Rightarrow> (addr \<times> uint32) list \<Rightarrow> bool" where
  "holds h A \<longleftrightarrow> heap_good h \<and> distinct (map fst A) \<and> (\<forall>a n. (a, n) \<in> set A \<longrightarrow> (\<exists>k. n \<le> k \<and> (a, k) \<in> heap_live h))"

text \<open>\<open>owned_block h a n\<close>: a block, live or released, of at least \<open>n\<close> bytes.\<close>

definition owned_block :: "mm_state \<Rightarrow> addr \<Rightarrow> uint32 \<Rightarrow> bool" where
  "owned_block h a n \<longleftrightarrow> (\<exists>k. n \<le> k \<and> (a, k) \<in> heap_blocks h)"

lemma holds_live: "holds h A \<Longrightarrow> (a, n) \<in> set A \<Longrightarrow> \<exists>k. n \<le> k \<and> (a, k) \<in> heap_live h"
  by (simp add: holds_def)

lemma holds_block: "holds h A \<Longrightarrow> (a, n) \<in> set A \<Longrightarrow> owned_block h a n"
  using kram.live_blocks unfolding holds_def owned_block_def by blast

lemma holds_head_fresh: "holds h ((p, n) # A) \<Longrightarrow> (a, k) \<in> set A \<Longrightarrow> a \<noteq> p"
  unfolding holds_def by (metis distinct.simps(2) fst_conv image_eqI list.simps(9) set_map)

lemma holds_perm: "holds h A \<Longrightarrow> mset A = mset B \<Longrightarrow> holds h B"
  using mset_eq_imp_distinct_iff [of "map fst A" "map fst B"] mset_eq_setD [of A B]
  by (simp add: holds_def)

lemma holds_sub: "holds h (A @ B) \<Longrightarrow> holds h A"
  by (auto simp: holds_def)

lemma malloc_fields:
  assumes "malloc h n = Some (r, h')"
  shows "pheap_desc h' = pheap_desc h \<and> pages_ok h' = pages_ok h \<and> (r = Panic \<longrightarrow> h' = h)"
  using assms
  by (auto simp: malloc_def malloc_reuse_def malloc_new_def Let_def pages_ok_def
      split: if_splits option.splits)

lemma free_fields: "pheap_desc (free h a) = pheap_desc h \<and> pages_ok (free h a) = pages_ok h"
  by (simp add: free_def Let_def pages_ok_def)

lemma holds_alloc:
  assumes "holds h A" and "size_ok n" and "malloc h n = Some (Ret p, h')"
  shows "holds h' ((p, n) # A) \<and> zeroed (ram h') p n \<and>
    (\<forall>a k y. (a, k) \<in> set A \<longrightarrow> in_range a k y \<longrightarrow> ram h' y = ram h y)"
proof -
  have good: "heap_good h" using assms(1) by (simp add: holds_def)
  have al: "malloc_alloc h n = Some (p, h')" using assms(2,3) by (simp add: malloc_alloc_def)
  obtain sz where sz: "n \<le> sz" "heap_live h' = insert (p, sz) (heap_live h)"
    using kheap.alloc_live [OF good al] by blast
  have "p \<noteq> a" if "(a, k) \<in> set A" for a k
    using that assms(1) kheap.alloc_new [OF good al] unfolding holds_def by blast
  then have "p \<notin> fst ` set A" by force
  moreover have "\<exists>k. m \<le> k \<and> (a, k) \<in> heap_live h'" if "(a, m) \<in> set ((p, n) # A)" for a m
    using that sz holds_live [OF assms(1), of a m] by auto
  ultimately have "holds h' ((p, n) # A)"
    using kheap.alloc_inv [OF good al] assms(1) by (simp add: holds_def)
  moreover have "ram h' y = ram h y" if "(a, k) \<in> set A" "in_range a k y" for a k y
  proof -
    obtain j where j: "k \<le> j" "(a, j) \<in> heap_live h" using holds_live [OF assms(1) \<open>(a, k) \<in> set A\<close>] by blast
    moreover have "in_range a j y" using j(1) \<open>in_range a k y\<close> by (auto simp: in_range_def)
    ultimately show ?thesis using kheap.alloc_keeps [OF good al] by blast
  qed
  ultimately show ?thesis using kheap.alloc_zero [OF good al] by blast
qed

lemma holds_free:
  assumes "holds h ((p, n) # A)"
  shows "holds (free h p) A \<and> owned_block (free h p) p n \<and>
    heap_live (free h p) = {b \<in> heap_live h. fst b \<noteq> p} \<and>
    (\<forall>a k. owned_block h a k \<longrightarrow> owned_block (free h p) a k) \<and>
    (\<forall>a k y. owned_block h a k \<longrightarrow> in_range a k y \<longrightarrow> ram (free h p) y = ram h y)"
proof -
  have good: "heap_good h" using assms by (simp add: holds_def)
  obtain k where k: "n \<le> k" "(p, k) \<in> heap_live h" using holds_live [OF assms, of p n] by auto
  note rel = kheap.release_inv [OF good k(2)] kheap.release_live [OF good k(2)]
    kram.release_blocks [OF good k(2)]
  have "(p, j) \<in> heap_live h \<longleftrightarrow> j = k" for j
    using kram.block_unique [OF good, of p j k] kram.live_blocks k(2) by blast
  then have live: "heap_live (free h p) = {b \<in> heap_live h. fst b \<noteq> p}" using rel(2) by auto
  have pA: "p \<notin> fst ` set A" "distinct (map fst A)" using assms by (simp_all add: holds_def)
  have "\<exists>i. j \<le> i \<and> (a, i) \<in> heap_live (free h p)" if "(a, j) \<in> set A" for a j
  proof -
    have "a \<noteq> p" using pA(1) that by force
    with holds_live [OF assms, of a j] that show ?thesis by (auto simp: live)
  qed
  then have "holds (free h p) A" using pA(2) rel(1) by (simp add: holds_def)
  moreover have "owned_block (free h p) p n"
    using k kram.live_blocks rel(3) unfolding owned_block_def by blast
  moreover have "ram (free h p) y = ram h y" if "(a, j) \<in> heap_blocks h" "in_range a j y" for a j y
    using kram.release_keeps [OF good k(2) that(1)] kram.grow_range [OF good that] by simp
  then have "ram (free h p) y = ram h y" if "owned_block h a j" "in_range a j y" for a j y
    using that unfolding owned_block_def in_range_def by (meson less_le_trans)
  ultimately show ?thesis using rel(3) live by (simp add: owned_block_def)
qed

lemma holds_write:
  assumes "holds h A" and "owned_block h a n" and same: "\<And>y. \<not> in_range a n y \<Longrightarrow> m y = ram h y"
  shows "holds (h\<lparr>ram := m\<rparr>) A \<and> heap_live (h\<lparr>ram := m\<rparr>) = heap_live h \<and> (\<forall>b k. owned_block (h\<lparr>ram := m\<rparr>) b k = owned_block h b k) \<and>
    (\<forall>b k y. owned_block h b k \<longrightarrow> b \<noteq> a \<longrightarrow> in_range b k y \<longrightarrow> m y = ram h y)"
proof -
  have good: "heap_good h" using assms(1) by (simp add: holds_def)
  obtain k where k: "n \<le> k" "(a, k) \<in> heap_blocks h" using assms(2) by (auto simp: owned_block_def)
  have out: "\<not> in_range a (k + 4) y \<Longrightarrow> m y = ram h y" for y
    using same [of y] k(1) kram.grow_range [OF good k(2), of y] unfolding in_range_def
    by (meson less_le_trans)
  note w = kram.write_inv [OF good k(2) out] kram.write_live [OF good k(2) out] kram.write_blocks [OF good k(2) out]
  have "m y = ram h y" if "(b, j) \<in> heap_blocks h" "b \<noteq> a" "in_range b j y" for b j y
    using kram.write_other [OF good k(2) that(1) that(2) [symmetric] out]
      kram.grow_range [OF good that(1,3)] by blast
  then have "m y = ram h y" if "owned_block h b j" "b \<noteq> a" "in_range b j y" for b j y
    using that unfolding owned_block_def in_range_def by (meson less_le_trans)
  with assms(1) w show ?thesis by (auto simp: holds_def owned_block_def)
qed

lemma holds_pfree:
  assumes "holds h A" and "pages_ok h" and "(pheap_desc h, 32) \<in> set A"
  shows "holds (pfree h p) A \<and> heap_live (pfree h p) = heap_live h \<and> pheap_desc (pfree h p) = pheap_desc h \<and> pages_ok (pfree h p) \<and>
    (\<forall>a k. owned_block (pfree h p) a k = owned_block h a k) \<and>
    (\<forall>a k y. owned_block h a k \<longrightarrow> a \<noteq> pheap_desc h \<longrightarrow> in_range a k y \<longrightarrow> ram (pfree h p) y = ram h y)"
proof -
  have good: "heap_good h" using assms(1) by (simp add: holds_def)
  obtain k where k: "32 \<le> k" "(pheap_desc h, k) \<in> heap_blocks h"
    using holds_block [OF assms(1,3)] by (auto simp: owned_block_def)
  note pf = pfree_heap [OF good k(2,1) assms(2), of p]
  have "ram (pfree h p) y = ram h y" if "(b, j) \<in> heap_blocks h" "b \<noteq> pheap_desc h" "in_range b j y" for b j y
    using kram.write_other [OF good k(2) that(1) that(2) [symmetric], of "ram (pfree h p)"] pf
      kram.grow_range [OF good that(1,3)] by blast
  then have "ram (pfree h p) y = ram h y" if "owned_block h b j" "b \<noteq> pheap_desc h" "in_range b j y" for b j y
    using that unfolding owned_block_def in_range_def by (meson less_le_trans)
  with assms(1) pf show ?thesis by (auto simp: holds_def owned_block_def)
qed

section \<open>Room in the heap\<close>

text \<open>\<open>heap_room h k\<close>: the heap is well formed and \<open>k\<close> more bytes fit behind its last block.\<close>

definition heap_room :: "mm_state \<Rightarrow> nat \<Rightarrow> bool" where
  "heap_room h k \<longleftrightarrow> heap_good h \<and> unat (last_alloc h) + k < unat (heap_end h)"

lemma malloc_heap_room:
  assumes "heap_room h (unat n + 12 + k)" "size_ok n"
  shows "\<exists>p h'. malloc h n = Some (Ret p, h') \<and> heap_room h' k"
proof -
  obtain bs where ok: "heap_ok h bs" and fits: "unat (last_alloc h) + (unat n + 12 + k) < unat (heap_end h)"
    using assms(1) by (auto simp: heap_room_def heap_good_def)
  show ?thesis
  proof (cases "first_fit (heap_begin h) bs n")
    case None
    then have m: "malloc h n = Some (malloc_new h n)" using malloc_cases [OF ok assms(2)] by simp
    obtain h' where h': "malloc_new h n = (Ret (last_alloc h + 8), h')" "heap_ok h' (bs @ [(1, n)])"
      using malloc_new_ok [OF ok assms(2)] fits by auto
    then have e: "last_alloc h' = last_alloc h + (n + 12)" "heap_end h' = heap_end h"
      by (auto simp: malloc_new_def Let_def ac_simps split: if_splits)
    have "unat (last_alloc h + (n + 12)) = unat (last_alloc h) + unat n + 12"
      using heap_ok_room [OF ok assms(2)] by (simp add: next_block_unat)
    with h' m e fits show ?thesis by (auto simp: heap_room_def heap_good_def)
  next
    case (Some x)
    then have m: "malloc h n = Some (malloc_reuse h n x)" using malloc_cases [OF ok assms(2)] by simp
    obtain h' where h': "malloc_reuse h n x = (Ret (x + 8), h')" "heap_ok h' (set_status (heap_begin h) bs x 1)"
      using malloc_reuse_ok [OF ok Some] by auto
    then have "last_alloc h' = last_alloc h" "heap_end h' = heap_end h"
      by (auto simp: malloc_reuse_def Let_def)
    with h' m fits show ?thesis by (auto simp: heap_room_def heap_good_def)
  qed
qed

lemma malloc_begin: "malloc h n = Some (r, h') \<Longrightarrow> heap_begin h' = heap_begin h"
  by (auto simp: malloc_def malloc_reuse_def malloc_new_def Let_def split: if_splits option.splits)

lemma holds_above_begin:
  assumes "holds h A" "(a, n) \<in> set A"
  shows "unat (heap_begin h) + 8 \<le> unat a"
proof -
  obtain k where k: "(a, k) \<in> heap_live h" and "heap_good h" using assms by (auto simp: holds_def)
  then obtain bs where ok: "heap_ok h bs" by (auto simp: heap_good_def)
  then have chain: "heap_chain (ram h) (heap_begin h) bs (last_alloc h)" by (simp add: heap_ok_def heap_inv_def)
  obtain x st where "(x, st, k) \<in> set (placed (heap_begin h) bs)" "a = x + 8"
    using k by (auto simp: heap_live_eq [OF ok] live_of_def)
  moreover from heap_chain_placed [OF chain this(1)] unat32_lt [of "last_alloc h"]
  have "unat (heap_begin h) \<le> unat x" "unat (x + 8) = unat x + 8" by (auto simp: unat_add_small)
  ultimately show ?thesis by simp
qed

lemma holds_start: "heap_good h \<Longrightarrow> holds h []"
  by (simp add: holds_def)

lemma holds_apart:
  assumes "holds h A" "(a, n) \<in> set A" "(b, k) \<in> set A" "a \<noteq> b" "in_range a n y"
  shows "\<not> in_range b k y"
proof -
  have good: "heap_good h" using assms(1) by (simp add: holds_def)
  obtain i j where i: "n \<le> i" "(a, i) \<in> heap_live h" and j: "k \<le> j" "(b, j) \<in> heap_live h"
    using holds_live [OF assms(1)] assms(2,3) by blast
  have "in_range a i y" using assms(5) i(1) by (simp add: in_range_def)
  then have "\<not> in_range b j y" using kheap.live_disjoint [OF good i(2) j(2)] assms(4) by blast
  then show ?thesis using j(1) by (auto simp: in_range_def)
qed

lemma holds_in_memory:
  assumes "holds h A" "(a, n) \<in> set A"
  shows "unat a + unat n + 4 < 4294967296"
proof -
  have good: "heap_good h" using assms(1) by (simp add: holds_def)
  obtain k where k: "n \<le> k" "(a, k) \<in> heap_blocks h" using holds_block [OF assms] by (auto simp: owned_block_def)
  then show ?thesis using kram.room [OF good k(2)] by (simp add: word_le_nat_alt)
qed

lemma malloc_below:
  assumes "heap_good h" "size_ok n" "malloc h n = Some (Ret p, h')" "unat y < unat (heap_begin h)"
  shows "ram h' y = ram h y"
proof -
  obtain bs where ok: "heap_ok h bs" using assms(1) by (auto simp: heap_good_def)
  have chain: "heap_chain (ram h) (heap_begin h) bs (last_alloc h)" using ok by (simp add: heap_ok_def heap_inv_def)
  have al: "malloc_alloc h n = Some (p, h')" using assms(2,3) by (simp add: malloc_alloc_def)
  from ok al show ?thesis
  proof (cases rule: malloc_alloc_cases)
    case (reuse x sz)
    have x: "unat (heap_begin h) \<le> unat x" "unat x + unat sz + 12 < 4294967296"
      using heap_chain_placed [OF chain reuse(2)] unat32_lt [of "last_alloc h"] by auto
    then have "\<not> in_range (x + 8) n y" using payload_range [OF x(2) reuse(3)] assms(4) by fastforce
    moreover have "y \<noteq> x" using x(1) assms(4) by auto
    ultimately show ?thesis by (rule reuse(6) [rotated])
  next
    case new
    then show ?thesis using heap_chain_le [OF chain] assms(4) by simp
  qed
qed

lemma holds_write2:
  assumes A: "holds h A" "(a, n) \<in> set A" "(b, k) \<in> set A"
    and same: "\<And>y. \<not> in_range a n y \<Longrightarrow> \<not> in_range b k y \<Longrightarrow> m y = ram h y"
  shows "holds (h\<lparr>ram := m\<rparr>) A"
proof -
  let ?m1 = "\<lambda>y. if in_range a n y then m y else ram h y"
  have "owned_block h a n" using holds_block [OF A(1,2)] .
  from holds_write [OF A(1) this, of ?m1] have h1: "holds (h\<lparr>ram := ?m1\<rparr>) A" by simp
  have "m y = ram (h\<lparr>ram := ?m1\<rparr>) y" if "\<not> in_range b k y" for y using same [OF _ that] by simp
  from holds_write [OF h1 holds_block [OF h1 A(3)] this] show ?thesis by simp
qed

section \<open>Memory outside the heap\<close>

definition outside_heap :: "mm_state \<Rightarrow> addr \<Rightarrow> bool" where
  "outside_heap h y \<longleftrightarrow> unat y < unat (heap_begin h) \<or> unat (heap_end h) \<le> unat y"

lemma holds_write_outside:
  assumes "holds h A" "heap_room h k" and same: "\<And>y. \<not> outside_heap h y \<Longrightarrow> m y = ram h y"
  shows "holds (h\<lparr>ram := m\<rparr>) A" "heap_room (h\<lparr>ram := m\<rparr>) k"
proof -
  obtain bs where ok: "heap_ok h bs" and room: "unat (last_alloc h) + k < unat (heap_end h)"
    using assms(2) by (auto simp: heap_room_def heap_good_def)
  have chain: "heap_chain (ram h) (heap_begin h) bs (last_alloc h)" using ok by (simp add: heap_ok_def heap_inv_def)
  have "heap_chain m (heap_begin h) bs (last_alloc h)"
    by (rule heap_chain_frame [OF chain]) (use room in \<open>auto simp: outside_heap_def intro: same\<close>)
  with ok have ok': "heap_ok (h\<lparr>ram := m\<rparr>) bs" by (simp add: heap_ok_def heap_inv_def)
  then have "heap_live (h\<lparr>ram := m\<rparr>) = heap_live h" by (simp add: heap_live_eq [OF ok] heap_live_eq [OF ok'])
  with assms(1) ok' show "holds (h\<lparr>ram := m\<rparr>) A" by (auto simp: holds_def heap_good_def)
  show "heap_room (h\<lparr>ram := m\<rparr>) k" using ok' room by (auto simp: heap_room_def heap_good_def)
qed

lemma holds_write_above:
  assumes "holds h A" "heap_room h k" and same: "\<And>y. unat y < unat (heap_end h) \<Longrightarrow> m y = ram h y"
  shows "holds (h\<lparr>ram := m\<rparr>) A" "heap_room (h\<lparr>ram := m\<rparr>) k"
  using holds_write_outside [OF assms(1,2), of m] same by (simp_all add: outside_heap_def)

lemma malloc_above:
  assumes "heap_room h (unat n + 12)" "size_ok n" "malloc h n = Some (Ret p, h')" "unat (heap_end h) \<le> unat y"
  shows "ram h' y = ram h y"
proof -
  obtain bs where ok: "heap_ok h bs" and room: "unat (last_alloc h) + (unat n + 12) < unat (heap_end h)"
    using assms(1) by (auto simp: heap_room_def heap_good_def)
  have chain: "heap_chain (ram h) (heap_begin h) bs (last_alloc h)" using ok by (simp add: heap_ok_def heap_inv_def)
  note mem = unat32_lt [of "heap_end h"]
  show ?thesis
  proof (cases "first_fit (heap_begin h) bs n")
    case None
    then have m: "malloc_new h n = (Ret p, h')" using malloc_cases [OF ok assms(2)] assms(3) by simp
    have inv: "heap_inv h bs" and n0: "n \<noteq> 0" using ok assms(2) by (auto simp: heap_ok_def size_ok_def)
    have l: "unat (last_alloc h + n + 8) = unat (last_alloc h) + unat n + 8"
      using room mem by (simp add: unat_add_small)
    then have "last_alloc h + n + 8 < heap_end h" using room by (simp add: word_less_nat_alt)
    with malloc_new_chain [OF inv n0 _ m] room mem
    have f: "\<not> in_range (last_alloc h) (n + 8) y \<Longrightarrow> ram h' y = ram h y" by auto
    have "unat (n + 8) = unat n + 8" using room mem by (simp add: unat_add_small)
    then have "\<not> in_range (last_alloc h) (n + 8) y"
      using room mem assms(4) in_range_unat [of "last_alloc h" "n + 8" y] by simp
    then show ?thesis by (rule f)
  next
    case (Some x)
    obtain sz where sz: "(x, 0, sz) \<in> set (placed (heap_begin h) bs)" "n \<le> sz"
      using first_fit_placed [OF Some] by auto
    have m: "malloc_reuse h n x = (Ret p, h')" using malloc_cases [OF ok assms(2)] assms(3) Some by simp
    have x: "unat x + unat sz + 12 \<le> unat (last_alloc h)" using heap_chain_placed [OF chain sz(1)] by simp
    have f: "y \<noteq> x \<Longrightarrow> \<not> in_range (x + 8) n y \<Longrightarrow> ram h' y = ram h y"
      using malloc_reuse_chain [OF _ sz m] ok by (auto simp: heap_ok_def)
    have "unat (x + 8) = unat x + 8" using x room mem by (simp add: unat_add_small)
    then have "\<not> in_range (x + 8) n y"
      using x sz(2) room mem assms(4) in_range_unat [of "x + 8" n y] by (simp add: word_le_nat_alt)
    moreover have "y \<noteq> x" using x room assms(4) by auto
    ultimately show ?thesis by (intro f)
  qed
qed

lemma malloc_end: "malloc h n = Some (r, h') \<Longrightarrow> heap_end h' = heap_end h"
  by (auto simp: malloc_def malloc_reuse_def malloc_new_def Let_def split: if_splits option.splits)

lemma holds_below_end:
  assumes "holds h A" "(a, n) \<in> set A" "heap_room h 0"
  shows "unat a + unat n \<le> unat (heap_end h)"
proof -
  obtain k where k: "n \<le> k" "(a, k) \<in> heap_live h" using holds_live [OF assms(1,2)] by blast
  obtain bs where ok: "heap_ok h bs" and room: "unat (last_alloc h) < unat (heap_end h)"
    using assms(3) by (auto simp: heap_room_def heap_good_def)
  have chain: "heap_chain (ram h) (heap_begin h) bs (last_alloc h)" using ok by (simp add: heap_ok_def heap_inv_def)
  obtain x st where "(x, st, k) \<in> set (placed (heap_begin h) bs)" "a = x + 8"
    using k(2) by (auto simp: heap_live_eq [OF ok] live_of_def)
  moreover from heap_chain_placed [OF chain this(1)] unat32_lt [of "last_alloc h"]
  have "unat x + unat k + 12 \<le> unat (last_alloc h)" "unat (x + 8) = unat x + 8" by (auto simp: unat_add_small)
  ultimately show ?thesis using k(1) room by (simp add: word_le_nat_alt)
qed

lemma malloc_outside:
  assumes "heap_room h (unat n + 12)" "size_ok n" "malloc h n = Some (Ret p, h')" "outside_heap h y"
  shows "ram h' y = ram h y"
  using assms malloc_below [OF _ assms(2,3)] malloc_above [OF assms(1-3)]
  by (auto simp: outside_heap_def heap_room_def)

lemma malloc_outside_eq: "malloc h n = Some (r, h') \<Longrightarrow> outside_heap h' = outside_heap h"
  by (simp add: outside_heap_def malloc_begin malloc_end fun_eq_iff)

lemma outside_heap_ram [simp]: "outside_heap (h\<lparr>ram := m\<rparr>) = outside_heap h"
  by (simp add: outside_heap_def fun_eq_iff)

lemma holds_not_outside:
  assumes "holds h A" "(a, n) \<in> set A" "heap_room h 0" "outside_heap h y"
  shows "\<not> in_range a n y"
  using holds_above_begin [OF assms(1,2)] holds_below_end [OF assms(1-3)] assms(4)
    unat32_lt [of "heap_end h"] in_range_unat [of a n y]
  by (auto simp: outside_heap_def)

text \<open>Writing two blocks and memory outside the heap; releasing a block.\<close>

lemma holds_room_ram: "holds (h\<lparr>ram := m\<rparr>) A \<Longrightarrow> heap_room h k \<Longrightarrow> heap_room (h\<lparr>ram := m\<rparr>) k"
  by (simp add: heap_room_def holds_def)

lemma holds_write_cells:
  assumes A: "holds h A" "heap_room h k" "(a, n) \<in> set A" "(b, l) \<in> set A"
    and same: "\<And>y. \<not> in_range a n y \<Longrightarrow> \<not> in_range b l y \<Longrightarrow> \<not> outside_heap h y \<Longrightarrow> m y = ram h y"
  shows "holds (h\<lparr>ram := m\<rparr>) A" "heap_room (h\<lparr>ram := m\<rparr>) k"
proof -
  let ?m1 = "\<lambda>y. if in_range a n y \<or> in_range b l y then m y else ram h y"
  have h1: "holds (h\<lparr>ram := ?m1\<rparr>) A" using holds_write2 [OF A(1,3,4), of ?m1] by simp
  have s: "m y = ram (h\<lparr>ram := ?m1\<rparr>) y" if "\<not> outside_heap (h\<lparr>ram := ?m1\<rparr>) y" for y
    using same that by simp
  from holds_write_outside [OF h1 holds_room_ram [OF h1 A(2)], of m] s
  show "holds (h\<lparr>ram := m\<rparr>) A" "heap_room (h\<lparr>ram := m\<rparr>) k" by simp_all
qed

lemma free_keeps:
  assumes "holds h ((p, n) # A)" "heap_room h k"
  shows "heap_room (free h p) k" "outside_heap (free h p) = outside_heap h"
    and "outside_heap h y \<Longrightarrow> ram (free h p) y = ram h y"
proof -
  have f: "last_alloc (free h p) = last_alloc h" "heap_end (free h p) = heap_end h" "heap_begin (free h p) = heap_begin h"
    by (simp_all add: free_def Let_def)
  show "heap_room (free h p) k" using holds_free [OF assms(1)] assms(2) f by (simp add: heap_room_def holds_def)
  show "outside_heap (free h p) = outside_heap h" using f by (simp add: outside_heap_def fun_eq_iff)
  have m: "unat (heap_begin h) + 8 \<le> unat p" "unat p + unat n \<le> unat (heap_end h)"
    using holds_above_begin [OF assms(1)] holds_below_end [OF assms(1), of p n] assms(2) by (auto simp: heap_room_def)
  then have "unat (p - 8) = unat p - 8" by (simp add: unat_sub_word)
  with m have "y \<noteq> p - 8" if "outside_heap h y" using that by (auto simp: outside_heap_def)
  then show "outside_heap h y \<Longrightarrow> ram (free h p) y = ram h y" by (auto simp: free_def Let_def)
qed

end
