(* ===== verification/Ports.thy ===== *)
theory Ports
  imports Prelude
begin

text \<open>
  Port input and output, \<open>src/system.c\<close>. The devices behind the ports are not part of the
  program: what a read returns is given by a function \<open>dev\<close> of the accesses made before it and
  of the port. The trace of the accesses is the state, newest first.
\<close>

datatype io_event =
  OutB uint16 uint8 | OutW uint16 uint16 | OutL uint16 uint32
| InB uint16 uint8 | InW uint16 uint16 | InL uint16 uint32 | IoWait

type_synonym trace = "io_event list"
type_synonym device = "trace \<Rightarrow> uint16 \<Rightarrow> uint32"

definition inportb :: "device \<Rightarrow> uint16 \<Rightarrow> trace \<Rightarrow> uint8 \<times> trace" where
  "inportb dev port tr = (let rv = ucast (dev tr port) in (rv, InB port rv # tr))"

definition inportw :: "device \<Rightarrow> uint16 \<Rightarrow> trace \<Rightarrow> uint16 \<times> trace" where
  "inportw dev port tr = (let rv = ucast (dev tr port) in (rv, InW port rv # tr))"

definition inportl :: "device \<Rightarrow> uint16 \<Rightarrow> trace \<Rightarrow> uint32 \<times> trace" where
  "inportl dev port tr = (let rv = dev tr port in (rv, InL port rv # tr))"

definition outportb :: "uint16 \<Rightarrow> uint8 \<Rightarrow> trace \<Rightarrow> trace" where
  "outportb port data tr = OutB port data # tr"

definition outportw :: "uint16 \<Rightarrow> uint16 \<Rightarrow> trace \<Rightarrow> trace" where
  "outportw port data tr = OutW port data # tr"

definition outportl :: "uint16 \<Rightarrow> uint32 \<Rightarrow> trace \<Rightarrow> trace" where
  "outportl port data tr = OutL port data # tr"

definition io_wait :: "trace \<Rightarrow> trace" where
  "io_wait tr = IoWait # tr"

lemmas port_defs = inportb_def inportw_def inportl_def outportb_def outportw_def outportl_def io_wait_def

end
