(* ===== verification/Interrupts.thy ===== *)
theory Interrupts
  imports Ports
begin

text \<open>
  The interrupt side of the kernel: the descriptor table of \<open>src/interrupt/idt.c\<close>, the
  interrupt controllers and the dispatch of \<open>src/interrupt/irq.c\<close>, and the exceptions of
  \<open>src/interrupt/isr.c\<close>. The entry points \<open>_isr0 .. _isr31\<close> and \<open>_irq0 .. _irq15\<close> are labels
  of \<open>src/kernel.asm\<close>; their addresses are the parameters \<open>isr_label\<close> and \<open>irq_label\<close>.
\<close>

section \<open>The descriptor table (idt.c)\<close>

record idt_gate =
  low_offset :: uint16
  gate_sel :: uint16
  always0 :: uint8
  gate_flags :: uint8
  high_offset :: uint16

record idt_register =
  idt_limit :: uint16
  idt_base :: uint32

definition IDT_ENTRIES :: nat where "IDT_ENTRIES = 265"

definition KERNEL_CS :: uint16 where "KERNEL_CS = 0x08"

definition low_16 :: "uint32 \<Rightarrow> uint16" where "low_16 a = ucast (a AND 0xFFFF)"

definition high_16 :: "uint32 \<Rightarrow> uint16" where "high_16 a = ucast (drop_bit 16 a AND 0xFFFF)"

type_synonym idt = "int \<Rightarrow> idt_gate"

definition set_idt_gate :: "idt \<Rightarrow> int \<Rightarrow> uint32 \<Rightarrow> idt" where
  "set_idt_gate t n handler =
     t(n := \<lparr>low_offset = low_16 handler, gate_sel = KERNEL_CS, always0 = 0, gate_flags = 0x8E,
             high_offset = high_16 handler\<rparr>)"

text \<open>\<open>idt_addr\<close> is the address of the array \<open>idt\<close>; a gate has 8 bytes.\<close>

definition set_idt :: "uint32 \<Rightarrow> idt_register" where
  "set_idt idt_addr = \<lparr>idt_limit = of_nat (IDT_ENTRIES * 8 - 1), idt_base = idt_addr\<rparr>"

definition idt_init :: "(nat \<Rightarrow> uint32) \<Rightarrow> uint32 \<Rightarrow> idt \<Rightarrow> idt \<times> idt_register" where
  "idt_init isr_label idt_addr t =
     (fold (\<lambda>k t. set_idt_gate t (int k) (isr_label k)) [0..<32] t, set_idt idt_addr)"

section \<open>The interrupt controllers (irq.c)\<close>

definition PIC_MASTER_COMMAND :: uint16 where "PIC_MASTER_COMMAND = 0x20"
definition PIC_MASTER_DATA :: uint16 where "PIC_MASTER_DATA = 0x21"
definition PIC_SLAVE_COMMAND :: uint16 where "PIC_SLAVE_COMMAND = 0xA0"
definition PIC_SLAVE_DATA :: uint16 where "PIC_SLAVE_DATA = 0xA1"
definition EOI :: uint8 where "EOI = 0x20"

lemmas pic_ports = PIC_MASTER_COMMAND_def PIC_MASTER_DATA_def PIC_SLAVE_COMMAND_def
  PIC_SLAVE_DATA_def EOI_def

definition irq_remap :: "device \<Rightarrow> trace \<Rightarrow> trace" where
  "irq_remap dev tr0 =
     (let (a1, tr1) = inportb dev PIC_MASTER_DATA tr0;
          (a2, tr2) = inportb dev PIC_SLAVE_DATA tr1;
          tr3 = io_wait (outportb PIC_MASTER_COMMAND 0x11 tr2);
          tr4 = io_wait (outportb PIC_SLAVE_COMMAND 0x11 tr3);
          tr5 = io_wait (outportb PIC_MASTER_DATA 0x20 tr4);
          tr6 = io_wait (outportb PIC_SLAVE_DATA 0x28 tr5);
          tr7 = io_wait (outportb PIC_MASTER_DATA 0x04 tr6);
          tr8 = io_wait (outportb PIC_SLAVE_DATA 0x02 tr7);
          tr9 = io_wait (outportb PIC_MASTER_DATA 0x01 tr8);
          tr10 = io_wait (outportb PIC_SLAVE_DATA 0x01 tr9);
          tr11 = outportb PIC_MASTER_DATA a1 tr10
      in outportb PIC_SLAVE_DATA a2 tr11)"

definition irq_gates :: "(nat \<Rightarrow> uint32) \<Rightarrow> idt \<Rightarrow> idt" where
  "irq_gates irq_label t = fold (\<lambda>k t. set_idt_gate t (32 + int k) (irq_label k)) [0..<16] t"

definition mask_irqs :: "uint16 \<Rightarrow> trace \<Rightarrow> trace" where
  "mask_irqs m tr =
     outportb PIC_SLAVE_DATA (ucast (drop_bit 8 m)) (outportb PIC_MASTER_DATA (ucast m) tr)"

definition irq_install :: "device \<Rightarrow> (nat \<Rightarrow> uint32) \<Rightarrow> idt \<Rightarrow> trace \<Rightarrow> idt \<times> trace" where
  "irq_install dev irq_label t tr =
     (irq_gates irq_label t, io_wait (mask_irqs 0 (irq_remap dev tr)))"

definition send_eoi :: "uint8 \<Rightarrow> trace \<Rightarrow> trace" where
  "send_eoi irq_num tr =
     (let tr1 = (if 7 < irq_num then outportb PIC_SLAVE_COMMAND EOI tr else tr)
      in outportb PIC_MASTER_COMMAND EOI tr1)"

text \<open>
  The array \<open>irq_routines\<close> of 16 words as it lies in memory: the words at an index above 15
  belong to whatever the linker puts behind it, so a map from the index keeps them.
\<close>

type_synonym irq_table = "nat \<Rightarrow> uint32"

definition irq_setroutine :: "irq_table \<Rightarrow> uint8 \<Rightarrow> uint32 \<Rightarrow> irq_table" where
  "irq_setroutine rs irq routine = rs(unat irq := routine)"

definition irq_clearroutine :: "irq_table \<Rightarrow> uint8 \<Rightarrow> irq_table" where
  "irq_clearroutine rs irq = rs(unat irq := 0)"

text \<open>The handler that is called, or the trace when there is none.\<close>

datatype irq_result = Handled trace | Calls uint32

definition irq_handler :: "irq_table \<Rightarrow> uint32 \<Rightarrow> trace \<Rightarrow> irq_result" where
  "irq_handler rs int_no tr =
     (let inum = sint (int_no - 32);
          handler = (if inum < 0 \<or> inum > 16 then 0 else rs (nat inum))
      in if handler = 0 then Handled (send_eoi (word_of_int inum) tr) else Calls handler)"

section \<open>Exceptions (isr.c)\<close>

definition SIGILL :: int where "SIGILL = 1"
definition SIGTERM :: int where "SIGTERM = 2"
definition SIGSEGV :: int where "SIGSEGV = 3"

definition exception_messages :: "string list" where
  "exception_messages =
  [''EXC0 Division by Zero'',
   ''EXC1 Debug'',
   ''EXC2 Non Maskable Interrupt'',
   ''EXC3 Breakpoint'',
   ''EXC4 Overflow'',
   ''EXC5 Bounds'',
   ''EXC6 Invalid Optcode'',
   ''EXC7 Coprocessor not available'',
   ''EXC8 Double fault'',
   ''EXC9 Coprocessor Segment Overrun'',
   ''EXC0A Invalid Task State Segment'',
   ''EXC0B Segment not present'',
   ''EXC0C Stack Fault'',
   ''EXC0D General protection fault'',
   ''EXC0E Page fault'',
   ''EXC0F reserved'',
   ''EXC10 Math Fault'',
   ''EXC11 Alignment Check'',
   ''EX12 Machine Check'']"

text \<open>
  What \<open>isr_handler\<close> does: a signal, nothing, or, before tasking starts, the message with the
  text of the exception (\<open>None\<close> when the number is behind the end of the array), the report of a
  page fault, and \<open>hlt\<close>.
\<close>

datatype isr_result = Signal int | Ignored | Reported "string option" bool

definition isr_handler :: "bool \<Rightarrow> uint32 \<Rightarrow> isr_result" where
  "isr_handler is_tasking int_no =
     (if is_tasking then
        (if int_no = 0 then Signal SIGILL else if int_no = 13 then Signal SIGSEGV else Ignored)
      else Reported
        (if unat int_no < length exception_messages then Some (exception_messages ! unat int_no) else None)
        (int_no = 14))"

section \<open>What the processor does with a gate\<close>

text \<open>The address a gate leads to, and whether it is a present 32-bit interrupt gate.\<close>

definition gate_target :: "idt_gate \<Rightarrow> uint32" where
  "gate_target g = (ucast (high_offset g) * 65536) + ucast (low_offset g)"

lemma low_16_word: "ucast (low_16 a) = take_bit 16 a"
  by (rule bit_word_eqI) (auto simp: low_16_def low_masks bit_simps)

lemma high_16_word: "ucast (high_16 a) = drop_bit 16 a"
  by (rule bit_word_eqI) (auto simp: high_16_def low_masks bit_simps dest: bit_imp_le_length)

lemma halves: "ucast (high_16 a) * 65536 + ucast (low_16 a) = a"
  using bits_ident [of 16 a] by (simp add: low_16_word high_16_word push_bit_eq_mult)

lemma gate_target_set: "gate_target (set_idt_gate t n h n) = h"
  by (simp add: gate_target_def set_idt_gate_def halves)

lemma set_gate_other: "m \<noteq> n \<Longrightarrow> set_idt_gate t n h m = t m"
  by (simp add: set_idt_gate_def)

lemma set_gates_fold:
  "fold (\<lambda>k t. set_idt_gate t (b + int k) (lab k)) [0..<n] t i =
     (if b \<le> i \<and> i < b + int n then set_idt_gate t i (lab (nat (i - b))) i else t i)"
proof (induction n)
  case (Suc n)
  show ?case
  proof (cases "i = b + int n")
    case True
    then show ?thesis by (simp add: set_idt_gate_def)
  next
    case False
    with Suc show ?thesis by (auto simp: set_gate_other)
  qed
qed auto

section \<open>Properties\<close>

text \<open>
  After \<open>idt_init\<close> and \<open>irq_install\<close> every exception 0 to 31 and every interrupt 32 to 47
  leads to its own entry point through a present ring-0 interrupt gate (flags \<open>0x8E\<close>) in the
  kernel's code segment, and no other gate has changed.
\<close>

theorem interrupt_gates_installed:
  assumes "t' = fst (irq_install dev irq_label (fst (idt_init isr_label base t)) tr)"
  shows "(\<forall>k < 32. gate_target (t' (int k)) = isr_label k) \<and>
    (\<forall>k < 16. gate_target (t' (32 + int k)) = irq_label k) \<and>
    (\<forall>i. 0 \<le> i \<and> i < 48 \<longrightarrow> gate_flags (t' i) = 0x8E \<and> gate_sel (t' i) = KERNEL_CS \<and> always0 (t' i) = 0) \<and>
    (\<forall>i. i < 0 \<or> 48 \<le> i \<longrightarrow> t' i = t i)"
proof -
  have t': "t' i = (if 32 \<le> i \<and> i < 48 then set_idt_gate t i (irq_label (nat (i - 32))) i
      else if 0 \<le> i \<and> i < 32 then set_idt_gate t i (isr_label (nat i)) i else t i)" for i
    unfolding assms irq_install_def idt_init_def irq_gates_def fst_conv set_gates_fold
    using set_gates_fold [of 0 isr_label 32 t i] by (simp add: set_idt_gate_def)
  show ?thesis by (auto simp: t' gate_target_set) (auto simp: set_idt_gate_def)
qed

theorem interrupt_gates_installed_witness:
  "gate_target (fst (irq_install (\<lambda>_ _. 0) (\<lambda>k. 0x10003000 + of_nat k)
     (fst (idt_init (\<lambda>k. 0x10002000 + of_nat k) 0 (\<lambda>_. undefined))) []) 33) = 0x10003001"
  using interrupt_gates_installed [OF refl, of "\<lambda>_ _. 0" "\<lambda>k. 0x10003000 + of_nat k" "\<lambda>k. 0x10002000 + of_nat k" 0 "\<lambda>_. undefined" "[]"]
  by (auto dest!: spec [where x = "1 :: nat"])

lemma inum_line: "k \<le> 16 \<Longrightarrow> sint (of_nat (32 + k) - 32 :: uint32) = int k"
proof -
  assume "k \<le> 16"
  then have "k \<in> set [0..<17]" by auto
  moreover have "\<forall>k \<in> set [0..<17]. sint (of_nat (32 + k) - 32 :: uint32) = int k" by code_simp
  ultimately show ?thesis by blast
qed

text \<open>
  Dispatch of the 16 interrupt lines: an interrupt \<open>32 + k\<close> calls the routine registered for
  line \<open>k\<close>; without one it is acknowledged, on the master controller for every line and first
  on the slave exactly for the lines 8 to 15.
\<close>

theorem irq_dispatch:
  assumes "k < 16"
  shows "irq_handler (irq_setroutine rs (of_nat k) h) (of_nat (32 + k)) tr =
    (if h \<noteq> 0 then Calls h
     else Handled ([OutB 0x20 0x20] @ (if 8 \<le> k then [OutB 0xA0 0x20] else []) @ tr))"
proof -
  have "k \<in> set [0..<16]" using assms by auto
  moreover have "\<forall>k \<in> set [0..<16]. (7 < (word_of_int (int k) :: uint8)) = (8 \<le> k) \<and> unat (of_nat k :: uint8) = k"
    by code_simp
  ultimately have "(7 < (word_of_int (int k) :: uint8)) = (8 \<le> k)" "unat (of_nat k :: uint8) = k"
    by blast+
  with assms show ?thesis
    by (simp add: irq_handler_def inum_line irq_setroutine_def send_eoi_def outportb_def pic_ports Let_def
        del: of_nat_add)
qed

theorem irq_dispatch_witness:
  "irq_handler (irq_setroutine (\<lambda>_. 0) 9 0) 41 [] = Handled [OutB 0x20 0x20, OutB 0xA0 0x20]"
  using irq_dispatch [of 9 "\<lambda>_. 0" 0 "[]"] by simp

text \<open>
  The range check of \<open>irq_handler\<close> lets 16 through although the table has 16 entries: the
  number 48 calls whatever word lies behind the table, while 49 and above call nothing.
\<close>

theorem irq_handler_off_by_one:
  "irq_handler rs 48 tr = (if rs 16 = 0 then Handled (send_eoi 16 tr) else Calls (rs 16)) \<and>
   irq_handler rs 49 tr = Handled (send_eoi 17 tr)"
  using inum_line [of 16] by (simp add: irq_handler_def Let_def)

text \<open>
  The remap sequence sends both controllers the four initialisation words with the vector
  bases 32 and 40 and then writes back the masks it read at the start.
\<close>

theorem irq_remap_sequence:
  assumes "a1 = ucast (dev tr 0x21)" and "a2 = ucast (dev (InB 0x21 a1 # tr) 0xA1)"
  shows "filter (\<lambda>e. e \<noteq> IoWait) (rev (irq_remap dev tr)) = filter (\<lambda>e. e \<noteq> IoWait) (rev tr) @
    [InB 0x21 a1, InB 0xA1 a2, OutB 0x20 0x11, OutB 0xA0 0x11, OutB 0x21 0x20, OutB 0xA1 0x28,
     OutB 0x21 0x04, OutB 0xA1 0x02, OutB 0x21 0x01, OutB 0xA1 0x01, OutB 0x21 a1, OutB 0xA1 a2]"
  using assms by (simp add: irq_remap_def port_defs pic_ports Let_def)

theorem irq_remap_sequence_witness:
  "filter (\<lambda>e. e \<noteq> IoWait) (rev (irq_remap (\<lambda>_ p. if p = 0x21 then 0xB8 else 0x8E) [])) =
    [InB 0x21 0xB8, InB 0xA1 0x8E, OutB 0x20 0x11, OutB 0xA0 0x11, OutB 0x21 0x20, OutB 0xA1 0x28,
     OutB 0x21 0x04, OutB 0xA1 0x02, OutB 0x21 0x01, OutB 0xA1 0x01, OutB 0x21 0xB8, OutB 0xA1 0x8E]"
  using irq_remap_sequence [OF refl refl, of "\<lambda>_ p. if p = 0x21 then 0xB8 else 0x8E" "[]"] by simp

end
