(* ===== verification/Timer.thy ===== *)
theory Timer
  imports Interrupts
begin

text \<open>
  The interval timer, \<open>src/pit.c\<close>: the clock, the switch that says whether a tick schedules,
  and the programming of the counter.
\<close>

record pit_state =
  pit_task :: uint8
  task_was_on :: bool
  pit_time :: uint32

definition pit_start :: pit_state where
  "pit_start = \<lparr>pit_task = 0, task_was_on = False, pit_time = 0\<rparr>"

definition set_task :: "uint8 \<Rightarrow> pit_state \<Rightarrow> pit_state" where
  "set_task i s = (if \<not> task_was_on s then s else s\<lparr>pit_task := i\<rparr>)"

definition enable_task :: "pit_state \<Rightarrow> pit_state" where
  "enable_task s = s\<lparr>task_was_on := True, pit_task := 1\<rparr>"

definition pit_gettime :: "pit_state \<Rightarrow> uint32" where
  "pit_gettime s = pit_time s"

text \<open>A tick ends with the acknowledgement or with \<open>schedule_noirq()\<close>.\<close>

datatype tick_result = Acknowledged trace | Schedules

definition pit_irq :: "pit_state \<Rightarrow> trace \<Rightarrow> pit_state \<times> tick_result" where
  "pit_irq s tr =
     (let s1 = s\<lparr>pit_time := pit_time s + 1\<rparr>
      in if pit_task s1 = 0 then (s1, Acknowledged (send_eoi 0 tr)) else (s1, Schedules))"

section \<open>Programming the counter\<close>

definition PIT_C0_HZ :: uint32 where "PIT_C0_HZ = 200"
definition PIT_OCW_COUNTER_0 :: uint8 where "PIT_OCW_COUNTER_0 = 0"
definition PIT_OCW_COUNTER_1 :: uint8 where "PIT_OCW_COUNTER_1 = 0x40"
definition PIT_OCW_MASK_MODE :: uint8 where "PIT_OCW_MASK_MODE = 0xE"
definition PIT_OCW_MASK_RL :: uint8 where "PIT_OCW_MASK_RL = 0x30"
definition PIT_OCW_MASK_COUNTER :: uint8 where "PIT_OCW_MASK_COUNTER = 0xC0"
definition PIT_OCW_RL_DATA :: uint8 where "PIT_OCW_RL_DATA = 0x30"
definition PIT_OCW_MODE_SQAREWAVEGEN :: uint8 where "PIT_OCW_MODE_SQAREWAVEGEN = 0x6"

lemmas pit_consts = PIT_C0_HZ_def PIT_OCW_COUNTER_0_def PIT_OCW_COUNTER_1_def PIT_OCW_MASK_MODE_def
  PIT_OCW_MASK_RL_def PIT_OCW_MASK_COUNTER_def PIT_OCW_RL_DATA_def PIT_OCW_MODE_SQAREWAVEGEN_def

definition pit_port :: "uint8 \<Rightarrow> uint16" where
  "pit_port counter =
     (if counter = PIT_OCW_COUNTER_0 then 0x40 else if counter = PIT_OCW_COUNTER_1 then 0x41 else 0x42)"

definition pit_send_cmd :: "uint8 \<Rightarrow> trace \<Rightarrow> trace" where
  "pit_send_cmd cmd tr = outportb 0x43 cmd tr"

definition pit_send_data :: "uint16 \<Rightarrow> uint8 \<Rightarrow> trace \<Rightarrow> trace" where
  "pit_send_data data counter tr = outportb (pit_port counter) (ucast data) tr"

definition pit_read_data :: "device \<Rightarrow> uint8 \<Rightarrow> trace \<Rightarrow> uint8 \<times> trace" where
  "pit_read_data dev counter tr = inportb dev (pit_port counter) tr"

text \<open>The division by \<open>(uint16)freq\<close> raises an exception (\<open>None\<close>) when the low 16 bits are 0.\<close>

definition pit_start_counter :: "uint32 \<Rightarrow> uint8 \<Rightarrow> uint8 \<Rightarrow> trace \<Rightarrow> trace option" where
  "pit_start_counter freq counter m tr =
     (if freq = 0 then Some tr
      else let f = (ucast freq :: uint16)
      in if f = 0 then None
      else let divisor = (word_of_int (1193181 div uint f) :: uint16);
               ocw0 = 0;
               ocw1 = (ocw0 AND NOT PIT_OCW_MASK_MODE) OR m;
               ocw2 = (ocw1 AND NOT PIT_OCW_MASK_RL) OR PIT_OCW_RL_DATA;
               ocw3 = (ocw2 AND NOT PIT_OCW_MASK_COUNTER) OR counter;
               tr1 = pit_send_cmd ocw3 tr;
               tr2 = pit_send_data (divisor AND 0xff) 0 tr1
           in Some (pit_send_data (drop_bit 8 divisor AND 0xff) 0 tr2))"

text \<open>\<open>pit_irq_addr\<close> is the address of \<open>pit_irq\<close>.\<close>

definition pit_init :: "uint32 \<Rightarrow> irq_table \<Rightarrow> trace \<Rightarrow> irq_table \<times> trace option" where
  "pit_init pit_irq_addr rs tr =
     (irq_setroutine rs 0 pit_irq_addr,
      pit_start_counter PIT_C0_HZ PIT_OCW_COUNTER_0 PIT_OCW_MODE_SQAREWAVEGEN tr)"

section \<open>Properties\<close>

lemma bytes16:
  fixes d :: uint16
  shows "unat (ucast (drop_bit 8 d AND 0xff) :: uint8) * 256 + unat (ucast (d AND 0xff) :: uint8) = unat d"
proof -
  have hi: "unat (ucast (drop_bit 8 d AND 0xff) :: uint8) = unat d div 256"
  proof -
    have "unat d < 65536" using unsigned_less [of d] by simp
    then have "unat d div 256 < 256" by auto
    then show ?thesis
      by (simp add: low_masks unsigned_ucast_eq unsigned_take_bit_eq drop_bit_eq_div take_bit_eq_mod
          unat_div unat_mod)
  qed
  have lo: "unat (ucast (d AND 0xff) :: uint8) = unat d mod 256"
    by (simp add: low_masks unsigned_ucast_eq unsigned_take_bit_eq take_bit_eq_mod unat_mod)
  show ?thesis unfolding hi lo by simp
qed

text \<open>
  For a frequency from 19 to 65535 Hz the counter is sent the command byte for counter 0 (both
  bytes, low first) and then the two bytes of the divisor \<open>1193181 / freq\<close>; below 19 Hz the 16
  bits of the divisor are too few, and a multiple of 65536 divides by zero.
\<close>

theorem pit_counter_divisor:
  assumes "19 \<le> unat freq" and "unat freq < 65536"
  shows "(\<exists>lo hi. pit_start_counter freq PIT_OCW_COUNTER_0 PIT_OCW_MODE_SQAREWAVEGEN tr =
      Some (OutB 0x40 hi # OutB 0x40 lo # OutB 0x43 0x36 # tr) \<and>
      unat hi * 256 + unat lo = 1193181 div unat freq) \<and>
    pit_start_counter 18 PIT_OCW_COUNTER_0 PIT_OCW_MODE_SQAREWAVEGEN tr =
      Some (OutB 0x40 (of_nat (1193181 div 18 div 256 - 256)) # OutB 0x40 0xEF # OutB 0x43 0x36 # tr) \<and>
    pit_start_counter 0x10000 0 m tr = None"
proof -
  let ?f = "ucast freq :: uint16" and ?d = "1193181 div unat freq"
  have f: "unat ?f = unat freq" using assms by (simp add: unsigned_ucast_eq take_bit_eq_mod)
  then have f0: "?f \<noteq> 0" using assms by (auto simp: unat_eq_0 [symmetric])
  have "?d < 65536" using assms div_le_mono2 [of 19 "unat freq" 1193181] by simp
  moreover have "uint ?f = int (unat freq)" using f by (metis uint_nat)
  then have "1193181 div uint ?f = int ?d" by (simp add: zdiv_int)
  ultimately have d: "unat (word_of_int (1193181 div uint ?f) :: uint16) = ?d"
    by (simp add: unsigned_of_nat take_bit_eq_mod)
  have "freq \<noteq> 0" using assms by auto
  with f0 have "pit_start_counter freq PIT_OCW_COUNTER_0 PIT_OCW_MODE_SQAREWAVEGEN tr =
     Some (OutB 0x40 (ucast (drop_bit 8 (word_of_int (1193181 div uint ?f) :: uint16) AND 0xff)) #
       OutB 0x40 (ucast ((word_of_int (1193181 div uint ?f) :: uint16) AND 0xff)) # OutB 0x43 0x36 # tr)"
    by (simp add: pit_start_counter_def pit_consts pit_send_cmd_def pit_send_data_def pit_port_def
        outportb_def Let_def)
  moreover note bytes16 [of "word_of_int (1193181 div uint ?f)", unfolded d]
  ultimately show ?thesis
    by (auto simp: pit_start_counter_def pit_consts pit_send_cmd_def pit_send_data_def pit_port_def
        outportb_def Let_def)
qed

theorem pit_counter_divisor_witness:
  "\<exists>lo hi. pit_start_counter 200 0 6 [] = Some [OutB 0x40 hi, OutB 0x40 lo, OutB 0x43 0x36] \<and>
     unat hi * 256 + unat lo = 5965"
  using pit_counter_divisor [of 200 "[]"] by (simp add: pit_consts)

end
