(* ===== verification/Tasking.thy ===== *)
theory Tasking
  imports Ownership Timer Link_Ring
begin

text \<open>
  The processes of \<open>src/tasking.c\<close>: the ring of \<open>PROCESS\<close> structures, their creation with a
  first stack, the switch, the end of a process, and the questions about them. The structures
  are kept in a typed store by address, their memory and the stacks come from the heap. Printing
  is left out.
\<close>

section \<open>State\<close>

record process =
  p_prev :: addr
  p_name :: addr
  p_pid :: uint32
  p_esp :: uint32
  p_stacktop :: uint32
  p_eip :: uint32
  p_cr3 :: uint32
  p_state :: uint8
  p_notify :: uint32
  p_next :: addr

definition PROCESS_STATE_ALIVE :: uint8 where "PROCESS_STATE_ALIVE = 0"
definition PROCESS_STATE_ZOMBIE :: uint8 where "PROCESS_STATE_ZOMBIE = 1"

definition zero_process :: process where
  "zero_process = \<lparr>p_prev = 0, p_name = 0, p_pid = 0, p_esp = 0, p_stacktop = 0, p_eip = 0,
     p_cr3 = 0, p_state = 0, p_notify = 0, p_next = 0\<rparr>"

text \<open>The registers at the moment an interrupt comes in.\<close>

record cpu =
  r_eax :: uint32
  r_ebx :: uint32
  r_ecx :: uint32
  r_edx :: uint32
  r_esi :: uint32
  r_edi :: uint32
  r_ebp :: uint32
  r_esp :: uint32
  r_ds :: uint32
  r_es :: uint32
  r_fs :: uint32
  r_gs :: uint32
  r_eip :: uint32
  r_cs :: uint32
  r_eflags :: uint32

record task_state =
  cur :: addr
  lpid :: uint32
  tasking_on :: bool
  late_init :: uint32
  procs :: "addr \<Rightarrow> process"
  kmem :: mm_state
  pit :: pit_state
  cr3 :: uint32
  cpu :: cpu

definition set_p_next :: "addr \<Rightarrow> addr \<Rightarrow> task_state \<Rightarrow> task_state" where
  "set_p_next p v s = s\<lparr>procs := (procs s)(p := (procs s p)\<lparr>p_next := v\<rparr>)\<rparr>"

definition set_p_prev :: "addr \<Rightarrow> addr \<Rightarrow> task_state \<Rightarrow> task_state" where
  "set_p_prev p v s = s\<lparr>procs := (procs s)(p := (procs s p)\<lparr>p_prev := v\<rparr>)\<rparr>"

definition p_nexts :: "task_state \<Rightarrow> addr \<Rightarrow> addr" where "p_nexts s p = p_next (procs s p)"

definition p_prevs :: "task_state \<Rightarrow> addr \<Rightarrow> addr" where "p_prevs s p = p_prev (procs s p)"

definition tasks_set_task :: "uint8 \<Rightarrow> task_state \<Rightarrow> task_state" where
  "tasks_set_task i s = s\<lparr>pit := set_task i (pit s)\<rparr>"

section \<open>The switch\<close>

text \<open>Pushing words, the first one first; the new stack pointer and the memory.\<close>

fun push_words :: "mem \<Rightarrow> addr \<Rightarrow> uint32 list \<Rightarrow> addr \<times> mem" where
  "push_words m sp [] = (sp, m)"
| "push_words m sp (w # ws) = push_words (store32 m (sp - 4) w) (sp - 4) ws"

text \<open>
  The pops of \<open>schedule\<close> and \<open>__exec\<close>, and the \<open>iret\<close>, from \<open>sp\<close>: they take 14 words in this order.
\<close>

definition pop_frame :: "mem \<Rightarrow> addr \<Rightarrow> cpu" where
  "pop_frame m sp =
     \<lparr>r_eax = load32 m (sp + 40), r_ebx = load32 m (sp + 36), r_ecx = load32 m (sp + 32),
      r_edx = load32 m (sp + 28), r_esi = load32 m (sp + 24), r_edi = load32 m (sp + 20),
      r_ebp = load32 m (sp + 16), r_esp = sp + 56, r_ds = load32 m (sp + 12),
      r_es = load32 m (sp + 8), r_fs = load32 m (sp + 4), r_gs = load32 m sp,
      r_eip = load32 m (sp + 44), r_cs = load32 m (sp + 48), r_eflags = load32 m (sp + 52)\<rparr>"

text \<open>
  What the interrupt and the \<open>push\<close> instructions put on the stack. The words that the compiler's
  entry code of the C function \<open>schedule\<close> pushes before the first statement are the parameter
  \<open>pro\<close>; with the flags of the \<open>Makefile\<close> it is at least \<open>ebp\<close>.
\<close>

definition saved_words :: "(cpu \<Rightarrow> uint32 list) \<Rightarrow> cpu \<Rightarrow> uint32 list" where
  "saved_words pro r = [r_eflags r, r_cs r, r_eip r] @ pro r @
     [r_eax r, r_ebx r, r_ecx r, r_edx r, r_esi r, r_ebp r, r_ds r, r_es r, r_fs r, r_gs r]"

definition schedule :: "(cpu \<Rightarrow> uint32 list) \<Rightarrow> task_state \<Rightarrow> task_state" where
  "schedule pro s =
     (let (sp, m) = push_words (ram (kmem s)) (r_esp (cpu s)) (saved_words pro (cpu s));
          s1 = s\<lparr>kmem := (kmem s)\<lparr>ram := m\<rparr>,
                 procs := (procs s)(cur s := (procs s (cur s))\<lparr>p_esp := sp\<rparr>)\<rparr>;
          n = p_next (procs s1 (cur s1))
      in s1\<lparr>cur := n, cr3 := p_cr3 (procs s1 n), cpu := pop_frame m (p_esp (procs s1 n))\<rparr>)"

definition schedule_noirq :: "(cpu \<Rightarrow> uint32 list) \<Rightarrow> task_state \<Rightarrow> task_state" where
  "schedule_noirq pro s = (if \<not> tasking_on s then s else schedule pro s)"

text \<open>The start of the first process.\<close>

definition tasks_exec :: "task_state \<Rightarrow> task_state" where
  "tasks_exec s = s\<lparr>cpu := pop_frame (ram (kmem s)) (p_esp (procs s (cur s)))\<rparr>"

section \<open>Creating processes\<close>

definition on_heap :: "(mm_state \<Rightarrow> ('a outcome \<times> mm_state) option) \<Rightarrow> task_state \<Rightarrow>
    ('a outcome \<times> task_state) option" where
  "on_heap f s = map_option (\<lambda>(r, h). (r, s\<lparr>kmem := h\<rparr>)) (f (kmem s))"

text \<open>The first stack of a process at \<open>addr\<close>: in the order of the pushes.\<close>

definition first_words :: "uint32 \<Rightarrow> uint32 \<Rightarrow> uint32 list" where
  "first_words addr stk_end = [0x202, 0x8, addr, 0, 0, 0, 0, 0, 0, stk_end, 0x10, 0x10, 0x10, 0x10]"

text \<open>\<open>sizeof(PROCESS)\<close> is 40; \<open>notified\<close> is the address of \<open>__notified\<close>.\<close>

definition createProcess :: "uint32 \<Rightarrow> addr \<Rightarrow> uint32 \<Rightarrow> task_state \<Rightarrow> (addr outcome \<times> task_state) option" where
  "createProcess notified name addr s0 =
     (case on_heap (\<lambda>h. malloc h 40) s0 of
        None \<Rightarrow> None
      | Some (Panic, s1) \<Rightarrow> Some (Panic, s1)
      | Some (Ret p, s1) \<Rightarrow>
          (let s2 = s1\<lparr>kmem := (kmem s1)\<lparr>ram := memset (ram (kmem s1)) p 0 40\<rparr>, lpid := lpid s1 + 1,
                 procs := (procs s1)(p := zero_process\<lparr>p_name := name, p_pid := lpid s1 + 1, p_eip := addr,
                   p_state := PROCESS_STATE_ALIVE, p_notify := notified\<rparr>)\<rparr>
           in case on_heap (\<lambda>h. malloc h 4096) s2 of
                None \<Rightarrow> None
              | Some (Panic, s3) \<Rightarrow> Some (Panic, s3)
              | Some (Ret st, s3) \<Rightarrow>
                  (let (sp, m) = push_words (ram (kmem s3)) (st + 4096) (first_words addr (st + 4096))
                   in Some (Ret p, s3\<lparr>kmem := (kmem s3)\<lparr>ram := m\<rparr>,
                        procs := (procs s3)(p := (procs s3 p)\<lparr>p_cr3 := cr3 s3, p_stacktop := st, p_esp := sp\<rparr>)\<rparr>))))"

definition addProcess_unlocked :: "addr \<Rightarrow> task_state \<Rightarrow> task_state" where
  "addProcess_unlocked p s =
     (let s1 = set_p_next p (p_nexts s (cur s)) s;
          s2 = set_p_prev (p_nexts s1 p) p s1;
          s3 = set_p_prev p (cur s2) s2
      in set_p_next (cur s3) p s3)"

definition addProcess :: "addr \<Rightarrow> task_state \<Rightarrow> uint32 \<times> task_state" where
  "addProcess p s =
     (let s1 = tasks_set_task 1 (addProcess_unlocked p (tasks_set_task 0 s))
      in (p_pid (procs s1 p), s1))"

text \<open>The macro \<open>START\<close>.\<close>

definition start_process :: "uint32 \<Rightarrow> addr \<Rightarrow> uint32 \<Rightarrow> task_state \<Rightarrow> (uint32 outcome \<times> task_state) option" where
  "start_process notified name addr s =
     (case createProcess notified name addr s of
        None \<Rightarrow> None
      | Some (Panic, s1) \<Rightarrow> Some (Panic, s1)
      | Some (Ret p, s1) \<Rightarrow> (let (pid, s2) = addProcess p s1 in Some (Ret pid, s2)))"

section \<open>The end of a process\<close>

text \<open>
  \<open>_kill\<close>: the structure and the stack are released before the structure is read for the last
  time; \<open>free\<close> leaves their bytes as they are.
\<close>

definition unlink_cur :: "task_state \<Rightarrow> task_state" where
  "unlink_cur s =
     (let s1 = set_p_next (p_prevs s (cur s)) (p_nexts s (cur s)) s
      in set_p_prev (p_nexts s1 (cur s1)) (p_prevs s1 (cur s1)) s1)"

definition kill_current :: "(cpu \<Rightarrow> uint32 list) \<Rightarrow> task_state \<Rightarrow> unit outcome \<times> task_state" where
  "kill_current pro s =
     (if p_pid (procs s (cur s)) = 1 then (Panic, tasks_set_task 0 s)
      else let s1 = tasks_set_task 0 s;
               s2 = s1\<lparr>kmem := free (kmem s1) (p_stacktop (procs s1 (cur s1)))\<rparr>;
               s3 = s2\<lparr>kmem := free (kmem s2) (cur s2)\<rparr>;
               s4 = s3\<lparr>kmem := pfree (kmem s3) (p_cr3 (procs s3 (cur s3)))\<rparr>;
               s5 = unlink_cur s4
           in (Ret (), schedule_noirq pro (tasks_set_task 1 s5)))"

definition set_zombie :: "addr \<Rightarrow> task_state \<Rightarrow> task_state" where
  "set_zombie p s = s\<lparr>procs := (procs s)(p := (procs s p)\<lparr>p_state := PROCESS_STATE_ZOMBIE\<rparr>)\<rparr>"

text \<open>The loop of \<open>kill\<close>, at \<open>p\<close>.\<close>

partial_function (option) kill_loop :: "uint32 \<Rightarrow> addr \<Rightarrow> addr \<Rightarrow> task_state \<Rightarrow> task_state option" where
  "kill_loop pid orig p s =
     (if p_pid (procs s p) = pid then Some (set_zombie p s)
      else let p' = p_nexts s p in if p' = orig then Some s else kill_loop pid orig p' s)"

text \<open>
  A process that kills itself while tasking is on is never scheduled again, so the state after
  the switch is the result; before, \<open>_kill\<close> returns and the loop runs.
\<close>

definition kill :: "(cpu \<Rightarrow> uint32 list) \<Rightarrow> uint32 \<Rightarrow> task_state \<Rightarrow> (unit outcome \<times> task_state) option" where
  "kill pro pid s =
     (if pid = 1 then Some (Panic, tasks_set_task 0 s)
      else let (r, s1) = (if pid = p_pid (procs s (cur s)) then kill_current pro s else (Ret (), s))
      in if r = Panic \<or> (pid = p_pid (procs s (cur s)) \<and> tasking_on s) then Some (r, s1)
         else map_option (\<lambda>s2. (Ret (), s2)) (kill_loop pid (cur s1) (cur s1) s1))"

definition notified_sig :: "(cpu \<Rightarrow> uint32 list) \<Rightarrow> int \<Rightarrow> task_state \<Rightarrow> unit outcome \<times> task_state" where
  "notified_sig pro sig s =
     (if sig = SIGILL \<or> sig = SIGTERM \<or> sig = SIGSEGV then kill_current pro s else (Ret (), s))"

text \<open>One turn of the loop of \<open>jack_the_ripper\<close>, up to \<open>schedule_noirq\<close>.\<close>

definition unlink_process :: "addr \<Rightarrow> task_state \<Rightarrow> task_state" where
  "unlink_process p s =
     (let s1 = set_p_next (p_prevs s p) (p_nexts s p) s
      in set_p_prev (p_nexts s1 p) (p_prevs s1 p) s1)"

definition jack_visit :: "addr \<Rightarrow> task_state \<Rightarrow> addr \<times> task_state" where
  "jack_visit p s =
     (let p = p_nexts s p
      in if p = cur s then (p, s)
         else if p_state (procs s p) = PROCESS_STATE_ZOMBIE then
           (let s1 = unlink_process p (tasks_set_task 0 s);
                s2 = s1\<lparr>kmem := free (kmem s1) (p_stacktop (procs s1 p))\<rparr>;
                s3 = s2\<lparr>kmem := free (kmem s2) p\<rparr>
            in (p, tasks_set_task 1 s3))
         else (p, s))"

section \<open>Questions\<close>

partial_function (option) running_loop :: "uint32 \<Rightarrow> addr \<Rightarrow> addr \<Rightarrow> task_state \<Rightarrow> bool option" where
  "running_loop pid orig p s =
     (if p_pid (procs s p) = pid then Some True
      else let p' = p_nexts s p in if p' = orig then Some False else running_loop pid orig p' s)"

definition is_pid_running :: "uint32 \<Rightarrow> task_state \<Rightarrow> (bool \<times> task_state) option" where
  "is_pid_running pid s =
     (let s1 = tasks_set_task 0 s
      in map_option (\<lambda>ret. (ret, tasks_set_task 1 s1)) (running_loop pid (cur s1) (cur s1) s1))"

definition p_pid_of_cur :: "task_state \<Rightarrow> uint32" where "p_pid_of_cur s = p_pid (procs s (cur s))"

definition idle_thread_start :: "task_state \<Rightarrow> task_state" where
  "idle_thread_start s = s\<lparr>pit := enable_task (pit s), tasking_on := True\<rparr>"

text \<open>
  \<open>tasking_init\<close>: the names and the entry points of the idle process and of \<open>task1\<close> are
  parameters, as is the address of \<open>schedule\<close>.
\<close>

definition tasking_init :: "uint32 \<Rightarrow> uint32 \<Rightarrow> addr \<Rightarrow> uint32 \<Rightarrow> addr \<Rightarrow> uint32 \<Rightarrow> uint32 \<Rightarrow> idt \<Rightarrow> task_state \<Rightarrow>
    (unit outcome \<times> idt \<times> task_state) option" where
  "tasking_init notified schedule_addr name1 idle name2 task1 addr t s =
     (case createProcess notified name1 idle (s\<lparr>late_init := addr\<rparr>) of
        None \<Rightarrow> None
      | Some (Panic, s1) \<Rightarrow> Some (Panic, t, s1)
      | Some (Ret p, s1) \<Rightarrow>
          (let s2 = s1\<lparr>cur := p\<rparr>; s3 = set_p_prev p p (set_p_next p p s2)
           in case createProcess notified name2 task1 s3 of
                None \<Rightarrow> None
              | Some (Panic, s4) \<Rightarrow> Some (Panic, t, s4)
              | Some (Ret q, s4) \<Rightarrow>
                  Some (Ret (), set_idt_gate t 0x79 schedule_addr, tasks_exec (addProcess_unlocked q s4))))"

section \<open>The ring of processes\<close>

interpretation tk: ring_store p_nexts p_prevs set_p_next set_p_prev
  by unfold_locales
    (auto simp: p_nexts_def p_prevs_def set_p_next_def set_p_prev_def fun_eq_iff)

text \<open>\<open>task_ring s xs\<close>: the running process and behind it, in the order of their turns, \<open>xs\<close>.\<close>

definition task_ring :: "task_state \<Rightarrow> addr list \<Rightarrow> bool" where
  "task_ring s xs \<longleftrightarrow> is_ring (p_nexts s) (p_prevs s) (cur s) xs"

text \<open>What the operations leave alone.\<close>

lemma set_links_simps [simp]:
  "cur (set_p_next p v s) = cur s" "cur (set_p_prev p v s) = cur s"
  "kmem (set_p_next p v s) = kmem s" "kmem (set_p_prev p v s) = kmem s"
  "lpid (set_p_next p v s) = lpid s" "lpid (set_p_prev p v s) = lpid s"
  "tasking_on (set_p_next p v s) = tasking_on s" "tasking_on (set_p_prev p v s) = tasking_on s"
  "pit (set_p_next p v s) = pit s" "pit (set_p_prev p v s) = pit s"
  "cpu (set_p_next p v s) = cpu s" "cpu (set_p_prev p v s) = cpu s"
  "cr3 (set_p_next p v s) = cr3 s" "cr3 (set_p_prev p v s) = cr3 s"
  "p_pid (procs (set_p_next p v s) q) = p_pid (procs s q)"
  "p_pid (procs (set_p_prev p v s) q) = p_pid (procs s q)"
  "p_esp (procs (set_p_next p v s) q) = p_esp (procs s q)"
  "p_esp (procs (set_p_prev p v s) q) = p_esp (procs s q)"
  "p_stacktop (procs (set_p_next p v s) q) = p_stacktop (procs s q)"
  "p_stacktop (procs (set_p_prev p v s) q) = p_stacktop (procs s q)"
  "p_state (procs (set_p_next p v s) q) = p_state (procs s q)"
  "p_state (procs (set_p_prev p v s) q) = p_state (procs s q)"
  "p_cr3 (procs (set_p_next p v s) q) = p_cr3 (procs s q)"
  "p_cr3 (procs (set_p_prev p v s) q) = p_cr3 (procs s q)"
  by (simp_all add: set_p_next_def set_p_prev_def)

lemma p_nexts_abs: "p_nexts s = (\<lambda>p. p_next (procs s p))"
  by (simp add: fun_eq_iff p_nexts_def)

lemma p_prevs_abs: "p_prevs s = (\<lambda>p. p_prev (procs s p))"
  by (simp add: fun_eq_iff p_prevs_def)

lemma set_task_simps [simp]:
  "cur (tasks_set_task i s) = cur s" "procs (tasks_set_task i s) = procs s"
  "kmem (tasks_set_task i s) = kmem s" "lpid (tasks_set_task i s) = lpid s"
  "tasking_on (tasks_set_task i s) = tasking_on s" "cpu (tasks_set_task i s) = cpu s"
  "cr3 (tasks_set_task i s) = cr3 s"
  "p_nexts (tasks_set_task i s) = p_nexts s" "p_prevs (tasks_set_task i s) = p_prevs s"
  by (simp_all add: tasks_set_task_def p_nexts_abs p_prevs_abs)

lemma p_links_update [simp]:
  "p_nexts (s\<lparr>kmem := h\<rparr>) = p_nexts s" "p_prevs (s\<lparr>kmem := h\<rparr>) = p_prevs s"
  "p_nexts (s\<lparr>cur := a\<rparr>) = p_nexts s" "p_prevs (s\<lparr>cur := a\<rparr>) = p_prevs s"
  by (simp_all add: p_nexts_abs p_prevs_abs)

lemma task_ring_update [simp]:
  "task_ring (tasks_set_task i s) xs = task_ring s xs" "task_ring (s\<lparr>kmem := h\<rparr>) xs = task_ring s xs"
  by (simp_all add: task_ring_def)

lemma addProcess_unlocked_ring:
  assumes "task_ring s xs" and "p \<notin> set (cur s # xs)"
  shows "task_ring (addProcess_unlocked p s) (p # xs)"
proof -
  have "addProcess_unlocked p s =
      set_p_next (cur s) p (set_p_prev p (cur s) (set_p_prev (p_nexts s (cur s)) p
        (set_p_next p (p_nexts s (cur s)) s)))"
    by (simp add: addProcess_unlocked_def Let_def tk.fields)
  from tk.insert_behind_next_first [OF assms [unfolded task_ring_def] this]
  show ?thesis by (simp add: task_ring_def addProcess_unlocked_def Let_def)
qed

lemma unlink_process_ring:
  assumes "is_ring (p_nexts s) (p_prevs s) a (xs @ p # ys)"
  shows "is_ring (p_nexts (unlink_process p s)) (p_prevs (unlink_process p s)) a (xs @ ys)"
proof (rule tk.unlink [OF assms disjI2])
  show "unlink_process p s = set_p_prev (p_nexts s p) (p_prevs s p) (set_p_next (p_prevs s p) (p_nexts s p) s)"
    by (auto simp: unlink_process_def Let_def tk.fields)
qed

lemma unlink_cur_process: "unlink_cur s = unlink_process (cur s) s"
  by (simp add: unlink_cur_def unlink_process_def)

text \<open>The running process leaves: the others stay a ring, seen from the next one.\<close>

lemma unlink_cur_ring:
  assumes "task_ring s (q # xs)"
  shows "is_ring (p_nexts (unlink_cur s)) (p_prevs (unlink_cur s)) q xs \<and> p_nexts (unlink_cur s) (cur s) = q"
proof -
  have "is_ring (p_nexts s) (p_prevs s) q (xs @ [cur s])"
    using assms by (auto simp: task_ring_def dest: ring_rotate)
  from unlink_process_ring [of s q xs "cur s" "[]"] this
  have "is_ring (p_nexts (unlink_cur s)) (p_prevs (unlink_cur s)) q xs" by (simp add: unlink_cur_process)
  moreover have "cur s \<noteq> q" and "p_nexts s (cur s) = q"
    using assms by (auto simp: task_ring_def is_ring_def)
  ultimately show ?thesis by (auto simp: unlink_cur_def Let_def tk.fields)
qed

section \<open>The switch\<close>

lemma schedule_simps:
  "cur (schedule pro s) = p_nexts s (cur s)"
  "p_nexts (schedule pro s) = p_nexts s" "p_prevs (schedule pro s) = p_prevs s"
  "p_pid (procs (schedule pro s) q) = p_pid (procs s q)"
  "p_state (procs (schedule pro s) q) = p_state (procs s q)"
  "p_stacktop (procs (schedule pro s) q) = p_stacktop (procs s q)"
  "p_cr3 (procs (schedule pro s) q) = p_cr3 (procs s q)"
  "lpid (schedule pro s) = lpid s" "tasking_on (schedule pro s) = tasking_on s" "pit (schedule pro s) = pit s"
  by (simp_all add: schedule_def Let_def p_nexts_def p_prevs_def fun_eq_iff split: prod.split)

lemma schedule_noirq_on: "tasking_on s \<Longrightarrow> schedule_noirq pro s = schedule pro s"
  by (simp add: schedule_noirq_def)

lemma schedule_ring:
  "task_ring s xs \<Longrightarrow> task_ring (schedule pro s) (tl (xs @ [cur s]))"
  by (cases xs) (auto simp: task_ring_def schedule_simps ring_next ring_single dest: ring_rotate)

lemma schedule_turns:
  "cur ((schedule pro ^^ k) s) = (p_nexts s ^^ k) (cur s) \<and> p_nexts ((schedule pro ^^ k) s) = p_nexts s"
  by (induction k) (simp_all add: schedule_simps)

subsection \<open>Pushing and popping\<close>

text \<open>\<open>n\<close> words pushed from \<open>sp\<close>: the bytes below \<open>sp\<close> that change.\<close>

lemma unat_4: "unat (4 :: addr) = 4"
  by simp

lemma push_words_other:
  assumes "\<not> unat (sp - 1 - y) < 4 * length ws"
  shows "snd (push_words m sp ws) y = m y"
  using assms
proof (induction ws arbitrary: m sp)
  case (Cons w ws)
  have step: "unat (sp - 4 - 1 - y) = unat (sp - 1 - y) - 4" if "4 \<le> unat (sp - 1 - y)"
  proof -
    have e: "sp - 4 - 1 - y = (sp - 1 - y) - 4" by simp
    have "(4 :: addr) \<le> sp - 1 - y" using that by (simp add: word_le_nat_alt)
    from unat_sub [OF this] show ?thesis unfolding e by (metis unat_4)
  qed
  have ge: "4 \<le> unat (sp - 1 - y)" using Cons.prems by simp
  have "\<not> in_range (sp - 4) 4 y"
  proof
    assume "in_range (sp - 4) 4 y"
    then have "y - (sp - 4) < 4" by (simp add: in_range_def)
    moreover have e: "sp - 1 - y = 3 - (y - (sp - 4))" by simp
    moreover have "y - (sp - 4) \<le> 3" using calculation(1) by (simp add: word_le_nat_alt word_less_nat_alt)
    ultimately have "unat (sp - 1 - y) \<le> 3" unfolding e using unat_sub [of "y - (sp - 4)" 3] by simp
    with ge show False by simp
  qed
  with Cons step ge show ?case by (simp add: store32_other)
qed simp

lemma push_words_sp: "fst (push_words m sp ws) = sp - 4 * of_nat (length ws)"
proof (induction ws arbitrary: m sp)
  case (Cons w ws)
  from Cons.IH [of "store32 m (sp - 4) w" "sp - 4"] show ?case by (simp add: algebra_simps)
qed simp

lemma push_words_read:
  assumes "i < length ws" and "length ws < 1000"
  shows "load32 (snd (push_words m sp ws)) (sp - 4 * (of_nat i + 1)) = ws ! i"
  using assms
proof (induction ws arbitrary: m sp i)
  case (Cons w ws)
  show ?case
  proof (cases i)
    case 0
    have "snd (push_words (store32 m (sp - 4) w) (sp - 4) ws) x = store32 m (sp - 4) w x"
      if "in_range (sp - 4) 4 x" for x
    proof (rule push_words_other)
      have "unat (x - (sp - 4)) < 4" using that by (simp add: in_range_def word_less_nat_alt)
      moreover have e: "sp - 4 - 1 - x = - 1 - (x - (sp - 4))" by simp
      moreover have "unat (sp - 4 - 1 - x) = unat (- 1 :: addr) - unat (x - (sp - 4))"
        unfolding e by (rule unat_sub) simp
      moreover have "unat (- 1 :: addr) = 4294967295"
        by (simp add: unsigned_minus_1_eq_mask mask_eq_exp_minus_1)
      ultimately show "\<not> unat (sp - 4 - 1 - x) < 4 * length ws"
        using Cons.prems(2) by (simp only: list.size)
    qed
    then have "load32 (snd (push_words (store32 m (sp - 4) w) (sp - 4) ws)) (sp - 4) = w"
      by (subst load32_cong [where m' = "store32 m (sp - 4) w"]) simp_all
    with 0 show ?thesis by simp
  next
    case (Suc j)
    then have e: "sp - 4 * (of_nat i + 1) = (sp - 4) - 4 * (of_nat j + 1)" by (simp add: algebra_simps)
    have "j < length ws" "length ws < 1000" using Cons.prems Suc by simp_all
    then show ?thesis unfolding e using Cons.IH [of j "store32 m (sp - 4) w" "sp - 4"] Suc
      by (simp only: push_words.simps nth_Cons_Suc)
  qed
qed simp

text \<open>What 14 pushed words look like when they are popped.\<close>

definition frame_of :: "addr \<Rightarrow> uint32 list \<Rightarrow> cpu" where
  "frame_of sp ws =
     \<lparr>r_eax = ws ! 3, r_ebx = ws ! 4, r_ecx = ws ! 5, r_edx = ws ! 6, r_esi = ws ! 7, r_edi = ws ! 8,
      r_ebp = ws ! 9, r_esp = sp, r_ds = ws ! 10, r_es = ws ! 11, r_fs = ws ! 12, r_gs = ws ! 13,
      r_eip = ws ! 2, r_cs = ws ! 1, r_eflags = ws ! 0\<rparr>"

lemma pop_push:
  assumes "length ws = 14"
  shows "pop_frame (snd (push_words m sp ws)) (sp - 56) = frame_of sp ws"
proof -
  have "load32 (snd (push_words m sp ws)) (sp - 56 + w) = ws ! i"
    if "i < 14" "w = 52 - 4 * of_nat i" for i w
  proof -
    have "sp - 56 + w = sp - 4 * (of_nat i + 1)" using that(2) by (simp add: algebra_simps)
    with push_words_read [of i ws m sp] that assms show ?thesis by (simp only:)
  qed
  from this [of 13 0] this [of 12 4] this [of 11 8] this [of 10 12] this [of 9 16] this [of 8 20]
    this [of 7 24] this [of 6 28] this [of 5 32] this [of 4 36] this [of 3 40] this [of 2 44]
    this [of 1 48] this [of 0 52]
  show ?thesis by (simp add: pop_frame_def frame_of_def)
qed

lemma pop_frame_cong:
  assumes "\<And>y. in_range sp 56 y \<Longrightarrow> m' y = m y"
  shows "pop_frame m' sp = pop_frame m sp"
proof -
  have "load32 m' (sp + w) = load32 m (sp + w)" if "unat w + 4 \<le> 56" for w
  proof (rule load32_cong [OF assms])
    fix y assume "in_range (sp + w) 4 y"
    then have u: "unat (y - (sp + w)) < 4" by (simp add: in_range_def word_less_nat_alt)
    have "y - sp = (y - (sp + w)) + w" by simp
    then have "unat (y - sp) = unat (y - (sp + w)) + unat w"
      using unat_add_small [of "y - (sp + w)" w] u that by simp
    with u that show "in_range sp 56 y" by (simp add: in_range_def word_less_nat_alt)
  qed
  from this [of 0] this [of 4] this [of 8] this [of 12] this [of 16] this [of 20] this [of 24]
    this [of 28] this [of 32] this [of 36] this [of 40] this [of 44] this [of 48] this [of 52]
  show ?thesis by (simp add: pop_frame_def)
qed

section \<open>Searching the ring\<close>

lemma running_loop_segment:
  "segment (p_nexts s) (p_prevs s) p ys orig \<Longrightarrow> orig \<notin> set ys \<Longrightarrow>
    running_loop pid orig p s = Some (\<exists>q \<in> set (p # ys). p_pid (procs s q) = pid)"
proof (induction ys arbitrary: p)
  case Nil
  then show ?case by (subst running_loop.simps) simp
next
  case (Cons y ys)
  then show ?case by (subst running_loop.simps) (auto simp: Let_def)
qed

lemma kill_loop_segment:
  "segment (p_nexts s) (p_prevs s) p ys orig \<Longrightarrow> orig \<notin> set ys \<Longrightarrow>
    kill_loop pid orig p s = Some (case find (\<lambda>q. p_pid (procs s q) = pid) (p # ys) of
      None \<Rightarrow> s | Some q \<Rightarrow> set_zombie q s)"
proof (induction ys arbitrary: p)
  case Nil
  then show ?case by (subst kill_loop.simps) simp
next
  case (Cons y ys)
  then show ?case by (subst kill_loop.simps) (auto simp: Let_def)
qed

lemma is_pid_running_ring:
  "task_ring s xs \<Longrightarrow> is_pid_running pid s =
    Some (\<exists>q \<in> set (cur s # xs). p_pid (procs s q) = pid, tasks_set_task 1 (tasks_set_task 0 s))"
  unfolding is_pid_running_def Let_def task_ring_def is_ring_def
  by (subst running_loop_segment [where ys = xs]) auto

lemma kill_loop_ring:
  "task_ring s xs \<Longrightarrow> kill_loop pid (cur s) (cur s) s =
    Some (case find (\<lambda>q. p_pid (procs s q) = pid) (cur s # xs) of None \<Rightarrow> s | Some q \<Rightarrow> set_zombie q s)"
  unfolding task_ring_def is_ring_def by (intro kill_loop_segment) auto

section \<open>The invariant of the process table\<close>

text \<open>
  The memory that belongs to the processes: a structure and a stack each. Nothing else may own
  it, nor the descriptors of the pages.
\<close>

definition proc_blocks :: "task_state \<Rightarrow> addr \<Rightarrow> (addr \<times> uint32) list" where
  "proc_blocks s p = [(p, 40), (p_stacktop (procs s p), 4096)]"

definition task_blocks :: "task_state \<Rightarrow> addr list \<Rightarrow> (addr \<times> uint32) list" where
  "task_blocks s ps = (pheap_desc (kmem s), 32) # concat (map (proc_blocks s) ps)"

definition pids_ok :: "task_state \<Rightarrow> addr list \<Rightarrow> bool" where
  "pids_ok s ps \<longleftrightarrow> distinct (map (\<lambda>p. p_pid (procs s p)) ps) \<and>
     (\<forall>p \<in> set ps. p_pid (procs s p) \<le> lpid s) \<and> (\<exists>p \<in> set ps. p_pid (procs s p) = 1)"

text \<open>The 14 words that a switch to \<open>p\<close> pops lie in its stack.\<close>

definition frame_ok :: "task_state \<Rightarrow> addr \<Rightarrow> bool" where
  "frame_ok s p \<longleftrightarrow> unat (p_esp (procs s p) - p_stacktop (procs s p)) + 56 \<le> 4096"

definition tasks_inv :: "task_state \<Rightarrow> addr list \<Rightarrow> bool" where
  "tasks_inv s xs \<longleftrightarrow> task_ring s xs \<and> pages_ok (kmem s) \<and> holds (kmem s) (task_blocks s (cur s # xs)) \<and>
     pids_ok s (cur s # xs) \<and> (\<forall>p \<in> set xs. frame_ok s p)"

text \<open>The running process has room on its own stack for what an interrupt pushes.\<close>

definition esp_ok :: "(cpu \<Rightarrow> uint32 list) \<Rightarrow> task_state \<Rightarrow> bool" where
  "esp_ok pro s \<longleftrightarrow> pro (cpu s) \<noteq> [] \<and>
     unat (r_esp (cpu s) - p_stacktop (procs s (cur s))) \<le> 4096 \<and>
     4 * length (saved_words pro (cpu s)) \<le> unat (r_esp (cpu s) - p_stacktop (procs s (cur s)))"

lemma task_blocks_perm:
  "mset ps = mset qs \<Longrightarrow> mset (task_blocks s ps) = mset (task_blocks s qs)"
proof -
  have "mset (concat (map f ps)) = (\<Sum>p\<in>#mset ps. mset (f p))" for f :: "addr \<Rightarrow> (addr \<times> uint32) list" and ps
    by (induction ps) auto
  then show "mset ps = mset qs \<Longrightarrow> ?thesis" by (simp add: task_blocks_def)
qed

lemma holds_rotate:
  "holds h (task_blocks s (a # x # xs)) \<Longrightarrow> holds h (task_blocks s (x # xs @ [a]))"
  by (erule holds_perm, rule task_blocks_perm) simp

lemma pids_ok_perm: "pids_ok s ps \<Longrightarrow> mset ps = mset qs \<Longrightarrow> pids_ok s qs"
  using mset_eq_imp_distinct_iff [of "map (\<lambda>p. p_pid (procs s p)) ps" "map (\<lambda>p. p_pid (procs s p)) qs"]
    mset_eq_setD [of ps qs] by (simp add: pids_ok_def)

lemma pids_ok_cong:
  "lpid s' = lpid s \<Longrightarrow> (\<And>p. p \<in> set ps \<Longrightarrow> p_pid (procs s' p) = p_pid (procs s p)) \<Longrightarrow>
    pids_ok s' ps = pids_ok s ps"
  by (simp add: pids_ok_def cong: map_cong)

lemma task_blocks_cong:
  "pheap_desc (kmem s') = pheap_desc (kmem s) \<Longrightarrow>
    (\<And>p. p \<in> set ps \<Longrightarrow> p_stacktop (procs s' p) = p_stacktop (procs s p)) \<Longrightarrow>
    task_blocks s' ps = task_blocks s ps"
  by (simp add: task_blocks_def proc_blocks_def cong: map_cong)

lemma frame_ok_cong:
  "p_esp (procs s' p) = p_esp (procs s p) \<Longrightarrow> p_stacktop (procs s' p) = p_stacktop (procs s p) \<Longrightarrow>
    frame_ok s' p = frame_ok s p"
  by (simp add: frame_ok_def)

text \<open>The pushes stay in the stack.\<close>

lemma pushes_in_stack:
  assumes "unat (sp - st) \<le> 4096" and "4 * length ws \<le> unat (sp - st)" and "\<not> in_range st 4096 y"
  shows "snd (push_words m sp ws) y = m y"
proof (rule push_words_other, rule notI)
  define d where "d = sp - 1 - y"
  assume "unat (sp - 1 - y) < 4 * length ws"
  then have d: "unat d < unat (sp - st)" using assms(2) by (simp add: d_def)
  have "y - st = (sp - st) - (1 + d)" by (simp add: d_def)
  moreover have "unat (1 + d) = unat d + 1"
    using d assms(1) unat_add_small [of 1 d] by simp
  moreover have "1 + d \<le> sp - st" using d calculation(2) by (simp add: word_le_nat_alt)
  ultimately have "unat (y - st) = unat (sp - st) - (unat d + 1)" using unat_sub by metis
  with assms(1,3) d show False by (simp add: in_range_def word_less_nat_alt)
qed

subsection \<open>The switch keeps it\<close>

definition sched_mem :: "(cpu \<Rightarrow> uint32 list) \<Rightarrow> task_state \<Rightarrow> mem" where
  "sched_mem pro s = snd (push_words (ram (kmem s)) (r_esp (cpu s)) (saved_words pro (cpu s)))"

definition sched_sp :: "(cpu \<Rightarrow> uint32 list) \<Rightarrow> task_state \<Rightarrow> addr" where
  "sched_sp pro s = r_esp (cpu s) - 4 * of_nat (length (saved_words pro (cpu s)))"

lemma schedule_eq:
  "schedule pro s =
     (let n = p_nexts s (cur s); ps = (procs s)(cur s := (procs s (cur s))\<lparr>p_esp := sched_sp pro s\<rparr>)
      in s\<lparr>kmem := (kmem s)\<lparr>ram := sched_mem pro s\<rparr>, procs := ps, cur := n, cr3 := p_cr3 (ps n),
           cpu := pop_frame (sched_mem pro s) (p_esp (ps n))\<rparr>)"
  using push_words_sp [of "ram (kmem s)" "r_esp (cpu s)" "saved_words pro (cpu s)"]
  by (auto simp: schedule_def sched_mem_def sched_sp_def Let_def p_nexts_def split: prod.split)

lemma schedule_fields:
  "kmem (schedule pro s) = (kmem s)\<lparr>ram := sched_mem pro s\<rparr>"
  "p_esp (procs (schedule pro s) q) = (if q = cur s then sched_sp pro s else p_esp (procs s q))"
  "cpu (schedule pro s) = pop_frame (sched_mem pro s) (p_esp (procs (schedule pro s) (p_nexts s (cur s))))"
  by (simp_all add: schedule_eq Let_def)

lemma saved_words_length: "length (saved_words pro r) = 13 + length (pro r)"
  by (simp add: saved_words_def)

lemma sched_frame_ok:
  assumes "esp_ok pro s"
  shows "frame_ok (schedule pro s) (cur s)"
proof -
  let ?st = "p_stacktop (procs s (cur s))" and ?n = "length (saved_words pro (cpu s))"
  have n: "unat (4 * of_nat ?n :: addr) = 4 * ?n" and "14 \<le> ?n"
    using assms by (cases "pro (cpu s)"; auto simp: esp_ok_def unat_word_ariths unsigned_of_nat take_bit_eq_mod
        saved_words_length)+
  have "sched_sp pro s - ?st = (r_esp (cpu s) - ?st) - 4 * of_nat ?n" by (simp add: sched_sp_def)
  moreover have "(4 * of_nat ?n :: addr) \<le> r_esp (cpu s) - ?st"
    using assms n unfolding word_le_nat_alt by (simp add: esp_ok_def)
  ultimately have "unat (sched_sp pro s - ?st) = unat (r_esp (cpu s) - ?st) - 4 * ?n"
    using n unat_sub by metis
  with assms \<open>14 \<le> ?n\<close> show ?thesis
    unfolding frame_ok_def schedule_fields schedule_simps esp_ok_def by simp linarith
qed

lemma sched_mem_same:
  "esp_ok pro s \<Longrightarrow> \<not> in_range (p_stacktop (procs s (cur s))) 4096 y \<Longrightarrow> sched_mem pro s y = ram (kmem s) y"
  unfolding sched_mem_def by (rule pushes_in_stack) (auto simp: esp_ok_def)

lemma task_blocks_mem:
  "p \<in> set ps \<Longrightarrow> (p, 40) \<in> set (task_blocks s ps) \<and> (p_stacktop (procs s p), 4096) \<in> set (task_blocks s ps)"
  by (auto simp: task_blocks_def proc_blocks_def)

text \<open>Two processes have different stacks, and none is that of the page descriptors.\<close>

lemma stacks_differ:
  assumes "holds h (task_blocks s ps)" and "p \<in> set ps" and "q \<in> set ps" and "p \<noteq> q"
  shows "p_stacktop (procs s p) \<noteq> p_stacktop (procs s q)"
proof -
  have "mset ps = mset (p # q # remove1 q (remove1 p ps))"
  proof -
    have "q \<in> set (remove1 p ps)" using assms(3,4) by (simp add: in_set_remove1)
    then have "q \<in># mset ps - {#p#}" by (metis mset_remove1 set_mset_mset)
    then obtain B where "mset ps - {#p#} = add_mset q B" by (blast dest: multi_member_split)
    then have "mset ps = add_mset p (add_mset q B)" using assms(2) by (metis insert_DiffM set_mset_mset)
    then show ?thesis by simp
  qed
  from holds_perm [OF assms(1) task_blocks_perm [OF this]] show ?thesis
    by (simp add: holds_def task_blocks_def proc_blocks_def)
qed

lemma schedule_inv:
  assumes inv: "tasks_inv s (x # xs)" and esp: "esp_ok pro s"
  shows "tasks_inv (schedule pro s) (xs @ [cur s])"
proof -
  let ?s = "schedule pro s"
  have ring: "task_ring s (x # xs)" and h: "holds (kmem s) (task_blocks s (cur s # x # xs))"
    and pids: "pids_ok s (cur s # x # xs)" and fr: "\<forall>p \<in> set (x # xs). frame_ok s p"
    and pages: "pages_ok (kmem s)"
    using inv by (auto simp: tasks_inv_def)
  have nx: "cur ?s = x" using ring by (simp add: schedule_simps task_ring_def ring_next)
  have notin: "cur s \<notin> set (x # xs)" using ring by (simp add: task_ring_def is_ring_def)
  have "holds (kmem ?s) (task_blocks s (cur s # x # xs))"
    unfolding schedule_fields
    using holds_write [OF h holds_block [OF h], of "p_stacktop (procs s (cur s))" 4096 "sched_mem pro s"]
      sched_mem_same [OF esp] task_blocks_mem [of "cur s" "cur s # x # xs" s] by auto
  then have "holds (kmem ?s) (task_blocks s (x # xs @ [cur s]))" by (rule holds_rotate)
  moreover have "task_blocks ?s (x # xs @ [cur s]) = task_blocks s (x # xs @ [cur s])"
    by (rule task_blocks_cong) (simp_all add: schedule_fields schedule_simps)
  moreover have "pids_ok ?s (x # xs @ [cur s])"
    using pids_ok_perm [OF pids, of "x # xs @ [cur s]"] pids_ok_cong [of ?s s "x # xs @ [cur s]"]
    by (simp add: schedule_simps)
  moreover have "frame_ok ?s p" if "p \<in> set (xs @ [cur s])" for p
  proof (cases "p = cur s")
    case False
    with that fr show ?thesis using frame_ok_cong [of ?s p s] by (simp add: schedule_fields schedule_simps)
  qed (simp add: sched_frame_ok [OF esp])
  moreover have "task_ring ?s (xs @ [cur s])" using schedule_ring [OF ring, of pro] by simp
  ultimately show ?thesis using pages nx by (simp add: tasks_inv_def schedule_fields pages_ok_def)
qed

subsection \<open>A new process keeps it\<close>

definition fresh_cpu :: "uint32 \<Rightarrow> uint32 \<Rightarrow> cpu" where
  "fresh_cpu addr stk_end =
     \<lparr>r_eax = 0, r_ebx = 0, r_ecx = 0, r_edx = 0, r_esi = 0, r_edi = 0, r_ebp = stk_end, r_esp = stk_end,
      r_ds = 0x10, r_es = 0x10, r_fs = 0x10, r_gs = 0x10, r_eip = addr, r_cs = 0x8, r_eflags = 0x202\<rparr>"

definition new_process :: "addr \<Rightarrow> uint32 \<Rightarrow> uint32 \<Rightarrow> uint32 \<Rightarrow> uint32 \<Rightarrow> addr \<Rightarrow> process" where
  "new_process name pid addr notified cr st =
     \<lparr>p_prev = 0, p_name = name, p_pid = pid, p_esp = st + 4096 - 56, p_stacktop = st, p_eip = addr,
      p_cr3 = cr, p_state = 0, p_notify = notified, p_next = 0\<rparr>"

lemma createProcess_result:
  assumes "createProcess nt name addr s = Some (Ret p, s')"
  obtains h1 st h3 where "malloc (kmem s) 40 = Some (Ret p, h1)"
    and "malloc (h1\<lparr>ram := memset (ram h1) p 0 40\<rparr>) 4096 = Some (Ret st, h3)"
    and "s' = s\<lparr>kmem := h3\<lparr>ram := snd (push_words (ram h3) (st + 4096) (first_words addr (st + 4096)))\<rparr>,
      lpid := lpid s + 1, procs := (procs s)(p := new_process name (lpid s + 1) addr nt (cr3 s) st)\<rparr>"
proof -
  have sp: "fst (push_words m (st + 4096) (first_words addr (st + 4096))) = st + 4096 - 56" for m st
    using push_words_sp [of m "st + 4096" "first_words addr (st + 4096)"] by (simp add: first_words_def)
  obtain h1 where 1: "malloc (kmem s) 40 = Some (Ret p, h1)"
    using assms by (auto simp: createProcess_def on_heap_def Let_def split: option.splits outcome.splits prod.splits)
  obtain r2 where 2: "malloc (h1\<lparr>ram := memset (ram h1) p 0 40\<rparr>) 4096 = Some r2"
    using assms 1 by (auto simp: createProcess_def on_heap_def Let_def split: option.splits)
  obtain st h3 where 3: "r2 = (Ret st, h3)"
    using assms 1 2 by (cases r2; cases "fst r2") (auto simp: createProcess_def on_heap_def Let_def)
  show thesis
    using that [OF 1] 2 assms 1 sp [of "ram h3" st] unfolding 3
    by (cases "push_words (ram h3) (st + 4096) (first_words addr (st + 4096))")
      (auto simp: createProcess_def on_heap_def Let_def new_process_def zero_process_def
        PROCESS_STATE_ALIVE_def)
qed

lemma createProcess_holds:
  assumes A: "holds (kmem s) A" and cp: "createProcess nt name addr s = Some (Ret p, s')"
  shows "\<exists>st. holds (kmem s') ([(p, 40), (st, 4096)] @ A) \<and>
    (\<forall>a n y. (a, n) \<in> set A \<longrightarrow> in_range a n y \<longrightarrow> ram (kmem s') y = ram (kmem s) y) \<and>
    pheap_desc (kmem s') = pheap_desc (kmem s) \<and> pages_ok (kmem s') = pages_ok (kmem s) \<and>
    pop_frame (ram (kmem s')) (st + 4096 - 56) = fresh_cpu addr (st + 4096) \<and>
    procs s' = (procs s)(p := new_process name (lpid s + 1) addr nt (cr3 s) st) \<and> lpid s' = lpid s + 1 \<and>
    cur s' = cur s \<and> tasking_on s' = tasking_on s \<and> pit s' = pit s \<and> cpu s' = cpu s"
  using cp
proof (cases rule: createProcess_result)
  case (1 h1 st h3)
  have sz: "size_ok 40" "size_ok 4096" by (simp_all add: size_ok_def)
  let ?m2 = "memset (ram h1) p 0 40" and ?ws = "first_words addr (st + 4096)"
  let ?m3 = "snd (push_words (ram h3) (st + 4096) ?ws)"
  note a1 = holds_alloc [OF A sz(1) 1(1)]
  have b1: "owned_block h1 p 40" using holds_block [of h1 "(p, 40) # A" p 40] a1 by simp
  have w1: "holds (h1\<lparr>ram := ?m2\<rparr>) ((p, 40) # A)"
    and same2: "\<And>a n y. (a, n) \<in> set A \<Longrightarrow> in_range a n y \<Longrightarrow> ?m2 y = ram h1 y"
  proof -
    note w = holds_write [OF conjunct1 [OF a1] b1, of ?m2]
    then show "holds (h1\<lparr>ram := ?m2\<rparr>) ((p, 40) # A)" by (auto simp: memset_apply)
    fix a n y assume *: "(a, n) \<in> set A" "in_range a n y"
    then have "owned_block h1 a n" using holds_block [of h1 "(p, 40) # A" a n] a1 by simp
    moreover have "a \<noteq> p" using holds_head_fresh [OF conjunct1 [OF a1]] * by blast
    ultimately show "?m2 y = ram h1 y" using w * by (auto simp: memset_apply)
  qed
  note a2 = holds_alloc [OF w1 sz(2) 1(2)]
  have b2: "owned_block h3 st 4096" using holds_block [of h3 "(st, 4096) # (p, 40) # A" st 4096] a2 by simp
  have out: "\<not> in_range st 4096 y \<Longrightarrow> ?m3 y = ram h3 y" for y
    by (rule pushes_in_stack [of _ st]) (simp_all add: first_words_def)
  note w2 = holds_write [OF conjunct1 [OF a2] b2 out]
  have "?m3 y = ram (kmem s) y" if "(a, n) \<in> set A" "in_range a n y" for a n y
  proof -
    have "owned_block h3 a n"
      using holds_block [of h3 "(st, 4096) # (p, 40) # A" a n] a2 that by simp
    moreover have "a \<noteq> st" using holds_head_fresh [OF conjunct1 [OF a2], of a n] that by simp
    ultimately have "?m3 y = ram h3 y" using w2 that by blast
    also have "\<dots> = ?m2 y" using a2 that by auto
    also have "\<dots> = ram h1 y" using same2 that by blast
    also have "\<dots> = ram (kmem s) y" using a1 that by blast
    finally show ?thesis .
  qed
  moreover have "holds (h3\<lparr>ram := ?m3\<rparr>) ((p, 40) # (st, 4096) # A)"
    using w2 by (auto intro: holds_perm [where A = "(st, 4096) # (p, 40) # A"])
  moreover have "pop_frame ?m3 (st + 4096 - 56) = fresh_cpu addr (st + 4096)"
    using pop_push [of ?ws "ram h3" "st + 4096"]
    by (simp add: first_words_def frame_of_def fresh_cpu_def)
  ultimately show ?thesis
    using 1 malloc_fields [OF 1(1)] malloc_fields [OF 1(2)]
    by (intro exI [of _ st]) (simp add: pages_ok_def)
qed

text \<open>The processes \<open>ps\<close> and their stacks are as they were.\<close>

definition stacks_kept :: "task_state \<Rightarrow> task_state \<Rightarrow> addr list \<Rightarrow> bool" where
  "stacks_kept s s' ps \<longleftrightarrow> (\<forall>p \<in> set ps. p_stacktop (procs s' p) = p_stacktop (procs s p) \<and>
     p_esp (procs s' p) = p_esp (procs s p) \<and> p_pid (procs s' p) = p_pid (procs s p) \<and>
     p_state (procs s' p) = p_state (procs s p) \<and>
     (\<forall>y. in_range (p_stacktop (procs s p)) 4096 y \<longrightarrow> ram (kmem s') y = ram (kmem s) y))"

lemma is_ring_frame:
  "is_ring nx pv a xs \<Longrightarrow> (\<And>x. x \<in> set (a # xs) \<Longrightarrow> nx' x = nx x \<and> pv' x = pv x) \<Longrightarrow> is_ring nx' pv' a xs"
  unfolding is_ring_def by (auto intro: segment_frame)

lemma addProcess_fields:
  "addProcess p s = (p_pid (procs s p), tasks_set_task 1 (addProcess_unlocked p (tasks_set_task 0 s)))"
  by (simp add: addProcess_def addProcess_unlocked_def Let_def)

lemma start_process_inv:
  assumes inv: "tasks_inv s xs" and max: "lpid s \<noteq> - 1"
    and sp: "start_process nt name addr s = Some (Ret pid, s')"
  obtains p st where "tasks_inv s' (p # xs)" and "pid = lpid s + 1" and "lpid s' = lpid s + 1"
    and "cur s' = cur s" and "cpu s' = cpu s" and "tasking_on s' = tasking_on s" and "p_pid (procs s' p) = pid"
    and "p_stacktop (procs s' p) = st" and "p_state (procs s' p) = PROCESS_STATE_ALIVE"
    and "pop_frame (ram (kmem s')) (p_esp (procs s' p)) = fresh_cpu addr (st + 4096)"
    and "stacks_kept s s' (cur s # xs)"
proof -
  let ?A = "task_blocks s (cur s # xs)"
  have ring: "task_ring s xs" and A: "holds (kmem s) ?A" and pages: "pages_ok (kmem s)"
    and pids: "pids_ok s (cur s # xs)" and fr: "\<forall>p \<in> set xs. frame_ok s p"
    using inv by (auto simp: tasks_inv_def)
  obtain p s1 where cp: "createProcess nt name addr s = Some (Ret p, s1)"
    and s': "s' = tasks_set_task 1 (addProcess_unlocked p (tasks_set_task 0 s1))" and pid: "pid = p_pid (procs s1 p)"
    using sp by (auto simp: start_process_def addProcess_fields split: option.splits outcome.splits prod.splits)
  obtain st where h1: "holds (kmem s1) ([(p, 40), (st, 4096)] @ ?A)"
    and keep: "\<And>a n y. (a, n) \<in> set ?A \<Longrightarrow> in_range a n y \<Longrightarrow> ram (kmem s1) y = ram (kmem s) y"
    and desc: "pheap_desc (kmem s1) = pheap_desc (kmem s)" "pages_ok (kmem s1) = pages_ok (kmem s)"
    and frame: "pop_frame (ram (kmem s1)) (st + 4096 - 56) = fresh_cpu addr (st + 4096)"
    and procs1: "procs s1 = (procs s)(p := new_process name (lpid s + 1) addr nt (cr3 s) st)"
    and rest: "lpid s1 = lpid s + 1" "cur s1 = cur s" "tasking_on s1 = tasking_on s" "cpu s1 = cpu s"
    using createProcess_holds [OF A cp] by metis
  have fresh: "p \<notin> set (cur s # xs)"
  proof
    assume "p \<in> set (cur s # xs)"
    then have "p \<in> fst ` set ?A" using task_blocks_mem [of p "cur s # xs" s] by force
    with h1 show False by (simp add: holds_def)
  qed
  have "task_ring s1 xs"
    using ring fresh unfolding task_ring_def rest(2)
    by (rule_tac is_ring_frame [of "p_nexts s" "p_prevs s"]) (auto simp: p_nexts_def p_prevs_def procs1)
  then have ring': "task_ring s' (p # xs)"
    using addProcess_unlocked_ring [of "tasks_set_task 0 s1" xs p] fresh rest(2) by (simp add: s')
  have same [simp]: "cur s' = cur s" "lpid s' = lpid s + 1" "kmem s' = kmem s1" "cpu s' = cpu s"
    "p_pid (procs s' q) = p_pid (procs s1 q)" "p_stacktop (procs s' q) = p_stacktop (procs s1 q)"
    "p_esp (procs s' q) = p_esp (procs s1 q)" "p_state (procs s' q) = p_state (procs s1 q)"
    "tasking_on s' = tasking_on s" for q
    by (simp_all add: s' addProcess_unlocked_def Let_def rest)
  have old: "procs s1 q = procs s q" if "q \<in> set (cur s # xs)" for q using that fresh by (auto simp: procs1)
  have st: "st = p_stacktop (procs s1 p)" and new: "p_pid (procs s1 p) = lpid s + 1" "p_esp (procs s1 p) = st + 4096 - 56"
    "p_state (procs s1 p) = 0"
    by (simp_all add: procs1 new_process_def)
  have "mset (task_blocks s' (cur s # p # xs)) = mset (task_blocks s' (p # cur s # xs))"
    by (rule task_blocks_perm) simp
  also have "mset (task_blocks s' (p # cur s # xs)) = mset ([(p, 40), (st, 4096)] @ ?A)"
    using task_blocks_cong [of s' s "cur s # xs"] old st desc
    by (simp add: task_blocks_def proc_blocks_def)
  finally have "holds (kmem s') (task_blocks s' (cur s # p # xs))"
    using h1 by (simp only: same) (erule holds_perm, simp)
  moreover have "pids_ok s' (cur s # p # xs)"
  proof -
    have "1 + lpid s \<noteq> 0" using max by (auto simp: add_eq_0_iff)
    then have "unat (lpid s + 1) = Suc (unat (lpid s))" by (simp add: unatSuc add.commute)
    then have lt: "p_pid (procs s q) < lpid s + 1" if "q \<in> set (cur s # xs)" for q
      using that pids by (auto simp: pids_ok_def word_less_nat_alt word_le_nat_alt less_Suc_eq_le)
    have ne: "lpid s + 1 \<noteq> p_pid (procs s q)" and le: "p_pid (procs s q) \<le> lpid s + 1"
      if "q \<in> set (cur s # xs)" for q
      using lt [OF that] by auto
    let ?f = "\<lambda>q. p_pid (procs s q)" and ?g = "\<lambda>q. p_pid (procs s' q)"
    have g: "?g q = ?f q" if "q \<in> set (cur s # xs)" for q using old [OF that] by simp
    then have maps: "map ?g (cur s # p # xs) = ?f (cur s) # (lpid s + 1) # map ?f xs" by (simp add: new)
    have "?f (cur s) \<noteq> lpid s + 1" using ne [of "cur s"] by (metis list.set_intros(1))
    then have "distinct (map ?g (cur s # p # xs))"
      unfolding maps using pids ne by (auto simp: pids_ok_def)
    moreover have "?g q \<le> lpid s'" if "q \<in> set (cur s # p # xs)" for q
      using that g le by (cases "q = p") (auto simp: new)
    moreover have "\<exists>q \<in> set (cur s # p # xs). ?g q = 1"
      using pids g unfolding pids_ok_def by auto
    ultimately show ?thesis by (simp only: pids_ok_def) blast
  qed
  moreover have "frame_ok s' q" if "q \<in> set (p # xs)" for q
    using that fr old by (auto simp: frame_ok_def new st [symmetric])
  moreover have "stacks_kept s s' (cur s # xs)"
    unfolding stacks_kept_def same using old keep task_blocks_mem [of _ "cur s # xs" s] by metis
  ultimately show thesis
    using ring' pages desc frame pid new st by (intro that [of p st]) (simp_all add: tasks_inv_def PROCESS_STATE_ALIVE_def)
qed

lemma schedule_stacks_kept:
  assumes inv: "tasks_inv s (x # xs)" and esp: "esp_ok pro s"
  shows "stacks_kept s (schedule pro s) (x # xs)"
proof -
  let ?ps = "cur s # x # xs"
  have h: "holds (kmem s) (task_blocks s ?ps)" and notin: "cur s \<notin> set (x # xs)"
    using inv by (auto simp: tasks_inv_def task_ring_def is_ring_def)
  have "sched_mem pro s y = ram (kmem s) y"
    if p: "p \<in> set (x # xs)" and y: "in_range (p_stacktop (procs s p)) 4096 y" for p y
  proof -
    have "p_stacktop (procs s p) \<noteq> p_stacktop (procs s (cur s))"
      using stacks_differ [OF h, of p "cur s"] p notin by auto
    moreover have "owned_block (kmem s) (p_stacktop (procs s q)) 4096" if "q \<in> set ?ps" for q
      using holds_block [OF h] task_blocks_mem [OF that] by blast
    ultimately show ?thesis
      using holds_write [OF h, of "p_stacktop (procs s (cur s))" 4096 "sched_mem pro s"]
        sched_mem_same [OF esp] p y
      by (metis (no_types, lifting) list.set_intros(1) list.set_intros(2))
  qed
  with notin show ?thesis by (auto simp: stacks_kept_def schedule_fields schedule_simps)
qed

subsection \<open>The end of a process keeps it\<close>

lemma stack_not_desc:
  assumes "holds h (task_blocks s ps)" and "p \<in> set ps"
  shows "p_stacktop (procs s p) \<noteq> pheap_desc (kmem s)"
proof -
  have "(p_stacktop (procs s p), 4096) \<in> set (concat (map (proc_blocks s) ps))"
    using assms(2) by (auto simp: proc_blocks_def)
  then have "p_stacktop (procs s p) \<in> fst ` set (concat (map (proc_blocks s) ps))"
    by (simp add: image_iff del: set_concat) (metis fst_conv)
  moreover have "pheap_desc (kmem s) \<notin> fst ` set (concat (map (proc_blocks s) ps))"
    using assms(1) by (simp add: holds_def task_blocks_def del: set_concat)
  ultimately show ?thesis by metis
qed

lemma kill_current_inv:
  assumes inv: "tasks_inv s (x # xs)" and esp: "esp_ok pro s" and on: "tasking_on s"
    and ok: "p_pid (procs s (cur s)) \<noteq> 1"
  shows "\<exists>s'. kill_current pro s = (Ret (), s') \<and> tasks_inv s' xs \<and> cur s' = x \<and>
    stacks_kept s s' (x # xs) \<and> cpu s' = pop_frame (ram (kmem s')) (p_esp (procs s x)) \<and>
    heap_live (kmem s') = {b \<in> heap_live (kmem s). fst b \<noteq> cur s \<and> fst b \<noteq> p_stacktop (procs s (cur s))} \<and>
    lpid s' = lpid s"
proof -
  let ?c = "cur s" and ?st = "p_stacktop (procs s (cur s))" and ?B = "task_blocks s (x # xs)"
  have ring: "task_ring s (x # xs)" and A: "holds (kmem s) (task_blocks s (?c # x # xs))"
    and pages: "pages_ok (kmem s)" and pids: "pids_ok s (?c # x # xs)" and fr: "\<forall>p \<in> set (x # xs). frame_ok s p"
    using inv by (auto simp: tasks_inv_def)
  have notin: "?c \<notin> set (x # xs)" using ring by (simp add: task_ring_def is_ring_def)
  define h1 h2 h3 where "h1 = free (kmem s) ?st" and "h2 = free h1 ?c" and "h3 = pfree h2 (p_cr3 (procs s ?c))"
  have B: "holds (kmem s) ((?st, 4096) # (?c, 40) # ?B)"
    by (rule holds_perm [OF A]) (simp add: task_blocks_def proc_blocks_def)
  note f1 = holds_free [OF B, folded h1_def]
  note f2 = holds_free [OF conjunct1 [OF f1], folded h2_def]
  have desc: "pheap_desc h2 = pheap_desc (kmem s)" and pages2: "pages_ok h2"
    using pages by (simp_all add: h1_def h2_def free_fields)
  have "(pheap_desc h2, 32) \<in> set ?B" by (simp add: task_blocks_def desc)
  note f3 = holds_pfree [OF conjunct1 [OF f2] pages2 this, of "p_cr3 (procs s ?c)", folded h3_def]
  define s6 where "s6 = tasks_set_task 1 (unlink_cur ((tasks_set_task 0 s)\<lparr>kmem := h3\<rparr>))"
  have kill: "kill_current pro s = (Ret (), schedule pro s6)"
    using ok on by (simp add: kill_current_def Let_def s6_def h1_def h2_def h3_def schedule_noirq_def
        unlink_cur_def)
  have same [simp]: "cur s6 = ?c" "kmem s6 = h3" "cpu s6 = cpu s" "lpid s6 = lpid s"
    "p_pid (procs s6 q) = p_pid (procs s q)" "p_esp (procs s6 q) = p_esp (procs s q)"
    "p_stacktop (procs s6 q) = p_stacktop (procs s q)" "p_state (procs s6 q) = p_state (procs s q)" for q
    by (simp_all add: s6_def unlink_cur_def Let_def)
  have ring6: "is_ring (p_nexts s6) (p_prevs s6) x xs" and nx: "p_nexts s6 ?c = x"
    using unlink_cur_ring [of "(tasks_set_task 0 s)\<lparr>kmem := h3\<rparr>" x xs] ring by (simp_all add: s6_def)
  have esp6: "esp_ok pro s6" using esp by (simp add: esp_ok_def)
  let ?s = "schedule pro s6" and ?m = "sched_mem pro s6"
  have "owned_block h3 ?st 4096" using f1 f2 f3 by blast
  note w = holds_write [OF conjunct1 [OF f3] this, of ?m]
  have out: "\<not> in_range ?st 4096 y \<Longrightarrow> ?m y = ram h3 y" for y
    using sched_mem_same [OF esp6, of y] by simp
  have blocks: "task_blocks ?s (x # xs) = ?B"
    using f3 desc by (intro task_blocks_cong) (simp_all add: schedule_fields schedule_simps)
  have "holds (kmem ?s) (task_blocks ?s (x # xs))"
    unfolding blocks schedule_fields same using w out by blast
  moreover have "pids_ok ?s (x # xs)"
  proof -
    have "pids_ok s (x # xs)" using pids ok by (auto simp: pids_ok_def)
    then show ?thesis using pids_ok_cong [of ?s s "x # xs"] by (simp add: schedule_simps)
  qed
  moreover have "frame_ok ?s p" if "p \<in> set xs" for p
    using that fr notin by (auto simp: frame_ok_def schedule_fields schedule_simps)
  moreover have "pages_ok (kmem ?s)" using f3 by (simp add: schedule_fields pages_ok_def)
  moreover have "task_ring ?s xs" using ring6 by (simp add: task_ring_def schedule_simps nx)
  ultimately have "tasks_inv ?s xs" by (simp add: tasks_inv_def schedule_simps nx)
  moreover have "?m y = ram (kmem s) y"
    if p: "p \<in> set (x # xs)" and y: "in_range (p_stacktop (procs s p)) 4096 y" for p y
  proof -
    have ne: "p_stacktop (procs s p) \<noteq> ?st" using stacks_differ [OF A, of p ?c] p notin by auto
    have mem: "(p_stacktop (procs s p), 4096) \<in> set ?B" using task_blocks_mem [OF p] by blast
    have nd: "p_stacktop (procs s p) \<noteq> pheap_desc h2"
      using stack_not_desc [OF A, of p] p desc by simp
    have o0: "owned_block (kmem s) (p_stacktop (procs s p)) 4096" using holds_block [OF B] mem by simp
    then have o1: "owned_block h1 (p_stacktop (procs s p)) 4096" using f1 by blast
    then have o2: "owned_block h2 (p_stacktop (procs s p)) 4096" using f2 by blast
    then have o3: "owned_block h3 (p_stacktop (procs s p)) 4096" using f3 by blast
    have "?m y = ram h3 y" using w out o3 ne y by blast
    also have "\<dots> = ram h2 y" using f3 o2 nd y by blast
    also have "\<dots> = ram h1 y" using f2 o1 y by blast
    also have "\<dots> = ram (kmem s) y" using f1 o0 y by blast
    finally show ?thesis .
  qed
  then have "stacks_kept s ?s (x # xs)"
    using notin by (auto simp: stacks_kept_def schedule_fields schedule_simps)
  moreover have "cpu ?s = pop_frame (ram (kmem ?s)) (p_esp (procs s x))"
    using notin by (auto simp: schedule_fields nx)
  moreover have "heap_live (kmem ?s) = {b \<in> heap_live (kmem s). fst b \<noteq> ?c \<and> fst b \<noteq> ?st}"
    using f1 f2 f3 w out by (auto simp: schedule_fields)
  ultimately show ?thesis using kill nx by (simp add: schedule_simps)
qed

subsection \<open>Zombies\<close>

lemma set_zombie_inv:
  assumes "tasks_inv s xs"
  shows "tasks_inv (set_zombie q s) xs"
proof -
  let ?s = "set_zombie q s"
  have [simp]: "cur ?s = cur s" "kmem ?s = kmem s" "lpid ?s = lpid s"
    "p_pid (procs ?s p) = p_pid (procs s p)" "p_stacktop (procs ?s p) = p_stacktop (procs s p)"
    "p_esp (procs ?s p) = p_esp (procs s p)" "p_nexts ?s = p_nexts s" "p_prevs ?s = p_prevs s" for p
    by (auto simp: set_zombie_def p_nexts_abs p_prevs_abs)
  have "task_blocks ?s (cur s # xs) = task_blocks s (cur s # xs)" by (rule task_blocks_cong) simp_all
  moreover have "pids_ok ?s (cur s # xs) = pids_ok s (cur s # xs)" by (rule pids_ok_cong) simp_all
  moreover have "frame_ok ?s p = frame_ok s p" for p by (rule frame_ok_cong) simp_all
  ultimately show ?thesis using assms by (simp add: tasks_inv_def task_ring_def)
qed

text \<open>\<open>kill\<close> of another process.\<close>

lemma kill_other:
  assumes inv: "tasks_inv s xs" and "pid \<noteq> 1" and "pid \<noteq> p_pid (procs s (cur s))"
  shows "kill pro pid s = Some (Ret (), case find (\<lambda>q. p_pid (procs s q) = pid) xs of
    None \<Rightarrow> s | Some q \<Rightarrow> set_zombie q s)"
  using assms kill_loop_ring [of s xs pid] by (simp add: kill_def tasks_inv_def)

lemma jack_visit_inv:
  assumes inv: "tasks_inv s xs" and q: "q \<in> set (cur s # xs)" and v: "jack_visit q s = (p, s')"
  shows "p = p_nexts s q \<and> (if p \<noteq> cur s \<and> p_state (procs s p) = PROCESS_STATE_ZOMBIE \<and> p_pid (procs s p) \<noteq> 1
      then \<exists>as bs. xs = as @ p # bs \<and> tasks_inv s' (as @ bs) \<and> cur s' = cur s \<and>
        heap_live (kmem s') = {b \<in> heap_live (kmem s). fst b \<noteq> p \<and> fst b \<noteq> p_stacktop (procs s p)}
      else p_state (procs s p) \<noteq> PROCESS_STATE_ZOMBIE \<longrightarrow> s' = s)"
proof (cases "p_nexts s q \<noteq> cur s \<and> p_state (procs s (p_nexts s q)) = PROCESS_STATE_ZOMBIE \<and>
    p_pid (procs s (p_nexts s q)) \<noteq> 1")
  case False
  with v show ?thesis by (auto simp: jack_visit_def Let_def split: if_splits)
next
  case True
  let ?c = "cur s"
  define r where "r = p_nexts s q"
  define st where "st = p_stacktop (procs s r)"
  have ring: "task_ring s xs" and A: "holds (kmem s) (task_blocks s (?c # xs))"
    and pages: "pages_ok (kmem s)" and pids: "pids_ok s (?c # xs)" and fr: "\<forall>p \<in> set xs. frame_ok s p"
    using inv by (auto simp: tasks_inv_def)
  have seg: "segment (p_nexts s) (p_prevs s) ?c xs ?c"
    using ring by (simp add: task_ring_def is_ring_def)
  have closed: "segment (p_nexts s) (p_prevs s) a ys b \<Longrightarrow> q' \<in> set (a # ys) \<Longrightarrow> p_nexts s q' \<in> set (ys @ [b])"
    for a ys b q' by (induction ys arbitrary: a) auto
  have "r \<in> set xs" using closed [OF seg, of q] q True by (auto simp: r_def)
  then obtain as bs where xs: "xs = as @ r # bs" by (auto simp: in_set_conv_decomp)
  let ?B = "task_blocks s (?c # as @ bs)"
  define h1 h2 where "h1 = free (kmem s) st" and "h2 = free h1 r"
  define s1 where "s1 = tasks_set_task 1 ((unlink_process r (tasks_set_task 0 s))\<lparr>kmem := h2\<rparr>)"
  have p: "p = r" and s': "s' = s1"
    using v True by (auto simp: jack_visit_def Let_def r_def [symmetric] s1_def h1_def h2_def st_def unlink_process_def)
  have "holds (kmem s) (task_blocks s (r # ?c # as @ bs))"
    by (rule holds_perm [OF A task_blocks_perm]) (simp add: xs)
  then have B: "holds (kmem s) ((st, 4096) # (r, 40) # ?B)"
    by (rule holds_perm) (simp add: task_blocks_def proc_blocks_def st_def)
  note f1 = holds_free [OF B, folded h1_def]
  note f2 = holds_free [OF conjunct1 [OF f1], folded h2_def]
  have [simp]: "cur s1 = ?c" "kmem s1 = h2" "lpid s1 = lpid s"
    "p_pid (procs s1 q) = p_pid (procs s q)" "p_esp (procs s1 q) = p_esp (procs s q)"
    "p_stacktop (procs s1 q) = p_stacktop (procs s q)" for q
    by (simp_all add: s1_def unlink_process_def Let_def)
  have "task_ring s1 (as @ bs)"
    using unlink_process_ring [of "tasks_set_task 0 s" ?c as r bs] ring
    by (simp add: task_ring_def xs s1_def) (simp add: unlink_process_def Let_def)
  moreover have "task_blocks s1 (?c # as @ bs) = ?B"
    by (rule task_blocks_cong) (simp_all add: h2_def h1_def free_fields)
  moreover have "pids_ok s1 (?c # as @ bs)"
    using pids True pids_ok_cong [of s1 s "?c # as @ bs"] by (auto simp: xs pids_ok_def r_def)
  moreover have "\<forall>p \<in> set (as @ bs). frame_ok s1 p" using fr by (auto simp: xs frame_ok_def)
  moreover have "pages_ok h2" using pages by (simp add: h2_def h1_def free_fields)
  ultimately have "tasks_inv s1 (as @ bs)" using f2 by (simp add: tasks_inv_def)
  moreover have "heap_live (kmem s1) = {b \<in> heap_live (kmem s). fst b \<noteq> r \<and> fst b \<noteq> st}"
    using f1 f2 by auto
  ultimately show ?thesis using p s' xs True by (auto simp: r_def st_def)
qed

section \<open>Reachable process tables\<close>

text \<open>
  What the kernel does to the process table: the running process works in its registers and its
  stack, processes start, a timer tick or \<open>schedule_noirq()\<close> switches, the running process ends,
  another one is killed, and somebody asks whether a process runs.
\<close>

inductive task_step :: "(cpu \<Rightarrow> uint32 list) \<Rightarrow> uint32 \<Rightarrow> task_state \<Rightarrow> task_state \<Rightarrow> bool" for pro nt where
  registers: "task_step pro nt s (s\<lparr>cpu := r\<rparr>)"
| own_stack: "in_range (p_stacktop (procs s (cur s))) 4096 y \<Longrightarrow>
    task_step pro nt s (s\<lparr>kmem := (kmem s)\<lparr>ram := (ram (kmem s))(y := v)\<rparr>\<rparr>)"
| start: "lpid s \<noteq> - 1 \<Longrightarrow> start_process nt name addr s = Some (Ret pid, t) \<Longrightarrow> task_step pro nt s t"
| switch: "esp_ok pro s \<Longrightarrow> task_step pro nt s (schedule_noirq pro s)"
| finish: "tasking_on s \<Longrightarrow> esp_ok pro s \<Longrightarrow> kill_current pro s = (Ret (), t) \<Longrightarrow> task_step pro nt s t"
| kill: "pid \<noteq> p_pid (procs s (cur s)) \<Longrightarrow> kill pro pid s = Some (Ret (), t) \<Longrightarrow> task_step pro nt s t"
| ask: "is_pid_running pid s = Some (b, t) \<Longrightarrow> task_step pro nt s t"

inductive task_reach :: "(cpu \<Rightarrow> uint32 list) \<Rightarrow> uint32 \<Rightarrow> task_state \<Rightarrow> task_state \<Rightarrow> bool" for pro nt s0 where
  here: "task_reach pro nt s0 s0"
| there: "task_reach pro nt s0 s \<Longrightarrow> task_step pro nt s t \<Longrightarrow> task_reach pro nt s0 t"

inductive_cases task_stepE: "task_step pro nt s t"

lemma tasks_inv_set_task [simp]: "tasks_inv (tasks_set_task i s) xs = tasks_inv s xs"
  by (simp add: tasks_inv_def task_blocks_def proc_blocks_def pids_ok_def frame_ok_def cong: map_cong)

lemma tasks_inv_cpu: "tasks_inv (s\<lparr>cpu := r\<rparr>) xs = tasks_inv s xs"
  by (simp add: tasks_inv_def task_ring_def p_nexts_abs p_prevs_abs task_blocks_def proc_blocks_def pids_ok_def
      frame_ok_def cong: map_cong)

lemma tasks_inv_own_stack:
  assumes inv: "tasks_inv s xs" and y: "in_range (p_stacktop (procs s (cur s))) 4096 y"
  shows "tasks_inv (s\<lparr>kmem := (kmem s)\<lparr>ram := (ram (kmem s))(y := v)\<rparr>\<rparr>) xs"
proof -
  let ?m = "(ram (kmem s))(y := v)"
  have A: "holds (kmem s) (task_blocks s (cur s # xs))" using inv by (simp add: tasks_inv_def)
  have out: "\<not> in_range (p_stacktop (procs s (cur s))) 4096 z \<Longrightarrow> ?m z = ram (kmem s) z" for z using y by auto
  have "owned_block (kmem s) (p_stacktop (procs s (cur s))) 4096"
    using holds_block [OF A] task_blocks_mem [of "cur s" "cur s # xs" s] by simp
  from holds_write [OF A this out] have "holds ((kmem s)\<lparr>ram := ?m\<rparr>) (task_blocks s (cur s # xs))" by blast
  then show ?thesis using inv
    by (simp add: tasks_inv_def pages_ok_def task_blocks_def proc_blocks_def pids_ok_def frame_ok_def
        cong: map_cong)
qed

lemma schedule_inv_rotate:
  assumes inv: "tasks_inv s xs" and esp: "esp_ok pro s"
  shows "tasks_inv (schedule pro s) (tl (xs @ [cur s]))"
proof (cases xs)
  case Nil
  have nx: "p_nexts s (cur s) = cur s" using inv Nil by (simp add: tasks_inv_def task_ring_def ring_single)
  let ?m = "sched_mem pro s"
  have A: "holds (kmem s) (task_blocks s [cur s])" using inv Nil by (simp add: tasks_inv_def)
  have "owned_block (kmem s) (p_stacktop (procs s (cur s))) 4096"
    using holds_block [OF A] task_blocks_mem [of "cur s" "[cur s]" s] by simp
  from holds_write [OF A this sched_mem_same [OF esp]]
  have "holds ((kmem s)\<lparr>ram := ?m\<rparr>) (task_blocks s [cur s])" by blast
  then show ?thesis using inv Nil nx
    by (auto simp: tasks_inv_def pages_ok_def task_blocks_def proc_blocks_def pids_ok_def task_ring_def
        schedule_fields schedule_simps)
qed (use schedule_inv [of s _ _ pro] assms in auto)

lemma tasks_inv_step:
  assumes "task_step pro nt s t" and inv: "tasks_inv s xs"
  shows "\<exists>ys. tasks_inv t ys"
  using assms(1)
proof (cases rule: task_step.cases)
  case (registers r)
  then show ?thesis using inv by (auto simp: tasks_inv_cpu)
next
  case (own_stack y v)
  then show ?thesis using tasks_inv_own_stack [OF inv] by blast
next
  case (start name addr pid)
  show ?thesis by (rule start_process_inv [OF inv start]) blast
next
  case switch
  then show ?thesis using schedule_inv_rotate [OF inv] inv by (auto simp: schedule_noirq_def)
next
  case finish
  have "p_pid (procs s (cur s)) \<noteq> 1" using finish by (auto simp: kill_current_def)
  with finish inv show ?thesis using kill_current_inv [of s "hd xs" "tl xs" pro]
    by (cases xs) (auto simp: tasks_inv_def pids_ok_def)
next
  case (kill pid)
  then have "pid \<noteq> 1" by (auto simp: kill_def)
  with kill show ?thesis using kill_other [OF inv, of pid pro] inv
    by (auto split: option.splits intro: set_zombie_inv)
next
  case (ask pid b)
  have "t = tasks_set_task 1 (tasks_set_task 0 s)"
    using ask is_pid_running_ring [of s xs pid] inv by (simp add: tasks_inv_def)
  then show ?thesis using inv by auto
qed

section \<open>The start of tasking\<close>

lemma malloc_room:
  assumes good: "heap_good h" and n: "size_ok n" and room: "unat (last_alloc h) + unat n + 8 < unat (heap_end h)"
  shows "\<exists>p h'. malloc h n = Some (Ret p, h') \<and> heap_end h' = heap_end h \<and>
    unat (last_alloc h') \<le> unat (last_alloc h) + unat n + 12"
proof -
  obtain bs where ok: "heap_ok h bs" using good by (auto simp: heap_good_def)
  show ?thesis
  proof (cases "first_fit (heap_begin h) bs n")
    case None
    then have "malloc h n = Some (malloc_new h n)" using malloc_cases [OF ok n] by simp
    moreover have "\<not> heap_end h \<le> last_alloc h + n + 8" using heap_full_unat [OF ok n] room by simp
    moreover have "unat (last_alloc h + (n + 12)) = unat (last_alloc h) + unat n + 12"
      using heap_ok_room [OF ok n] by (simp add: unat_word_ariths)
    ultimately show ?thesis by (simp add: malloc_new_def Let_def add.commute [of 12])
  next
    case (Some x)
    then have "malloc h n = Some (malloc_reuse h n x)" using malloc_cases [OF ok n] by simp
    then show ?thesis by (simp add: malloc_reuse_def Let_def)
  qed
qed

lemma createProcess_total:
  assumes A: "holds (kmem s) A" and room: "unat (last_alloc (kmem s)) + 4156 < unat (heap_end (kmem s))"
  shows "\<exists>p s'. createProcess nt name addr s = Some (Ret p, s') \<and> heap_end (kmem s') = heap_end (kmem s) \<and>
    unat (last_alloc (kmem s')) \<le> unat (last_alloc (kmem s)) + 4160"
proof -
  have sz: "size_ok 40" "size_ok 4096" by (simp_all add: size_ok_def)
  obtain p h1 where 1: "malloc (kmem s) 40 = Some (Ret p, h1)" "heap_end h1 = heap_end (kmem s)"
    "unat (last_alloc h1) \<le> unat (last_alloc (kmem s)) + 52"
    using malloc_room [of "kmem s" 40] A sz room by (auto simp: holds_def)
  let ?h2 = "h1\<lparr>ram := memset (ram h1) p 0 40\<rparr>"
  note a1 = holds_alloc [OF A sz(1) 1(1)]
  have "holds ?h2 ((p, 40) # A)"
    using holds_write [OF conjunct1 [OF a1] holds_block [OF conjunct1 [OF a1]], of p 40 "memset (ram h1) p 0 40"]
    by (simp add: memset_apply)
  then obtain st h3 where 2: "malloc ?h2 4096 = Some (Ret st, h3)" "heap_end h3 = heap_end h1"
    "unat (last_alloc h3) \<le> unat (last_alloc h1) + 4108"
    using malloc_room [of ?h2 4096] sz room 1 by (auto simp: holds_def)
  then show ?thesis using 1
    by (cases "push_words (ram h3) (st + 4096) (first_words addr (st + 4096))")
      (simp add: createProcess_def on_heap_def Let_def)
qed

lemma createProcess_late: "createProcess nt name addr s = Some (Ret p, s') \<Longrightarrow> late_init s' = late_init s"
  by (erule createProcess_result) simp

lemma tasking_init_ok:
  assumes "holds (kmem s) [(pheap_desc (kmem s), 32)]" and "pages_ok (kmem s)" and "lpid s = 0"
    and room: "unat (last_alloc (kmem s)) + 8320 < unat (heap_end (kmem s))"
  shows "\<exists>s' q stk. tasking_init nt sched name1 idle name2 task1 late t s = Some (Ret (), set_idt_gate t 0x79 sched, s') \<and>
    tasks_inv s' [q] \<and> p_pid (procs s' (cur s')) = 1 \<and> p_pid (procs s' q) = 2 \<and>
    cpu s' = fresh_cpu idle (stk + 4096) \<and> p_stacktop (procs s' (cur s')) = stk \<and> late_init s' = late \<and>
    lpid s' = 2 \<and> heap_end (kmem s') = heap_end (kmem s) \<and>
    unat (last_alloc (kmem s')) \<le> unat (last_alloc (kmem s)) + 8320"
proof -
  let ?s0 = "s\<lparr>late_init := late\<rparr>" and ?A = "[(pheap_desc (kmem s), 32)]"
  obtain p s1 where cp1: "createProcess nt name1 idle ?s0 = Some (Ret p, s1)"
    and r1: "heap_end (kmem s1) = heap_end (kmem s)" "unat (last_alloc (kmem s1)) \<le> unat (last_alloc (kmem s)) + 4160"
    using createProcess_total [of ?s0 ?A nt name1 idle] assms by auto
  obtain st1 where h1: "holds (kmem s1) ([(p, 40), (st1, 4096)] @ ?A)"
    and d1: "pheap_desc (kmem s1) = pheap_desc (kmem s)" "pages_ok (kmem s1)"
    and f1: "pop_frame (ram (kmem s1)) (st1 + 4096 - 56) = fresh_cpu idle (st1 + 4096)"
    and p1: "procs s1 = (procs s)(p := new_process name1 1 idle nt (cr3 s) st1)" and l1: "lpid s1 = 1"
    using createProcess_holds [OF _ cp1, of ?A] assms by auto
  define s3 where "s3 = set_p_prev p p (set_p_next p p (s1\<lparr>cur := p\<rparr>))"
  have [simp]: "kmem s3 = kmem s1" "cur s3 = p" "lpid s3 = 1"
    "p_pid (procs s3 q) = p_pid (procs s1 q)" "p_esp (procs s3 q) = p_esp (procs s1 q)"
    "p_stacktop (procs s3 q) = p_stacktop (procs s1 q)" for q
    by (simp_all add: s3_def l1)
  have new1: "p_pid (procs s1 p) = 1" "p_esp (procs s1 p) = st1 + 4096 - 56" "p_stacktop (procs s1 p) = st1"
    by (simp_all add: p1 new_process_def)
  have "mset (task_blocks s3 [p]) = mset ([(p, 40), (st1, 4096)] @ ?A)"
    by (simp add: task_blocks_def proc_blocks_def d1 new1)
  with h1 have "holds (kmem s3) (task_blocks s3 [p])" by (simp only: \<open>kmem s3 = kmem s1\<close>) (erule holds_perm, simp)
  moreover have "task_ring s3 []" by (simp add: task_ring_def ring_single s3_def tk.fields)
  ultimately have inv3: "tasks_inv s3 []" using d1 by (simp add: tasks_inv_def pids_ok_def new1)
  obtain q s4 where cp2: "createProcess nt name2 task1 s3 = Some (Ret q, s4)"
    and r2: "heap_end (kmem s4) = heap_end (kmem s1)" "unat (last_alloc (kmem s4)) \<le> unat (last_alloc (kmem s1)) + 4160"
    using createProcess_total [of s3 "[(p, 40), (st1, 4096)] @ ?A" nt name2 task1] h1 r1 room by auto
  then have st: "start_process nt name2 task1 s3 = Some (Ret (p_pid (procs s4 q)), snd (addProcess q s4))"
    by (simp add: start_process_def addProcess_fields)
  let ?t = "snd (addProcess q s4)" and ?u = "addProcess_unlocked q s4"
  have tu: "kmem ?t = kmem ?u" "cur ?t = cur ?u" "procs ?t = procs ?u" "lpid ?t = lpid ?u"
    "late_init ?u = late_init s4"
    by (simp_all add: addProcess_fields addProcess_unlocked_def Let_def tasks_set_task_def set_p_next_def set_p_prev_def p_nexts_def)
  show ?thesis
  proof (rule start_process_inv [OF inv3 _ st])
    show "lpid s3 \<noteq> - 1" by simp
    fix q' stq
    assume lp: "lpid ?t = lpid s3 + 1" and inv: "tasks_inv ?t [q']" and pid: "p_pid (procs s4 q) = lpid s3 + 1" and cur: "cur ?t = cur s3"
      and pq: "p_pid (procs ?t q') = p_pid (procs s4 q)" and kept: "stacks_kept s3 ?t (cur s3 # [])"
    let ?e = "tasks_exec ?u"
    have "tasks_inv ?e [q']"
      using inv by (simp add: tasks_inv_def tasks_exec_def task_ring_def p_nexts_abs p_prevs_abs task_blocks_def
          proc_blocks_def pids_ok_def frame_ok_def tu cong: map_cong)
    moreover have "cpu ?e = fresh_cpu idle (st1 + 4096)"
    proof -
      have esp: "p_esp (procs ?t p) = st1 + 4096 - 56" "p_stacktop (procs s3 p) = st1"
        and mem: "\<And>y. in_range st1 4096 y \<Longrightarrow> ram (kmem ?t) y = ram (kmem s1) y"
        using kept new1 by (auto simp: stacks_kept_def)
      have "pop_frame (ram (kmem ?t)) (st1 + 4096 - 56) = pop_frame (ram (kmem s1)) (st1 + 4096 - 56)"
      proof (rule pop_frame_cong, rule mem)
        fix y assume y: "in_range (st1 + 4096 - 56) 56 y"
        have "y - st1 = (y - (st1 + 4096 - 56)) + 4040" by simp
        moreover have "unat (y - (st1 + 4096 - 56) + 4040) = unat (y - (st1 + 4096 - 56)) + 4040"
          using y unat_add_small [of "y - (st1 + 4096 - 56)" 4040] by (simp add: in_range_def word_less_nat_alt)
        ultimately show "in_range st1 4096 y" using y by (simp add: in_range_def word_less_nat_alt)
      qed
      with f1 esp cur show ?thesis by (simp add: tasks_exec_def tu)
    qed
    moreover have "p_pid (procs ?e (cur ?e)) = 1"
      using kept new1 cur by (simp add: stacks_kept_def tasks_exec_def tu)
    moreover have "p_stacktop (procs ?e (cur ?e)) = st1"
      using kept new1 cur by (simp add: stacks_kept_def tasks_exec_def tu)
    moreover have "p_pid (procs ?e q') = 2"
      using pid pq by (simp add: tasks_exec_def tu)
    moreover have "lpid ?e = 2" using lp by (simp add: tasks_exec_def tu)
    moreover have "kmem ?e = kmem s4" by (simp add: tasks_exec_def addProcess_unlocked_def Let_def)
    moreover have "late_init ?e = late"
      using createProcess_late [OF cp1] createProcess_late [OF cp2]
      by (simp add: tasks_exec_def tu s3_def set_p_next_def set_p_prev_def)
    ultimately show ?thesis using cp1 cp2 r1 r2 by (auto simp: tasking_init_def Let_def s3_def)
  qed
qed

text \<open>Starting writes nothing outside of the heap.\<close>

lemma createProcess_outside:
  assumes A: "holds (kmem s) A" and room: "unat (last_alloc (kmem s)) + 4160 < unat (heap_end (kmem s))"
    and cp: "createProcess nt name addr s = Some (Ret p, s')"
  shows "outside_heap (kmem s') = outside_heap (kmem s)"
    "outside_heap (kmem s) y \<Longrightarrow> ram (kmem s') y = ram (kmem s) y"
proof -
  obtain h1 st h3 where 1: "malloc (kmem s) 40 = Some (Ret p, h1)"
      "malloc (h1\<lparr>ram := memset (ram h1) p 0 40\<rparr>) 4096 = Some (Ret st, h3)"
    and s': "kmem s' = h3\<lparr>ram := snd (push_words (ram h3) (st + 4096) (first_words addr (st + 4096)))\<rparr>"
    by (rule createProcess_result [OF cp]) simp
  have sz: "size_ok 40" "size_ok 4096" by (simp_all add: size_ok_def)
  let ?m2 = "memset (ram h1) p 0 40" and ?m3 = "snd (push_words (ram h3) (st + 4096) (first_words addr (st + 4096)))"
  have r0: "heap_room (kmem s) (unat (40 :: uint32) + 12 + (4096 + 12))"
    using A room by (simp add: heap_room_def holds_def)
  have r1: "heap_room h1 (4096 + 12)" using malloc_heap_room [OF r0 sz(1)] 1(1) by auto
  note a1 = conjunct1 [OF holds_alloc [OF A sz(1) 1(1)]]
  have h2: "holds (h1\<lparr>ram := ?m2\<rparr>) ((p, 40) # A)"
    using holds_write [OF a1 holds_block [OF a1], of p 40 ?m2] by (simp add: memset_apply)
  note a2 = conjunct1 [OF holds_alloc [OF h2 sz(2) 1(2)]]
  have r2: "heap_room (h1\<lparr>ram := ?m2\<rparr>) (unat (4096 :: uint32) + 12 + 0)"
    using h2 r1 by (simp add: heap_room_def holds_def)
  have r3: "heap_room h3 0" using malloc_heap_room [OF r2 sz(2)] 1(2) by auto
  have o1: "outside_heap h1 = outside_heap (kmem s)" using malloc_outside_eq [OF 1(1)] .
  have o3: "outside_heap h3 = outside_heap (kmem s)" using malloc_outside_eq [OF 1(2)] o1 by simp
  show "outside_heap (kmem s') = outside_heap (kmem s)" by (simp add: s' o3)
  assume y: "outside_heap (kmem s) y"
  have "\<not> in_range st 4096 y" using holds_not_outside [OF a2 _ r3] y o3 by simp
  then have "?m3 y = ram h3 y"
    by (intro pushes_in_stack [of _ st]) (simp_all add: first_words_def)
  also have "\<dots> = ?m2 y" using malloc_outside [OF _ sz(2) 1(2), of y] r2 y o1 by simp
  also have "\<dots> = ram h1 y"
    using holds_not_outside [OF a1, of p 40 y] r1 y o1 by (simp add: memset_apply heap_room_def)
  also have "\<dots> = ram (kmem s) y"
    using malloc_outside [OF _ sz(1) 1(1) y] r0 by (simp add: heap_room_def)
  finally show "ram (kmem s') y = ram (kmem s) y" by (simp add: s')
qed

lemma tasking_init_outside:
  assumes "holds (kmem s) [(pheap_desc (kmem s), 32)]"
    and room: "unat (last_alloc (kmem s)) + 8320 < unat (heap_end (kmem s))"
    and init: "tasking_init nt sched name1 idle name2 task1 late t s = Some (Ret (), t', s')"
  shows "outside_heap (kmem s) y \<Longrightarrow> ram (kmem s') y = ram (kmem s) y" "cr3 s' = cr3 s"
proof -
  let ?s0 = "s\<lparr>late_init := late\<rparr>" and ?A = "[(pheap_desc (kmem s), 32)]"
  obtain p s1 q s4 where cp1: "createProcess nt name1 idle ?s0 = Some (Ret p, s1)"
    and cp2: "createProcess nt name2 task1 (set_p_prev p p (set_p_next p p (s1\<lparr>cur := p\<rparr>))) = Some (Ret q, s4)"
    and s': "s' = tasks_exec (addProcess_unlocked q s4)"
    using init by (auto simp: tasking_init_def Let_def split: option.splits outcome.splits)
  let ?s3 = "set_p_prev p p (set_p_next p p (s1\<lparr>cur := p\<rparr>))"
  obtain st where h1: "holds (kmem s1) ([(p, 40), (st, 4096)] @ ?A)"
    using createProcess_holds [OF _ cp1, of ?A] assms(1) by auto
  have r1: "heap_end (kmem s1) = heap_end (kmem s)" "unat (last_alloc (kmem s1)) \<le> unat (last_alloc (kmem s)) + 4160"
    using createProcess_total [of ?s0 ?A nt name1 idle] assms(1) room cp1 by auto
  have k: "kmem s' = kmem s4" "cr3 s' = cr3 s4"
    by (simp_all add: s' tasks_exec_def addProcess_unlocked_def Let_def)
  have "cr3 s1 = cr3 s" by (rule createProcess_result [OF cp1]) simp
  moreover have "cr3 s4 = cr3 ?s3" by (rule createProcess_result [OF cp2]) simp
  ultimately show "cr3 s' = cr3 s" by (simp add: k)
  assume y: "outside_heap (kmem s) y"
  have o1: "outside_heap (kmem s1) = outside_heap (kmem s)"
    using createProcess_outside(1) [OF _ _ cp1, of ?A] assms(1) room by simp
  have "ram (kmem s4) y = ram (kmem ?s3) y"
    by (rule createProcess_outside(2) [OF _ _ cp2, of "[(p, 40), (st, 4096)] @ ?A"]) (use h1 r1 room y o1 in simp_all)
  also have "\<dots> = ram (kmem s) y"
    using createProcess_outside(2) [OF _ _ cp1, of ?A y] assms(1) room y by simp
  finally show "ram (kmem s') y = ram (kmem s) y" by (simp add: k)
qed

end
