(* ===== verification/Scheduling.thy ===== *)
theory Scheduling
  imports Tasking
begin

text \<open>
  What the process management of \<open>src/tasking.c\<close> guarantees: the properties of the table of
  processes, of the switch, and of the operations on processes, on top of the invariant of the
  theory Tasking.
\<close>

section \<open>A kernel to look at\<close>

text \<open>With the usual entry code of the compiler \<open>schedule\<close> pushes \<open>ebp\<close> first.\<close>

definition push_ebp :: "cpu \<Rightarrow> uint32 list" where
  "push_ebp r = [r_ebp r]"

text \<open>The heap that \<open>mm_init\<close> leaves, with the page descriptors as its only block.\<close>

definition booted :: "task_state \<Rightarrow> bool" where
  "booted s \<longleftrightarrow> holds (kmem s) [(pheap_desc (kmem s), 32)] \<and> pages_ok (kmem s) \<and> lpid s = 0 \<and>
     unat (last_alloc (kmem s)) + 30000 < unat (heap_end (kmem s))"

lemma sample_booted: "\<exists>s. booted s"
proof -
  have sz: "size_ok 32" by (simp add: size_ok_def)
  obtain h where h: "malloc_new sample_heap 32 = (Ret 0x200008, h)" "heap_ok h [(1, 32)]" "heap_begin h = 0x200000"
    using malloc_new_ok [OF sample_heap_ok sz] by (simp add: sample_heap_def) blast
  then have f: "last_alloc h = 0x20002C" "heap_end h = 0x3E0000" "pheap_begin h = 0x3E0000" "pheap_end h = 0x400000"
    by (auto simp: malloc_new_def sample_heap_def Let_def)
  let ?h = "h\<lparr>pheap_desc := 0x200008\<rparr>"
  have ok: "heap_ok ?h [(1, 32)]" using h f by (simp add: heap_ok_def heap_inv_def)
  have "(0x200008, 32) \<in> heap_live ?h"
    unfolding heap_live_eq [OF ok] live_of_def using h by auto
  moreover have "heap_good ?h" using ok by (auto simp: heap_good_def)
  ultimately have "booted (undefined\<lparr>kmem := ?h, lpid := 0\<rparr>)"
    using f by (simp add: booted_def holds_def pages_ok_def) blast
  then show ?thesis by blast
qed

text \<open>The idle process runs, tasking is on, \<open>task1\<close> waits.\<close>

definition two_tasks :: "task_state \<Rightarrow> addr \<Rightarrow> bool" where
  "two_tasks s q \<longleftrightarrow> tasks_inv s [q] \<and> p_pid (procs s (cur s)) = 1 \<and> p_pid (procs s q) = 2 \<and>
     esp_ok push_ebp s \<and> tasking_on s \<and> lpid s = 2 \<and> unat (last_alloc (kmem s)) + 12480 < unat (heap_end (kmem s))"

lemma booted_two_tasks:
  assumes "booted s"
  shows "\<exists>s q. two_tasks s q"
proof -
  obtain s' q stk where s': "tasks_inv s' [q]" "p_pid (procs s' (cur s')) = 1" "p_pid (procs s' q) = 2"
      "cpu s' = fresh_cpu 0x100000 (stk + 4096)" "p_stacktop (procs s' (cur s')) = stk" "lpid s' = 2"
      "heap_end (kmem s') = heap_end (kmem s)" "unat (last_alloc (kmem s')) \<le> unat (last_alloc (kmem s)) + 8320"
    using tasking_init_ok [of s 0 0 0 "0x100000" 0 0 0 undefined] assms unfolding booted_def by auto
  let ?s = "s'\<lparr>tasking_on := True\<rparr>"
  have "tasks_inv ?s [q]"
    using s'(1) by (simp add: tasks_inv_def task_ring_def p_nexts_abs p_prevs_abs task_blocks_def
        proc_blocks_def pids_ok_def frame_ok_def cong: map_cong)
  moreover have "esp_ok push_ebp ?s"
    using s' by (simp add: esp_ok_def push_ebp_def fresh_cpu_def saved_words_def)
  ultimately have "two_tasks ?s q" using s' assms by (simp add: two_tasks_def booted_def)
  then show ?thesis by blast
qed

lemma sample_two_tasks: "\<exists>s q. two_tasks s q"
  using sample_booted booted_two_tasks by blast

section \<open>Properties\<close>

text \<open>
  C9. From the heap that \<open>mm_init\<close> leaves, \<open>tasking_init\<close> always succeeds: afterwards the ring
  holds the idle process (pid 1), running at its entry point, and \<open>task1\<close> (pid 2), the table
  is well formed, and interrupt \<open>0x79\<close> leads to \<open>schedule\<close>.
\<close>

theorem tasking_init_establishes:
  assumes "booted s"
  shows "\<exists>s' q stk. tasking_init nt sched name1 idle name2 task1 late t s = Some (Ret (), set_idt_gate t 0x79 sched, s') \<and>
    tasks_inv s' [q] \<and> p_pid (procs s' (cur s')) = 1 \<and> p_pid (procs s' q) = 2 \<and>
    cpu s' = fresh_cpu idle (stk + 4096) \<and> late_init s' = late"
  using tasking_init_ok [of s nt sched name1 idle name2 task1 late t] assms unfolding booted_def by auto

theorem tasking_init_establishes_witness:
  "\<exists>s s' q. booted s \<and> tasking_init 0x1000 0x2000 0 0x3000 0 0x4000 0x5000 (\<lambda>_. undefined) s =
     Some (Ret (), set_idt_gate (\<lambda>_. undefined) 0x79 0x2000, s') \<and> tasks_inv s' [q]"
proof -
  obtain s where "booted s" using sample_booted by blast
  with tasking_init_establishes [OF this, of "0x1000" "0x2000" 0 "0x3000" 0 "0x4000" "0x5000" "\<lambda>_. undefined"]
  show ?thesis by blast
qed

text \<open>
  C2. However the kernel runs - processes working in their stacks and registers, starting,
  switching, ending, killing and asking for each other, in any order - the table of processes
  stays well formed: the processes form one ring, their structures and stacks and the page
  descriptors are different live blocks of a well-formed heap, their pids are different and the
  idle process is among them, and the saved frame of every waiting process lies in its stack.
\<close>

theorem process_table_invariant:
  assumes "task_reach pro nt s0 s" and "tasks_inv s0 xs"
  shows "\<exists>ys. tasks_inv s ys"
  using assms by (induction rule: task_reach.induct) (blast, meson tasks_inv_step)

theorem process_table_invariant_witness:
  "\<exists>s q ys. two_tasks s q \<and> tasks_inv (schedule_noirq push_ebp s) ys"
proof -
  obtain s q where s: "two_tasks s q" using sample_two_tasks by blast
  then have "task_step push_ebp 0 s (schedule_noirq push_ebp s)"
    by (intro task_step.switch) (simp add: two_tasks_def)
  then have "task_reach push_ebp 0 s (schedule_noirq push_ebp s)" by (rule task_reach.there [OF task_reach.here])
  from process_table_invariant [OF this] s show ?thesis unfolding two_tasks_def by blast
qed

text \<open>
  C3. Scheduling is round robin: the \<open>k\<close>-th switch from now runs the process \<open>k\<close> places ahead in
  the ring, so every process runs again within one round.
\<close>

theorem schedule_round_robin:
  assumes "tasks_inv s xs"
  shows "cur ((schedule pro ^^ k) s) = (cur s # xs) ! (k mod Suc (length xs)) \<and>
    (p \<in> set (cur s # xs) \<longrightarrow> (\<exists>j \<le> length xs. cur ((schedule pro ^^ j) s) = p))"
proof -
  have ring: "is_ring (p_nexts s) (p_prevs s) (cur s) xs"
    using assms by (simp add: tasks_inv_def task_ring_def)
  have at: "cur ((schedule pro ^^ j) s) = (cur s # xs) ! (j mod Suc (length xs))" for j
  proof -
    have "(p_nexts s ^^ j) (cur s) = (p_nexts s ^^ (j mod Suc (length xs))) (cur s)"
      using funpow_mod_eq [OF tk.walk_round [OF ring], of j] by simp
    also have "\<dots> = (cur s # xs) ! (j mod Suc (length xs))"
      by (rule tk.walk [OF ring]) (simp add: less_Suc_eq_le [symmetric])
    finally show ?thesis using schedule_turns [where pro = pro and k = j and s = s] by simp
  qed
  have "\<exists>j \<le> length xs. cur ((schedule pro ^^ j) s) = p" if p: "p \<in> set (cur s # xs)"
  proof -
    obtain j where "j < Suc (length xs)" "(cur s # xs) ! j = p"
      using p unfolding in_set_conv_nth by (metis length_Cons)
    then show ?thesis by (intro exI [of _ j]) (simp add: at)
  qed
  with at show ?thesis by blast
qed

theorem schedule_round_robin_witness:
  "\<exists>s q. two_tasks s q \<and> cur ((schedule push_ebp ^^ 3) s) = q \<and> cur ((schedule push_ebp ^^ 4) s) = cur s"
proof -
  obtain s q where s: "two_tasks s q" using sample_two_tasks by blast
  then have inv: "tasks_inv s [q]" by (simp add: two_tasks_def)
  have "(3::nat) mod Suc (Suc 0) = 1" "(4::nat) mod Suc (Suc 0) = 0" by (simp_all flip: numeral_2_eq_2)
  then have "cur ((schedule push_ebp ^^ 3) s) = q" "cur ((schedule push_ebp ^^ 4) s) = cur s"
    using schedule_round_robin [OF inv, where pro = push_ebp and k = 3]
      schedule_round_robin [OF inv, where pro = push_ebp and k = 4] by (simp_all del: funpow.simps)
  with s show ?thesis by blast
qed

lemma frame_in_stack:
  assumes "frame_ok s p" and "in_range (p_esp (procs s p)) 56 y"
  shows "in_range (p_stacktop (procs s p)) 4096 y"
proof -
  let ?d = "p_esp (procs s p) - p_stacktop (procs s p)"
  have lt: "unat (y - p_esp (procs s p)) < 56" using assms(2) by (simp add: in_range_def word_less_nat_alt)
  have "y - p_stacktop (procs s p) = (y - p_esp (procs s p)) + ?d" by simp
  moreover have "unat ((y - p_esp (procs s p)) + ?d) = unat (y - p_esp (procs s p)) + unat ?d"
    using lt assms(1) by (intro unat_add_small) (simp add: frame_ok_def)
  ultimately show ?thesis using lt assms(1)
    by (simp only: in_range_def word_less_nat_alt frame_ok_def) simp
qed

lemma schedule_pops:
  assumes inv: "tasks_inv s (x # xs)" and esp: "esp_ok pro s"
  shows "cpu (schedule pro s) = pop_frame (ram (kmem s)) (p_esp (procs s x))"
proof -
  have x: "p_nexts s (cur s) = x" "x \<noteq> cur s" and fr: "frame_ok s x"
    using inv by (auto simp: tasks_inv_def task_ring_def is_ring_def)
  have "sched_mem pro s y = ram (kmem s) y" if "in_range (p_esp (procs s x)) 56 y" for y
    using schedule_stacks_kept [OF inv esp] frame_in_stack [OF fr that]
    by (simp add: stacks_kept_def schedule_fields)
  then show ?thesis using x by (auto simp: schedule_fields intro: pop_frame_cong)
qed

text \<open>
  C4. A process that was just started is the one that the next switch runs: it gets the next
  pid and begins at the address it was started with, in ring 0 with interrupts enabled
  (\<open>eflags\<close> \<open>0x202\<close>), its registers zero and its stack pointer at the end of a stack of its own.
\<close>

theorem started_process_runs_next:
  assumes inv: "tasks_inv s xs" and esp: "esp_ok pro s" and on: "tasking_on s" and max: "lpid s \<noteq> - 1"
    and st: "start_process nt name addr s = Some (Ret pid, s1)"
  shows "\<exists>stk. pid = lpid s + 1 \<and> p_pid (procs (schedule_noirq pro s1) (cur (schedule_noirq pro s1))) = pid \<and>
    cpu (schedule_noirq pro s1) = fresh_cpu addr (stk + 4096) \<and>
    p_stacktop (procs (schedule_noirq pro s1) (cur (schedule_noirq pro s1))) = stk"
proof (rule start_process_inv [OF inv max st])
  fix p stk
  assume inv1: "tasks_inv s1 (p # xs)" and r: "pid = lpid s + 1" "p_pid (procs s1 p) = pid" "p_stacktop (procs s1 p) = stk"
    and same: "cur s1 = cur s" "cpu s1 = cpu s" "tasking_on s1 = tasking_on s"
    and frame: "pop_frame (ram (kmem s1)) (p_esp (procs s1 p)) = fresh_cpu addr (stk + 4096)"
    and kept: "stacks_kept s s1 (cur s # xs)"
  have esp1: "esp_ok pro s1" using esp kept same by (simp add: esp_ok_def stacks_kept_def)
  have nx: "p_nexts s1 (cur s1) = p" using inv1 by (simp add: tasks_inv_def task_ring_def is_ring_def)
  show ?thesis
    using schedule_pops [OF inv1 esp1] frame r on same nx
    by (intro exI [of _ stk]) (simp add: schedule_noirq_def schedule_simps)
qed

theorem started_process_runs_next_witness:
  "\<exists>s s1 stk. start_process 0x1000 0 0x123456 s = Some (Ret 3, s1) \<and>
    cpu (schedule_noirq push_ebp s1) = fresh_cpu 0x123456 (stk + 4096)"
proof -
  obtain s q where s: "two_tasks s q" using sample_two_tasks by blast
  then have inv: "tasks_inv s [q]" and esp: "esp_ok push_ebp s" and on: "tasking_on s" and lp: "lpid s \<noteq> - 1" "lpid s = 2"
    by (auto simp: two_tasks_def)
  obtain p s1 where "createProcess 0x1000 0 0x123456 s = Some (Ret p, s1)"
    using createProcess_total [of s "task_blocks s [cur s, q]" "0x1000" 0 "0x123456"] s
    by (auto simp: two_tasks_def tasks_inv_def)
  then obtain pid s2 where st: "start_process 0x1000 0 0x123456 s = Some (Ret pid, s2)"
    by (simp add: start_process_def addProcess_fields)
  from started_process_runs_next [OF inv esp on lp(1) st] st lp show ?thesis by auto
qed

lemma switch_frame:
  assumes "length (pro (cpu s)) = 1" and "esp_ok pro s"
  shows "pop_frame (sched_mem pro s) (sched_sp pro s) = frame_of (r_esp (cpu s)) (saved_words pro (cpu s))"
  using pop_push [of "saved_words pro (cpu s)" "ram (kmem s)" "r_esp (cpu s)"] assms(1)
  by (simp add: sched_mem_def sched_sp_def saved_words_length)

text \<open>
  \<open>schedule\<close> does not pop what it pushed: it saves no \<open>edi\<close>, and the entry code of the
  function adds a word above the registers. A process that is switched away and back continues
  where it was, on its stack, with \<open>ebp\<close> and the segment registers, but with the other
  registers moved by one: \<open>edi\<close> holds the old \<open>esi\<close>, \<open>esi\<close> the old \<open>edx\<close>, and so on down to
  \<open>eax\<close>, which holds the word of the entry code.
\<close>

theorem switch_moves_registers:
  assumes inv: "tasks_inv s (x # xs)" and esp: "esp_ok pro s" and one: "pro (cpu s) = [w]"
    and inv': "tasks_inv t (cur s # ys)" and esp': "esp_ok pro t"
    and kept: "stacks_kept (schedule pro s) t [cur s]"
  shows "cpu (schedule pro t) = (cpu s)\<lparr>r_edi := r_esi (cpu s), r_esi := r_edx (cpu s),
    r_edx := r_ecx (cpu s), r_ecx := r_ebx (cpu s), r_ebx := r_eax (cpu s), r_eax := w\<rparr>"
proof -
  have "cur s \<noteq> x" using inv by (auto simp: tasks_inv_def task_ring_def is_ring_def)
  have fr: "frame_ok (schedule pro s) (cur s)" by (rule sched_frame_ok [OF esp])
  have esp_t: "p_esp (procs t (cur s)) = sched_sp pro s"
    using kept by (simp add: stacks_kept_def schedule_fields)
  have "cpu (schedule pro t) = pop_frame (ram (kmem t)) (sched_sp pro s)"
    using schedule_pops [OF inv' esp'] esp_t by simp
  also have "\<dots> = pop_frame (sched_mem pro s) (sched_sp pro s)"
  proof (rule pop_frame_cong)
    fix y assume "in_range (sched_sp pro s) 56 y"
    then have "in_range (p_esp (procs (schedule pro s) (cur s))) 56 y" by (simp add: schedule_fields)
    from frame_in_stack [OF fr this] kept show "ram (kmem t) y = sched_mem pro s y"
      by (simp add: stacks_kept_def schedule_fields)
  qed
  also have "\<dots> = frame_of (r_esp (cpu s)) (saved_words pro (cpu s))"
    by (rule switch_frame [OF _ esp]) (simp add: one)
  finally show ?thesis by (simp add: frame_of_def saved_words_def one)
qed

lemma two_tasks_back:
  assumes "two_tasks s q"
  shows "\<exists>r. tasks_inv ((schedule push_ebp s)\<lparr>cpu := r\<rparr>) [cur s] \<and> esp_ok push_ebp ((schedule push_ebp s)\<lparr>cpu := r\<rparr>) \<and>
    stacks_kept (schedule push_ebp s) ((schedule push_ebp s)\<lparr>cpu := r\<rparr>) [cur s]"
proof -
  let ?s = "schedule push_ebp s"
  let ?r = "(cpu ?s)\<lparr>r_esp := p_stacktop (procs ?s (cur ?s)) + 4096\<rparr>"
  have "tasks_inv ?s [cur s]" using assms schedule_inv [of s q "[]" push_ebp] by (simp add: two_tasks_def)
  then have "tasks_inv (?s\<lparr>cpu := ?r\<rparr>) [cur s]" by (simp add: tasks_inv_cpu)
  moreover have "esp_ok push_ebp (?s\<lparr>cpu := ?r\<rparr>)" by (simp add: esp_ok_def push_ebp_def saved_words_def)
  moreover have "stacks_kept ?s (?s\<lparr>cpu := ?r\<rparr>) [cur s]" by (simp add: stacks_kept_def)
  ultimately show ?thesis by blast
qed

theorem switch_moves_registers_witness:
  "\<exists>s q r. two_tasks s q \<and> r_edi (cpu (schedule push_ebp ((schedule push_ebp s)\<lparr>cpu := r\<rparr>))) = r_esi (cpu s)"
proof -
  obtain s q where s: "two_tasks s q" using sample_two_tasks by blast
  then obtain r where r: "tasks_inv ((schedule push_ebp s)\<lparr>cpu := r\<rparr>) [cur s]"
    "esp_ok push_ebp ((schedule push_ebp s)\<lparr>cpu := r\<rparr>)"
    "stacks_kept (schedule push_ebp s) ((schedule push_ebp s)\<lparr>cpu := r\<rparr>) [cur s]"
    using two_tasks_back by blast
  have "tasks_inv s [q]" "esp_ok push_ebp s" using s by (simp_all add: two_tasks_def)
  from switch_moves_registers [OF this _ r(1,2,3), of "r_ebp (cpu s)"] s
  show ?thesis by (intro exI [of _ s] exI [of _ q] exI [of _ r]) (simp add: push_ebp_def)
qed

text \<open>
  \<open>is_pid_running\<close> always returns, its answer is whether the pid belongs to a process of the
  ring, and it leaves the table as it was.
\<close>

theorem is_pid_running_correct:
  assumes "tasks_inv s xs"
  shows "\<exists>s'. is_pid_running pid s = Some (pid \<in> (\<lambda>p. p_pid (procs s p)) ` set (cur s # xs), s') \<and>
    tasks_inv s' xs \<and> cur s' = cur s \<and> procs s' = procs s"
proof -
  have "(\<exists>q \<in> set (cur s # xs). p_pid (procs s q) = pid) \<longleftrightarrow> pid \<in> (\<lambda>p. p_pid (procs s p)) ` set (cur s # xs)"
    by auto
  moreover have "task_ring s xs" using assms by (simp add: tasks_inv_def)
  ultimately show ?thesis using is_pid_running_ring [of s xs pid] assms by simp
qed

theorem is_pid_running_correct_witness:
  "\<exists>s s' s''. is_pid_running 2 s = Some (True, s') \<and> is_pid_running 7 s = Some (False, s'')"
proof -
  obtain s q where s: "two_tasks s q" using sample_two_tasks by blast
  then have inv: "tasks_inv s [q]" and "p_pid (procs s (cur s)) = 1" "p_pid (procs s q) = 2"
    by (simp_all add: two_tasks_def)
  with is_pid_running_correct [OF inv, of 2] is_pid_running_correct [OF inv, of 7]
  show ?thesis by (rule_tac exI [of _ s]) auto
qed

text \<open>
  C5. A process that ends takes itself out of the ring, its structure and its stack are free
  and nothing else is, the other processes and their stacks are untouched, and the next
  process of the ring continues from its saved frame - although the dead process releases its
  stack and structure while it still uses them. The idle process cannot end: it panics.
\<close>

theorem kill_current_removes:
  assumes "tasks_inv s (x # xs)" and "esp_ok pro s" and "tasking_on s"
  shows "if p_pid (procs s (cur s)) = 1 then fst (kill_current pro s) = Panic
    else \<exists>s'. kill_current pro s = (Ret (), s') \<and> cur s' = x \<and> tasks_inv s' xs \<and> stacks_kept s s' (x # xs) \<and>
      cpu s' = pop_frame (ram (kmem s')) (p_esp (procs s x)) \<and>
      heap_live (kmem s') = {b \<in> heap_live (kmem s). fst b \<noteq> cur s \<and> fst b \<noteq> p_stacktop (procs s (cur s))}"
  using kill_current_inv [OF assms] by (auto simp: kill_current_def)

theorem kill_current_removes_witness:
  "\<exists>s q s'. two_tasks s q \<and> kill_current push_ebp s = (Panic, s')"
proof -
  obtain s q where s: "two_tasks s q" using sample_two_tasks by blast
  then have "tasks_inv s [q]" "esp_ok push_ebp s" "tasking_on s" by (simp_all add: two_tasks_def)
  from kill_current_removes [OF this] s have "fst (kill_current push_ebp s) = Panic"
    by (simp add: two_tasks_def)
  with s show ?thesis by (metis prod.collapse)
qed

text \<open>
  \<open>kill\<close> of another process only marks it: the zombie stays in the ring, it still gets its
  turns, and \<open>is_pid_running\<close> still says that it runs (the reaper \<open>jack_the_ripper\<close> is never
  started). A pid that no process has changes nothing.
\<close>

theorem killed_process_still_runs:
  assumes inv: "tasks_inv s xs" and "pid \<noteq> 1" and ne: "pid \<noteq> p_pid (procs s (cur s))"
  shows "\<exists>s'. kill pro pid s = Some (Ret (), s') \<and> tasks_inv s' xs \<and> cur s' = cur s \<and>
    (\<forall>p \<in> set xs. p_pid (procs s p) = pid \<longrightarrow> p_state (procs s' p) = PROCESS_STATE_ZOMBIE \<and>
      (\<exists>k \<le> length xs. cur ((schedule pro ^^ k) s') = p) \<and> map_option fst (is_pid_running pid s') = Some True) \<and>
    (pid \<notin> (\<lambda>p. p_pid (procs s p)) ` set xs \<longrightarrow> s' = s)"
proof (cases "find (\<lambda>q. p_pid (procs s q) = pid) xs")
  case None
  then have "\<forall>p \<in> set xs. p_pid (procs s p) \<noteq> pid" by (simp add: find_None_iff)
  with kill_other [OF assms, of pro] None inv show ?thesis by auto
next
  case (Some q)
  let ?s = "set_zombie q s"
  have q: "q \<in> set xs" "p_pid (procs s q) = pid" using Some by (auto simp: find_Some_iff)
  have inv': "tasks_inv ?s xs" by (rule set_zombie_inv [OF inv])
  have [simp]: "cur ?s = cur s" "p_pid (procs ?s p) = p_pid (procs s p)" for p
    by (simp_all add: set_zombie_def)
  have uniq: "p_pid (procs s p) = pid \<longleftrightarrow> p = q" if "p \<in> set xs" for p
    using inv that q unfolding tasks_inv_def pids_ok_def by (auto simp: distinct_map dest: inj_onD)
  have ring: "is_ring (p_nexts ?s) (p_prevs ?s) (cur ?s) xs" using inv' by (simp add: tasks_inv_def task_ring_def)
  obtain k where k: "k < length xs" "xs ! k = q" using q(1) by (auto simp: in_set_conv_nth)
  have "cur ((schedule pro ^^ Suc k) ?s) = q"
    using schedule_turns [where pro = pro and k = "Suc k" and s = ?s] tk.walk [OF ring, of "Suc k"] k by simp
  with k(1) have turn: "\<exists>j \<le> length xs. cur ((schedule pro ^^ j) ?s) = q" by (intro exI [of _ "Suc k"]) simp
  have "map_option fst (is_pid_running pid ?s) = Some True"
    using is_pid_running_ring [of ?s xs pid] inv' q by (auto simp: tasks_inv_def)
  moreover have "p_state (procs ?s q) = PROCESS_STATE_ZOMBIE" by (simp add: set_zombie_def)
  moreover have "pid \<in> (\<lambda>p. p_pid (procs s p)) ` set xs" using q by auto
  ultimately show ?thesis
    using kill_other [OF assms, of pro] Some inv' turn q by (rule_tac exI [of _ ?s]) (auto simp: uniq)
qed

theorem killed_process_still_runs_witness:
  "\<exists>s q s'. two_tasks s q \<and> kill push_ebp 2 s = Some (Ret (), s') \<and> p_state (procs s' q) = PROCESS_STATE_ZOMBIE \<and>
     map_option fst (is_pid_running 2 s') = Some True"
proof -
  obtain s q where s: "two_tasks s q" using sample_two_tasks by blast
  then have "tasks_inv s [q]" "(2 :: uint32) \<noteq> 1" "2 \<noteq> p_pid (procs s (cur s))" by (simp_all add: two_tasks_def)
  from killed_process_still_runs [OF this, of push_ebp] obtain s' where
    "kill push_ebp 2 s = Some (Ret (), s')"
    "\<forall>p \<in> set [q]. p_pid (procs s p) = 2 \<longrightarrow> p_state (procs s' p) = PROCESS_STATE_ZOMBIE \<and>
      map_option fst (is_pid_running 2 s') = Some True" by blast
  moreover have "p_pid (procs s q) = 2" using s by (simp add: two_tasks_def)
  ultimately show ?thesis using s by (metis list.set_intros(1))
qed

end
