(* ===== verification/CStrings.thy ===== *)
theory CStrings
  imports Heap_Alloc
begin

text \<open>
  The string functions of \<open>src/string.c\<close> over bytes in memory. \<open>char\<close> is compared for
  equality, and as \<open>unsigned char\<close> for order; results of type \<open>uint8\<close> turn \<open>-1\<close> into 255. A
  loop over a string that has no terminator may run for ever and is an option.
\<close>

section \<open>The code\<close>

partial_function (option) strlen_loop :: "mem \<Rightarrow> addr \<Rightarrow> uint32 \<Rightarrow> uint32 option" where
  "strlen_loop m ch i = (if m (ch + i) \<noteq> 0 then strlen_loop m ch (i + 1) else Some (i + 1))"

definition strlen :: "mem \<Rightarrow> addr \<Rightarrow> uint32 option" where
  "strlen m ch = map_option (\<lambda>i. i - 1) (strlen_loop m ch 0)"

partial_function (option) strcmp :: "mem \<Rightarrow> addr \<Rightarrow> addr \<Rightarrow> uint8 option" where
  "strcmp m s1 s2 =
     (if m s1 = m s2 then (if m s1 = 0 then Some 0 else strcmp m (s1 + 1) (s2 + 1))
      else Some (if m s1 < m s2 then - 1 else 1))"

partial_function (option) strncmp :: "mem \<Rightarrow> addr \<Rightarrow> addr \<Rightarrow> uint32 \<Rightarrow> uint8 option" where
  "strncmp m s1 s2 num =
     (if m s1 = m s2
      then (if m s1 = 0 \<or> num = 0 then Some 0 else strncmp m (s1 + 1) (s2 + 1) (num - 1))
      else Some (if m s1 < m s2 then - 1 else 1))"

definition strprefix :: "mem \<Rightarrow> addr \<Rightarrow> addr \<Rightarrow> bool option" where
  "strprefix m prefix str = do {
     n \<leftarrow> strlen m prefix;
     r \<leftarrow> strncmp m prefix str n;
     Some (r = 0)
   }"

text \<open>
  The loop \<open>while (--i)\<close> of \<open>str_backspace\<close>; it ends at \<open>i = 0\<close>, after wrapping round the
  address space when it starts with the empty string.
\<close>

function backspace_loop :: "mem \<Rightarrow> addr \<Rightarrow> uint8 \<Rightarrow> uint32 \<Rightarrow> uint8 \<times> mem" where
  "backspace_loop m s c i =
     (let j = i - 1
      in if j = 0 then (0, m)
         else if m (s + j) = c then (1, m(s + j + 1 := 0))
         else backspace_loop m s c j)"
  by pat_completeness auto
termination
proof (relation "measure (\<lambda>(m, s, c, i). unat (i - 1))")
  fix m :: mem and s :: addr and c :: uint8 and i j :: uint32
  assume "j = i - 1" and "j \<noteq> 0"
  then have "unat (j - 1) < unat j" by (metis diff_less unat_eq_0 unat_minus_one zero_less_one not_gr_zero)
  with \<open>j = i - 1\<close> show "((m, s, c, j), m, s, c, i) \<in> measure (\<lambda>(m, s, c, i). unat (i - 1))" by simp
qed simp

definition str_backspace :: "mem \<Rightarrow> addr \<Rightarrow> uint8 \<Rightarrow> (uint8 \<times> mem) option" where
  "str_backspace m s c = map_option (backspace_loop m s c) (strlen m s)"

text \<open>\<open>strReverse\<close> swaps with signed indices.\<close>

function reverse_loop :: "mem \<Rightarrow> addr \<Rightarrow> uint32 \<Rightarrow> uint32 \<Rightarrow> mem" where
  "reverse_loop m s i j =
     (if sint i < sint j
      then (let c = m (s + i); m1 = m(s + i := m (s + j)); m2 = m1(s + j := c)
            in reverse_loop m2 s (i + 1) (j - 1))
      else m)"
  by pat_completeness auto
termination
proof (relation "measure (\<lambda>(m, s, i, j). nat (sint j - sint i))")
  fix m m1 m2 :: mem and s :: addr and i j :: uint32 and c :: uint8
  assume lt: "sint i < sint j"
  have "sint (i + 1) = sint i + 1" and "sint (j - 1) = sint j - 1"
    using lt sint32_bounds [of i] sint32_bounds [of j] sint32_add [of i 1] sint32_sub [of j 1]
    by simp_all
  with lt show "((m2, s, i + 1, j - 1), m, s, i, j) \<in> measure (\<lambda>(m, s, i, j). nat (sint j - sint i))"
    by simp
qed simp

definition strReverse :: "mem \<Rightarrow> addr \<Rightarrow> mem option" where
  "strReverse m s = map_option (\<lambda>n. reverse_loop m s 0 (n - 1)) (strlen m s)"

declare backspace_loop.simps [simp del] reverse_loop.simps [simp del]

section \<open>Strings in memory\<close>

text \<open>\<open>cstr m p xs\<close>: the non-zero bytes \<open>xs\<close> lie at \<open>p\<close>, followed by a zero.\<close>

fun cstr :: "mem \<Rightarrow> addr \<Rightarrow> uint8 list \<Rightarrow> bool" where
  "cstr m p [] \<longleftrightarrow> m p = 0"
| "cstr m p (c # cs) \<longleftrightarrow> c \<noteq> 0 \<and> m p = c \<and> cstr m (p + 1) cs"

lemma cstr_unique: "cstr m p xs \<Longrightarrow> cstr m p ys \<Longrightarrow> xs = ys"
  by (induction m p xs arbitrary: ys rule: cstr.induct) (case_tac ys; auto)+

lemma cstr_nth:
  "cstr m p xs \<longleftrightarrow> (\<forall>i < length xs. m (p + of_nat i) = xs ! i \<and> xs ! i \<noteq> 0) \<and> m (p + of_nat (length xs)) = 0"
proof (induction m p xs rule: cstr.induct)
  case (2 m p c cs)
  have "(\<forall>i < length (c # cs). m (p + of_nat i) = (c # cs) ! i \<and> (c # cs) ! i \<noteq> 0) \<longleftrightarrow>
      m p = c \<and> c \<noteq> 0 \<and> (\<forall>i < length cs. m (p + 1 + of_nat i) = cs ! i \<and> cs ! i \<noteq> 0)"
    by (auto simp: less_Suc_eq_0_disj ac_simps)
  with 2 show ?case by (auto simp: ac_simps)
qed simp

lemma cstr_frame:
  "cstr m p xs \<Longrightarrow> (\<And>i. i \<le> length xs \<Longrightarrow> m' (p + of_nat i) = m (p + of_nat i)) \<Longrightarrow> cstr m' p xs"
  by (simp add: cstr_nth)

lemma cstr_drop:
  "cstr m p xs \<Longrightarrow> n \<le> length xs \<Longrightarrow> cstr m (p + of_nat n) (drop n xs)"
proof (induction n arbitrary: p xs)
  case (Suc n)
  then obtain c cs where "xs = c # cs" by (cases xs) auto
  with Suc.IH [of "p + 1" cs] Suc.prems show ?case by (simp add: ac_simps)
qed simp

text \<open>A string never fills the whole address space.\<close>

lemma cstr_length: "cstr m p xs \<Longrightarrow> length xs < 4294967296"
proof (rule ccontr)
  assume str: "cstr m p xs" and "\<not> length xs < 4294967296"
  define k where "k = length xs mod 4294967296"
  have k: "k < 4294967296" "k < length xs" using \<open>\<not> _\<close> by (auto simp: k_def)
  have "of_nat k = (of_nat (length xs) :: addr)"
    unfolding k_def by (simp add: word_unat_eq_iff unsigned_of_nat take_bit_eq_mod)
  with str k(2) show False by (auto simp: cstr_nth dest: spec [of _ k])
qed

lemma strlen_loop_cstr:
  "cstr m (p + i) xs \<Longrightarrow> strlen_loop m p i = Some (i + of_nat (length xs) + 1)"
proof (induction xs arbitrary: i)
  case Nil
  then show ?case by (simp add: strlen_loop.simps)
next
  case (Cons c cs)
  then show ?case using Cons.IH [of "i + 1"]
    by (subst strlen_loop.simps) (simp add: ac_simps)
qed

lemma strlen_cstr: "cstr m p xs \<Longrightarrow> strlen m p = Some (of_nat (length xs))"
  using strlen_loop_cstr [of m p 0 xs] by (simp add: strlen_def)

lemma strcmp_cstr:
  "cstr m p xs \<Longrightarrow> cstr m q ys \<Longrightarrow>
    strcmp m p q = Some (if xs = ys then 0 else if ord_class.lexordp xs ys then - 1 else 1)"
proof (induction xs arbitrary: p q ys)
  case Nil
  then show ?case by (cases ys) (auto simp: strcmp.simps [of m p q] word_gt_0)
next
  case (Cons c cs)
  show ?case
  proof (cases ys)
    case Nil
    with Cons.prems show ?thesis by (auto simp: strcmp.simps [of m p q])
  next
    case (Cons d ds)
    with Cons.prems Cons.IH [of "p + 1" "q + 1" ds] show ?thesis
      by (auto simp: strcmp.simps [of m p q])
  qed
qed

section \<open>Comparisons\<close>

lemma strncmp_cstr:
  assumes "cstr m p xs" and "cstr m q ys"
  shows "strncmp m p q n = Some (let k = unat n + 1 in
     if take k xs = take k ys then 0 else if ord_class.lexordp (take k xs) (take k ys) then - 1 else 1)"
  using assms
proof (induction xs arbitrary: p q ys n)
  case Nil
  then show ?case by (cases ys) (auto simp: strncmp.simps [of m p q] word_gt_0)
next
  case (Cons c cs)
  show ?case
  proof (cases ys)
    case Nil
    with Cons.prems show ?thesis by (auto simp: strncmp.simps [of m p q])
  next
    case (Cons d ds)
    have "unat n = Suc (unat (n - 1))" if "n \<noteq> 0"
      using that by (metis Suc_pred' unat_eq_0 unat_minus_one not_gr_zero)
    with Cons Cons.prems Cons.IH [of "p + 1" "q + 1" ds "n - 1"] show ?thesis
      by (auto simp: strncmp.simps [of m p q] Let_def)
  qed
qed

text \<open>
  \<open>strcmp\<close> of two strings returns, and returns 0 exactly on equal strings, 255 when the
  first is lexicographically smaller as unsigned bytes, and 1 when it is greater.
\<close>

theorem strcmp_compares:
  assumes "cstr m p xs" and "cstr m q ys"
  shows "strcmp m p q = Some (if xs = ys then 0 else if ord_class.lexordp xs ys then 255 else 1)"
  using strcmp_cstr [OF assms] by simp

text \<open>Two strings in memory: \<open>ab\<close> at 16 and \<open>abc\<close> at 32.\<close>

definition sample_strings :: mem where
  "sample_strings = (\<lambda>_. 0)(16 := 97, 17 := 98, 32 := 97, 33 := 98, 34 := 99)"

lemma sample_strings_cstr: "cstr sample_strings 16 [97, 98]" "cstr sample_strings 32 [97, 98, 99]"
  by (simp_all add: sample_strings_def)

theorem strcmp_compares_witness: "strcmp sample_strings 16 32 = Some 255"
  using strcmp_compares [OF sample_strings_cstr] by simp

text \<open>
  \<open>strprefix\<close> does not test for a prefix: \<open>strncmp\<close> looks at one byte more than it is
  asked for, the terminator of the prefix included, so the result is true only when the two
  strings are equal.
\<close>

theorem strprefix_is_equality:
  assumes "cstr m p xs" and "cstr m q ys"
  shows "strprefix m p q = Some (xs = ys)"
proof -
  have n: "unat (of_nat (length xs) :: uint32) = length xs"
    using cstr_length [OF assms(1)] by (simp add: unat_of_nat_small)
  have "take (Suc (length xs)) xs = take (Suc (length xs)) ys \<longleftrightarrow> xs = ys"
    by (metis Suc_n_not_le_n length_take less_or_eq_imp_le min_def nat_le_linear order_refl take_all)
  then show ?thesis
    by (simp add: strprefix_def strlen_cstr [OF assms(1)] strncmp_cstr [OF assms] n Let_def)
qed

theorem strprefix_is_equality_witness: "strprefix sample_strings 16 32 = Some False"
  using strprefix_is_equality [OF sample_strings_cstr] by simp

section \<open>str_backspace\<close>

text \<open>The reference: the last position in \<open>1 .. i - 1\<close> that holds \<open>c\<close>.\<close>

fun last_pos :: "uint8 \<Rightarrow> uint8 list \<Rightarrow> nat \<Rightarrow> nat option" where
  "last_pos c xs 0 = None"
| "last_pos c xs (Suc 0) = None"
| "last_pos c xs (Suc (Suc j)) = (if xs ! Suc j = c then Some (Suc j) else last_pos c xs (Suc j))"

lemma backspace_loop_last_pos:
  assumes "cstr m s xs" and "0 < i" and "i \<le> length xs"
  shows "backspace_loop m s c (of_nat i) = (case last_pos c xs i of
      None \<Rightarrow> (0, m) | Some j \<Rightarrow> (1, m(s + of_nat (Suc j) := 0)))"
  using assms
proof (induction c xs i rule: last_pos.induct)
  case (2 c xs)
  then show ?case by (subst backspace_loop.simps) simp
next
  case (3 c xs j)
  have "length xs < 4294967296" using cstr_length "3.prems"(1) by blast
  then have "unat (of_nat (Suc j) :: addr) = Suc j"
    using "3.prems"(3) by (intro unat_of_nat_small) simp
  then have nz: "(of_nat (Suc j) :: addr) \<noteq> 0" by (metis unat_0 nat.distinct(1))
  have pred: "(of_nat (Suc (Suc j)) :: addr) - 1 = of_nat (Suc j)" by simp
  have nx: "s + of_nat (Suc j) + 1 = s + (of_nat (Suc (Suc j)) :: addr)" by simp
  have "m (s + of_nat (Suc j)) = xs ! Suc j"
    using "3.prems" unfolding cstr_nth by (auto simp del: of_nat_Suc)
  then show ?case
    using "3.IH" "3.prems" nz
    by (subst backspace_loop.simps) (simp add: Let_def pred nx del: of_nat_Suc)
qed simp

lemma last_pos_range: "last_pos c xs i = Some j \<Longrightarrow> 0 < j \<and> j < i \<and> xs ! j = c"
  by (induction c xs i rule: last_pos.induct) (auto split: if_splits)

lemma last_pos_here: "0 < j \<Longrightarrow> xs ! j = c \<Longrightarrow> last_pos c xs (Suc j) = Some j"
  by (cases j) auto

lemma cstr_cut:
  assumes "cstr m s xs" and "j < length xs"
  shows "cstr (m(s + of_nat (Suc j) := 0)) s (take (Suc j) xs)"
proof -
  have "(of_nat i :: addr) \<noteq> of_nat (Suc j)" if "i < Suc j" for i
    using that assms(2) cstr_length [OF assms(1)] by (subst of_nat_inj32) auto
  then show ?thesis
    using assms by (auto simp: cstr_nth min_def simp del: of_nat_Suc)
qed

lemma str_backspace_last_pos:
  assumes "cstr m s xs" and "xs \<noteq> []"
  shows "str_backspace m s c = Some (case last_pos c xs (length xs) of
      None \<Rightarrow> (0, m) | Some j \<Rightarrow> (1, m(s + of_nat (Suc j) := 0)))"
  using backspace_loop_last_pos [OF assms(1), of "length xs" c] assms
  by (simp add: str_backspace_def strlen_cstr del: of_nat_Suc)

text \<open>
  \<open>str_backspace\<close> of a non-empty string cuts it behind the last occurrence of \<open>c\<close> at
  position 1 or later and keeps that occurrence; it returns 0 and changes nothing when there is
  none. So a second call with the same character changes nothing.
\<close>

theorem str_backspace_cuts:
  assumes "cstr m s xs" and "xs \<noteq> []"
  shows "case last_pos c xs (length xs) of
      None \<Rightarrow> str_backspace m s c = Some (0, m)
    | Some j \<Rightarrow> \<exists>m'. str_backspace m s c = Some (1, m') \<and> cstr m' s (take (Suc j) xs) \<and>
        str_backspace m' s c = Some (1, m')"
proof (cases "last_pos c xs (length xs)")
  case None
  then show ?thesis by (simp add: str_backspace_last_pos [OF assms])
next
  case (Some j)
  let ?m = "m(s + of_nat (Suc j) := 0)" and ?ys = "take (Suc j) xs"
  note j = last_pos_range [OF Some]
  have ys: "cstr ?m s ?ys" using cstr_cut [OF assms(1)] j by blast
  have "length ?ys = Suc j" "?ys ! j = c" using j by auto
  then have "last_pos c ?ys (length ?ys) = Some j" using last_pos_here j by simp
  then have "str_backspace ?m s c = Some (1, ?m)"
    using str_backspace_last_pos [OF ys, of c] j assms(2) by (simp del: of_nat_Suc)
  with Some ys show ?thesis by (simp add: str_backspace_last_pos [OF assms] del: of_nat_Suc)
qed

theorem str_backspace_cuts_witness:
  "\<exists>m'. str_backspace sample_strings 32 98 = Some (1, m') \<and> cstr m' 32 [97, 98]"
proof -
  have "last_pos 98 [97, 98, 99] (length [97, 98, 99 :: uint8]) = Some 1"
    by (simp add: numeral_eq_Suc)
  with str_backspace_cuts [OF sample_strings_cstr(2), of 98] show ?thesis
    by (auto simp: numeral_eq_Suc)
qed

section \<open>strReverse\<close>

text \<open>What the swaps leave in the bytes \<open>i .. i + n - 1\<close> of the string: those of the old memory, reversed.\<close>

definition mirrored :: "mem \<Rightarrow> mem \<Rightarrow> addr \<Rightarrow> nat \<Rightarrow> nat \<Rightarrow> bool" where
  "mirrored m m' s i n \<longleftrightarrow>
     (\<forall>k < n. m' (s + of_nat (i + k)) = m (s + of_nat (i + n - 1 - k))) \<and>
     (\<forall>x. (\<forall>k < n. x \<noteq> s + of_nat (i + k)) \<longrightarrow> m' x = m x)"

lemma mirrored_swap:
  assumes b: "i + Suc (Suc l) < 2147483648"
    and rest: "mirrored ((m(s + of_nat i := m (s + of_nat (i + Suc l))))
      (s + of_nat (i + Suc l) := m (s + of_nat i))) m' s (Suc i) l"
  shows "mirrored m m' s i (Suc (Suc l))"
proof -
  define m2 where "m2 = (m(s + of_nat i := m (s + of_nat (i + Suc l))))
    (s + of_nat (i + Suc l) := m (s + of_nat i))"
  have inj: "s + of_nat a = s + (of_nat b :: addr) \<longleftrightarrow> a = b"
    if "a < 2147483648" "b < 2147483648" for a b
    using that of_nat_inj32 [of a b] by simp
  have IH: "\<And>k. k < l \<Longrightarrow> m' (s + of_nat (Suc i + k)) = m2 (s + of_nat (Suc i + l - 1 - k))"
    and out: "\<And>x. (\<forall>k < l. x \<noteq> s + of_nat (Suc i + k)) \<Longrightarrow> m' x = m2 x"
    using rest unfolding mirrored_def m2_def [symmetric] by auto
  have m2: "m2 (s + of_nat a) =
      (if a = i + Suc l then m (s + of_nat i) else if a = i then m (s + of_nat (i + Suc l)) else m (s + of_nat a))"
    if "a < 2147483648" for a
    using that b inj [of a i] inj [of a "i + Suc l"]
    by (auto simp: m2_def simp del: of_nat_Suc of_nat_add)
  have "m' (s + of_nat (i + k)) = m (s + of_nat (i + Suc (Suc l) - 1 - k))" if k: "k < Suc (Suc l)" for k
  proof (cases "k = 0 \<or> k = Suc l")
    case True
    have "\<forall>k' < l. s + of_nat (i + k) \<noteq> s + (of_nat (Suc i + k') :: addr)"
    proof (intro allI impI)
      fix k' assume "k' < l"
      with True b show "s + of_nat (i + k) \<noteq> s + (of_nat (Suc i + k') :: addr)"
        by (subst inj) auto
    qed
    then have "m' (s + of_nat (i + k)) = m2 (s + of_nat (i + k))" by (rule out)
    with True b m2 [of "i + k"] show ?thesis by auto
  next
    case False
    then obtain k' where k': "k = Suc k'" "k' < l" using k by (cases k) auto
    have e: "i + k = Suc i + k'" using k' by simp
    have "m' (s + of_nat (i + k)) = m2 (s + of_nat (Suc i + l - 1 - k'))"
      unfolding e by (rule IH [OF k'(2)])
    also have "Suc i + l - 1 - k' = i + Suc (Suc l) - 1 - k" using k' by simp
    also have "m2 (s + of_nat (i + Suc (Suc l) - 1 - k)) = m (s + of_nat (i + Suc (Suc l) - 1 - k))"
      using k' b by (subst m2) auto
    finally show ?thesis .
  qed
  moreover have "m' x = m x" if x: "\<forall>k < Suc (Suc l). x \<noteq> s + of_nat (i + k)" for x
  proof -
    have "\<forall>k < l. x \<noteq> s + of_nat (Suc i + k)"
    proof (intro allI impI)
      fix k assume "k < l"
      with x [THEN spec, of "Suc k"] show "x \<noteq> s + of_nat (Suc i + k)" by simp
    qed
    then have "m' x = m2 x" by (rule out)
    moreover have "x \<noteq> s + of_nat i" "x \<noteq> s + of_nat (i + Suc l)"
      using x [THEN spec, of 0] x [THEN spec, of "Suc l"] by (auto simp del: of_nat_Suc of_nat_add)
    ultimately show ?thesis by (simp add: m2_def)
  qed
  ultimately show ?thesis unfolding mirrored_def by blast
qed

lemma reverse_loop_mirrored:
  "i + n < 2147483648 \<Longrightarrow>
    mirrored m (reverse_loop m s (of_nat i) (of_nat (i + n) - 1)) s i n"
proof (induction n arbitrary: i m rule: less_induct)
  case (less n)
  let ?j = "of_nat (i + n) - 1 :: uint32"
  have si: "sint (of_nat i :: uint32) = int i" using less.prems by (intro sint32_of_nat) simp
  have sj: "sint ?j = int i + int n - 1"
    using less.prems by (subst sint32_sub) (simp_all add: sint32_of_nat del: of_nat_add)
  show ?case
  proof (cases "n < 2")
    case True
    then have "\<not> sint (of_nat i :: uint32) < sint ?j" by (simp only: si sj)
    then have "reverse_loop m s (of_nat i) ?j = m"
      by (subst reverse_loop.simps) simp
    with True show ?thesis by (auto simp: mirrored_def less_2_cases_iff)
  next
    case False
    then obtain l where n: "n = Suc (Suc l)" by (metis add_2_eq_Suc le_Suc_ex not_less)
    have j: "?j = of_nat (i + Suc l)" by (simp add: n)
    have "sint (of_nat i :: uint32) < sint ?j" unfolding si sj using n by simp
    then have "reverse_loop m s (of_nat i) ?j =
        reverse_loop ((m(s + of_nat i := m (s + of_nat (i + Suc l))))
          (s + of_nat (i + Suc l) := m (s + of_nat i))) s (of_nat (Suc i)) (of_nat (Suc i + l) - 1)"
      unfolding j by (subst reverse_loop.simps) (simp add: Let_def ac_simps)
    with less.IH [of l "Suc i"] less.prems n show ?thesis
      by (auto intro!: mirrored_swap)
  qed
qed

lemma strReverse_mirrors:
  assumes "cstr m p xs" and "length xs < 2147483648"
  shows "\<exists>m'. strReverse m p = Some m' \<and> cstr m' p (rev xs) \<and>
    (\<forall>x. (\<forall>k < length xs. x \<noteq> p + of_nat k) \<longrightarrow> m' x = m x)"
proof -
  define n where "n = length xs"
  define m' where "m' = reverse_loop m p 0 (of_nat n - 1)"
  have swap: "\<And>k. k < n \<Longrightarrow> m' (p + of_nat k) = m (p + of_nat (n - 1 - k))"
    and out: "\<And>x. \<forall>k < n. x \<noteq> p + of_nat k \<Longrightarrow> m' x = m x"
    using reverse_loop_mirrored [of 0 n m p] assms(2) by (auto simp: mirrored_def m'_def n_def)
  have "m' (p + of_nat k) = rev xs ! k \<and> rev xs ! k \<noteq> 0" if "k < n" for k
  proof -
    have "n - 1 - k < length xs" using that by (simp add: n_def)
    with assms(1) swap [OF that] that show ?thesis
      unfolding cstr_nth by (simp add: rev_nth n_def del: of_nat_diff)
  qed
  moreover have "\<forall>k < n. p + of_nat n \<noteq> p + (of_nat k :: addr)"
    using assms(2) of_nat_inj32 [of n] by (auto simp: n_def)
  with out [of "p + of_nat n"] assms(1) have "m' (p + of_nat n) = 0"
    by (simp add: cstr_nth n_def)
  ultimately have "cstr m' p (rev xs)" by (simp add: cstr_nth n_def)
  with out show ?thesis
    by (auto simp: strReverse_def strlen_cstr [OF assms(1)] m'_def n_def)
qed

text \<open>
  \<open>strReverse\<close> of a string shorter than \<open>2^31\<close> returns with the string reversed in place
  and no other byte changed.
\<close>

theorem strReverse_reverses:
  assumes "cstr m p xs" and "length xs < 2147483648"
  shows "\<exists>m'. strReverse m p = Some m' \<and> cstr m' p (rev xs) \<and>
    (\<forall>x. (\<forall>k < length xs. x \<noteq> p + of_nat k) \<longrightarrow> m' x = m x)"
  by (rule strReverse_mirrors [OF assms])

theorem strReverse_reverses_witness:
  "\<exists>m'. strReverse sample_strings 32 = Some m' \<and> cstr m' 32 [99, 98, 97]"
  using strReverse_reverses [OF sample_strings_cstr(2)] by auto

end
