(* ===== verification/Convert.thy ===== *)
theory Convert
  imports CStrings
begin

text \<open>
  Number to text, \<open>src/util.c\<close>: \<open>uitoa\<close> and \<open>itoa\<close> write the digits from the least
  significant one into the buffer and then reverse the string. Division by a base of 0 stops the
  process with a divide error, a base of 1 never ends: both are \<open>None\<close>.
\<close>

section \<open>The code\<close>

definition uitoa_table :: "uint8 list" where
  "uitoa_table = map of_char ''uyxwvutsrqponmlkjihgfedcba9876543210123456789abcdefghijklmnopqrstuvwxyz''"

definition itoa_table :: "uint8 list" where
  "itoa_table = map of_char ''zyxwvutsrqponmlkjihgfedcba9876543210123456789abcdefghijklmnopqrstuvwxyz''"

text \<open>Reading a string literal: its bytes, then the terminator, then memory that is not its own.\<close>

definition literal_byte :: "uint8 list \<Rightarrow> nat \<Rightarrow> uint8 option" where
  "literal_byte t k = (if k < length t then Some (t ! k) else if k = length t then Some 0 else None)"

partial_function (option) uitoa_loop ::
    "mem \<Rightarrow> uint32 \<Rightarrow> addr \<Rightarrow> uint8 \<Rightarrow> uint32 \<Rightarrow> (mem \<times> uint32) option" where
  "uitoa_loop m n str base i =
     (if base = 0 then None
      else case literal_byte uitoa_table (unat (35 + n mod ucast base)) of
        None \<Rightarrow> None
      | Some ch \<Rightarrow>
          (let m1 = m(str + i := ch); n1 = n div ucast base
           in if 0 < n1 then uitoa_loop m1 n1 str base (i + 1) else Some (m1, i + 1)))"

definition uitoa :: "mem \<Rightarrow> uint32 \<Rightarrow> addr \<Rightarrow> uint8 \<Rightarrow> mem option" where
  "uitoa m n str base = do {
     (m1, i) \<leftarrow> uitoa_loop m n str base 0;
     strReverse (m1(str + i := 0)) str
   }"

text \<open>
  The loop of \<open>itoa\<close> is signed; \<open>n\<close> is the value of the \<open>int\<close>, and \<open>/\<close> and \<open>%\<close> truncate.
\<close>

definition c_div :: "int \<Rightarrow> int \<Rightarrow> int" where "c_div a b = sgn a * sgn b * (\<bar>a\<bar> div \<bar>b\<bar>)"

definition c_mod :: "int \<Rightarrow> int \<Rightarrow> int" where "c_mod a b = sgn a * (\<bar>a\<bar> mod \<bar>b\<bar>)"

partial_function (option) itoa_loop ::
    "mem \<Rightarrow> int \<Rightarrow> addr \<Rightarrow> int \<Rightarrow> uint32 \<Rightarrow> (mem \<times> uint32) option" where
  "itoa_loop m n str base i =
     (if base = 0 \<or> n = - 2147483648 \<and> base = - 1 then None
      else if 35 + c_mod n base < 0 then None
      else case literal_byte itoa_table (nat (35 + c_mod n base)) of
        None \<Rightarrow> None
      | Some ch \<Rightarrow>
          (let m1 = m(str + i := ch); n1 = c_div n base
           in if 0 < n1 then itoa_loop m1 n1 str base (i + 1) else Some (m1, i + 1)))"

definition itoa :: "mem \<Rightarrow> uint32 \<Rightarrow> addr \<Rightarrow> uint32 \<Rightarrow> mem option" where
  "itoa m n str base =
     (if \<not> sint n < 0 then uitoa m n str (ucast base)
      else do {
        (m1, i) \<leftarrow> itoa_loop m (sint (- n)) str (sint base) 0;
        strReverse (m1(str + i := 45, str + (i + 1) := 0)) str
      })"

section \<open>Bytes written one after the other\<close>

fun write_bytes :: "mem \<Rightarrow> addr \<Rightarrow> uint8 list \<Rightarrow> mem" where
  "write_bytes m p [] = m"
| "write_bytes m p (c # cs) = write_bytes (m(p := c)) (p + 1) cs"

lemma write_bytes_snoc:
  "write_bytes m p (cs @ [c]) = (write_bytes m p cs)(p + of_nat (length cs) := c)"
  by (induction m p cs rule: write_bytes.induct) (simp_all add: ac_simps del: fun_upd_apply)

lemma write_bytes_outside:
  "(\<forall>k < length cs. x \<noteq> p + of_nat k) \<Longrightarrow> write_bytes m p cs x = m x"
proof (induction cs rule: rev_induct)
  case (snoc c cs)
  then show ?case by (auto simp: write_bytes_snoc less_Suc_eq)
qed simp

lemma write_bytes_nth:
  "length cs < 4294967296 \<Longrightarrow> k < length cs \<Longrightarrow> write_bytes m p cs (p + of_nat k) = cs ! k"
proof (induction cs rule: rev_induct)
  case (snoc c cs)
  show ?case
  proof (cases "k = length cs")
    case False
    with snoc.prems have k: "k < length cs" by simp
    then have "of_nat k \<noteq> (of_nat (length cs) :: addr)"
      using snoc.prems(1) by (subst of_nat_inj32) auto
    with snoc k show ?thesis by (simp add: write_bytes_snoc nth_append)
  qed (simp add: write_bytes_snoc)
qed simp

lemma cstr_write_bytes:
  assumes "length cs < 4294967296" and "0 \<notin> set cs"
  shows "cstr ((write_bytes m p cs)(p + of_nat (length cs) := 0)) p cs"
proof -
  have "of_nat k \<noteq> (of_nat (length cs) :: addr)" if "k < length cs" for k
    using that assms(1) by (subst of_nat_inj32) auto
  with assms show ?thesis by (auto simp: cstr_nth write_bytes_nth in_set_conv_nth)
qed

section \<open>Digits\<close>

text \<open>The digits of a number, least significant first, and how one is written.\<close>

function lsd :: "nat \<Rightarrow> nat \<Rightarrow> nat list" where
  "lsd b n = (if b < 2 then [] else n mod b # (if n div b = 0 then [] else lsd b (n div b)))"
  by pat_completeness auto
termination
proof (relation "measure snd")
  fix b n :: nat
  assume "\<not> b < 2" and "n div b \<noteq> 0"
  then show "((b, n div b), b, n) \<in> measure snd"
    by (cases n) (auto intro: div_less_dividend)
qed simp

declare lsd.simps [simp del]

definition digit_byte :: "nat \<Rightarrow> uint8" where
  "digit_byte d = (if d < 10 then of_nat (48 + d) else of_nat (87 + d))"

definition digits_text :: "nat \<Rightarrow> nat \<Rightarrow> uint8 list" where
  "digits_text b n = map digit_byte (rev (lsd b n))"

lemma lsd_value: "2 \<le> b \<Longrightarrow> foldr (\<lambda>d a. d + b * a) (lsd b n) 0 = n"
proof (induction b n rule: lsd.induct)
  case (1 b n)
  then show ?case by (subst lsd.simps) (auto simp: div_eq_0_iff)
qed

lemma lsd_small: "d \<in> set (lsd b n) \<Longrightarrow> d < b"
proof (induction b n rule: lsd.induct)
  case (1 b n)
  from "1.prems" have "\<not> b < 2" by (subst (asm) lsd.simps) (auto split: if_splits)
  with 1 show ?case by (subst (asm) (2) lsd.simps) (auto split: if_splits)
qed

lemma length_lsd: "2 \<le> b \<Longrightarrow> n < b ^ k \<Longrightarrow> 0 < k \<Longrightarrow> length (lsd b n) \<le> k"
proof (induction k arbitrary: n)
  case (Suc k)
  show ?case
  proof (cases "n div b = 0")
    case True
    then show ?thesis by (subst lsd.simps) simp
  next
    case False
    have "n div b < b ^ k" using Suc.prems by (simp add: less_mult_imp_div_less ac_simps)
    moreover from this False have "0 < k" by (cases k) auto
    ultimately have "length (lsd b (n div b)) \<le> k" using Suc by blast
    then show ?thesis by (subst lsd.simps) simp
  qed
qed simp

lemma tables_digit:
  assumes "d < 36"
  shows "literal_byte uitoa_table (35 + d) = Some (digit_byte d)"
    and "literal_byte itoa_table (35 + d) = Some (digit_byte d)"
proof -
  have "\<forall>d \<in> set [0..<36]. literal_byte uitoa_table (35 + d) = Some (digit_byte d) \<and>
      literal_byte itoa_table (35 + d) = Some (digit_byte d)"
    by code_simp
  with assms show "literal_byte uitoa_table (35 + d) = Some (digit_byte d)"
    and "literal_byte itoa_table (35 + d) = Some (digit_byte d)" by auto
qed

lemma digit_byte_nz: "d < 36 \<Longrightarrow> digit_byte d \<noteq> 0"
proof -
  have "\<forall>d \<in> set [0..<36]. digit_byte d \<noteq> 0" by code_simp
  then show "d < 36 \<Longrightarrow> digit_byte d \<noteq> 0" by simp
qed

lemma digits_text_nz: "2 \<le> b \<Longrightarrow> b \<le> 36 \<Longrightarrow> 0 \<notin> set (digits_text b n)"
  using digit_byte_nz lsd_small [of _ b n] by (fastforce simp: digits_text_def)

section \<open>What the loops write\<close>

lemma uitoa_loop_lsd:
  assumes b: "2 \<le> unat base" "unat base \<le> 36"
  shows "uitoa_loop m n str base i =
    Some (write_bytes m (str + i) (map digit_byte (lsd (unat base) (unat n))),
      i + of_nat (length (lsd (unat base) (unat n))))"
proof (induction "unat n" arbitrary: n m i rule: less_induct)
  case less
  define B where "B = (ucast base :: uint32)"
  have uB: "unat B = unat base"
    using b by (simp add: B_def unsigned_ucast_eq take_bit_nat_eq_self_iff)
  have r: "unat n mod unat base < 36"
    using b mod_less_divisor [of "unat base" "unat n"] by linarith
  then have "unat (35 + n mod B) = 35 + unat n mod unat base"
    by (subst unat_add_small) (simp_all add: unat_mod uB)
  with r have ch: "literal_byte uitoa_table (unat (35 + n mod B)) =
      Some (digit_byte (unat n mod unat base))"
    by (simp add: tables_digit)
  have b0: "base \<noteq> 0" using b by auto
  have dv: "unat (n div B) = unat n div unat base" by (simp add: unat_div uB)
  show ?case
  proof (cases "n div B = 0")
    case True
    then have "unat n div unat base = 0" using dv by simp
    then have l: "lsd (unat base) (unat n) = [unat n mod unat base]"
      using b by (subst lsd.simps) simp
    show ?thesis
      using b0 ch True by (subst uitoa_loop.simps) (simp add: l B_def [symmetric])
  next
    case False
    then have dz: "unat n div unat base \<noteq> 0" using dv by (metis unat_eq_0)
    then have "unat (n div B) < unat n" using b by (cases "unat n = 0") (auto simp: dv)
    note IH = less [OF this, unfolded dv]
    have l: "lsd (unat base) (unat n) = unat n mod unat base # lsd (unat base) (unat n div unat base)"
      using b dz by (subst lsd.simps) simp
    have "uitoa_loop m n str base i =
        uitoa_loop (m(str + i := digit_byte (unat n mod unat base))) (n div B) str base (i + 1)"
      using b0 ch False by (subst uitoa_loop.simps) (simp add: B_def [symmetric] word_gt_0 Let_def)
    then show ?thesis by (simp add: IH l ac_simps)
  qed
qed

lemma lsd_length32: "2 \<le> b \<Longrightarrow> length (lsd b (unat (n :: uint32))) \<le> 32"
proof -
  assume "2 \<le> b"
  then have "(2 :: nat) ^ 32 \<le> b ^ 32" by (intro power_mono) auto
  with unat32_lt [of n] have "unat n < b ^ 32" by simp
  with \<open>2 \<le> b\<close> show ?thesis by (intro length_lsd) auto
qed

text \<open>The reversal at the end of both functions.\<close>

lemma write_then_reverse:
  assumes "length cs < 2147483648" and "0 \<notin> set cs"
  shows "\<exists>m'. strReverse ((write_bytes m p cs)(p + of_nat (length cs) := 0)) p = Some m' \<and>
    cstr m' p (rev cs) \<and> (\<forall>x. (\<forall>k \<le> length cs. x \<noteq> p + of_nat k) \<longrightarrow> m' x = m x)"
proof -
  let ?m = "(write_bytes m p cs)(p + of_nat (length cs) := 0)"
  have "cstr ?m p cs" using assms by (intro cstr_write_bytes) auto
  from strReverse_mirrors [OF this assms(1)] obtain m' where
    m': "strReverse ?m p = Some m'" "cstr m' p (rev cs)"
      "\<And>x. (\<forall>k < length cs. x \<noteq> p + of_nat k) \<Longrightarrow> m' x = ?m x" by blast
  have "m' x = m x" if "\<forall>k \<le> length cs. x \<noteq> p + of_nat k" for x
    using that m'(3) [of x] write_bytes_outside [of cs x p m] by auto
  with m'(1,2) show ?thesis by blast
qed

lemma uitoa_text:
  assumes "2 \<le> unat base" "unat base \<le> 36"
  shows "\<exists>m'. uitoa m n str base = Some m' \<and> cstr m' str (digits_text (unat base) (unat n)) \<and>
    (\<forall>x. (\<forall>k \<le> length (lsd (unat base) (unat n)). x \<noteq> str + of_nat k) \<longrightarrow> m' x = m x)"
proof -
  let ?l = "lsd (unat base) (unat n)" and ?cs = "map digit_byte (lsd (unat base) (unat n))"
  have "length ?cs < 2147483648" using lsd_length32 [OF assms(1), of n] by simp
  moreover have "0 \<notin> set ?cs" using digits_text_nz [OF assms] by (simp add: digits_text_def)
  ultimately show ?thesis
    using write_then_reverse [of ?cs m str]
    by (simp add: uitoa_def uitoa_loop_lsd [OF assms] digits_text_def rev_map)
qed

text \<open>
  For every base from 2 to 36, \<open>uitoa\<close> returns with a string in the buffer whose characters
  are the digits of \<open>n\<close> in that base, most significant first; their value is \<open>n\<close>, there are at
  most 32, and no byte outside the string and its terminator changes.
\<close>

theorem uitoa_prints:
  assumes "2 \<le> unat base" "unat base \<le> 36"
  shows "\<exists>m' ds. uitoa m n str base = Some m' \<and> cstr m' str (map digit_byte ds) \<and>
    foldl (\<lambda>a d. a * unat base + d) 0 ds = unat n \<and> (\<forall>d \<in> set ds. d < unat base) \<and>
    length ds \<le> 32 \<and> (\<forall>x. (\<forall>k \<le> length ds. x \<noteq> str + of_nat k) \<longrightarrow> m' x = m x)"
proof -
  let ?ds = "rev (lsd (unat base) (unat n))"
  have "foldl (\<lambda>a d. a * unat base + d) 0 ?ds = unat n"
    using lsd_value [OF assms(1), of "unat n"] by (simp add: foldl_conv_foldr ac_simps)
  moreover have "\<forall>d \<in> set ?ds. d < unat base" using lsd_small by auto
  ultimately show ?thesis
    using uitoa_text [OF assms, of m n str] lsd_length32 [OF assms(1), of n]
    by (metis digits_text_def length_rev)
qed

theorem uitoa_prints_witness:
  "\<exists>m' ds. uitoa (\<lambda>_. 0) 255 4096 16 = Some m' \<and> cstr m' 4096 (map digit_byte ds) \<and>
    foldl (\<lambda>a d. a * 16 + d) 0 ds = 255"
  using uitoa_prints [of 16 "\<lambda>_. 0" 255 4096] by auto

lemma itoa_loop_lsd:
  assumes b: "2 \<le> base" "base \<le> 36" and n: "0 \<le> n"
  shows "itoa_loop m n str base i =
    Some (write_bytes m (str + i) (map digit_byte (lsd (nat base) (nat n))),
      i + of_nat (length (lsd (nat base) (nat n))))"
  using n
proof (induction "nat n" arbitrary: n m i rule: less_induct)
  case less
  have md: "c_mod n base = n mod base" and dv: "c_div n base = n div base"
    using b less.prems by (auto simp: c_mod_def c_div_def sgn_if)
  have r: "0 \<le> n mod base" "n mod base < 36"
    using b pos_mod_bound [of base n] by (simp, linarith)
  have nm: "nat n mod nat base = nat (n mod base)" and nd: "nat n div nat base = nat (n div base)"
    using b less.prems by (auto simp: nat_mod_distrib nat_div_distrib)
  have ch: "literal_byte itoa_table (nat (35 + c_mod n base)) =
      Some (digit_byte (nat n mod nat base))"
    using r tables_digit(2) [of "nat (n mod base)"] by (simp add: md nm nat_add_distrib)
  have pre: "\<not> (base = 0 \<or> n = - 2147483648 \<and> base = - 1)" "\<not> 35 + c_mod n base < 0"
    using b r unfolding md by linarith+
  show ?case
  proof (cases "n div base = 0")
    case True
    then have l: "lsd (nat base) (nat n) = [nat n mod nat base]"
      using b by (subst lsd.simps) (simp add: nd)
    show ?thesis
      using pre ch True by (subst itoa_loop.simps) (simp add: l dv)
  next
    case False
    with b less.prems have pos: "0 < n div base" by (simp add: pos_imp_zdiv_nonneg_iff order_neq_le_trans)
    then have "n div base < n" using b by (simp add: int_div_less_self pos_imp_zdiv_pos_iff)
    then have "nat (n div base) < nat n" using pos by simp
    note IH = less.hyps [OF this less_imp_le [OF pos]]
    have l: "lsd (nat base) (nat n) = nat n mod nat base # lsd (nat base) (nat (n div base))"
      using b pos by (subst lsd.simps) (simp add: nd)
    have "itoa_loop m n str base i =
        itoa_loop (m(str + i := digit_byte (nat n mod nat base))) (n div base) str base (i + 1)"
      using pre ch pos b by (subst itoa_loop.simps) (auto simp: dv Let_def)
    then show ?thesis by (simp add: IH l ac_simps)
  qed
qed

lemma itoa_text:
  assumes "2 \<le> sint base" "sint base \<le> 36" and "sint n \<noteq> - 2147483648"
  shows "\<exists>m'. itoa m n str base = Some m' \<and>
    cstr m' str ((if sint n < 0 then [45] else []) @ digits_text (nat (sint base)) (nat \<bar>sint n\<bar>)) \<and>
    (\<forall>x. (\<forall>k \<le> 33. x \<noteq> str + of_nat k) \<longrightarrow> m' x = m x)"
proof -
  let ?b = "nat (sint base)"
  have b: "2 \<le> ?b" "?b \<le> 36" using assms by auto
  show ?thesis
  proof (cases "sint n < 0")
    case False
    have un: "nat \<bar>sint n\<bar> = unat n" using False sint32_nonneg [of n] by simp
    have "unat base = ?b" using assms(1) sint32_nonneg [of base] by simp
    then have "unat (ucast base :: uint8) = ?b"
      using b by (simp add: unsigned_ucast_eq take_bit_nat_eq_self_iff)
    with uitoa_text [of "ucast base" m n str] b False un lsd_length32 [OF b(1), of n] show ?thesis
      by (fastforce simp: itoa_def)
  next
    case True
    have neg: "sint (- n) = - sint n"
      using sint32_sub [of 0 n] assms(3) True sint32_bounds [of n] by simp
    let ?cs = "map digit_byte (lsd ?b (nat (- sint n))) @ [45]"
    have "nat (- sint n) < 2 ^ 32" using sint32_bounds [of n] by simp
    moreover have "(2 :: nat) ^ 32 \<le> ?b ^ 32" using b by (intro power_mono) auto
    ultimately have "length (lsd ?b (nat (- sint n))) \<le> 32" using b by (intro length_lsd) auto
    then have len: "length ?cs < 2147483648" by simp
    have nz: "0 \<notin> set ?cs" using digits_text_nz [OF b] by (simp add: digits_text_def)
    have "length ?cs \<le> 33" using \<open>length (lsd ?b (nat (- sint n))) \<le> 32\<close> by simp
    then obtain m' where "strReverse ((write_bytes m str ?cs)(str + of_nat (length ?cs) := 0)) str = Some m'"
        "cstr m' str (rev ?cs)" "\<forall>x. (\<forall>k \<le> 33. x \<noteq> str + of_nat k) \<longrightarrow> m' x = m x"
      using write_then_reverse [OF len nz, of m str] by fastforce
    then show ?thesis
      using True assms itoa_loop_lsd [of "sint base" "- sint n" m str 0]
      by (auto simp: itoa_def neg write_bytes_snoc digits_text_def rev_map ac_simps)
  qed
qed

text \<open>
  For a base from 2 to 36 and a negative \<open>n\<close> other than the least one, \<open>itoa\<close> returns with
  a minus sign followed by the digits of the absolute value; for \<open>n\<close> not negative it is
  \<open>uitoa\<close>.
\<close>

theorem itoa_prints:
  assumes "2 \<le> sint base" "sint base \<le> 36" and "sint n \<noteq> - 2147483648"
  shows "\<exists>m'. itoa m n str base = Some m' \<and>
    cstr m' str ((if sint n < 0 then [45] else []) @ digits_text (nat (sint base)) (nat \<bar>sint n\<bar>))"
  using itoa_text [OF assms] by blast

theorem itoa_prints_witness:
  "\<exists>m'. itoa (\<lambda>_. 0) (- 255) 4096 16 = Some m' \<and> cstr m' 4096 [45, 102, 102]"
proof -
  have "digits_text 16 255 = [102, 102]" by code_simp
  then show ?thesis using itoa_prints [of 16 "- 255" "\<lambda>_. 0" 4096] by simp
qed

text \<open>
  The least \<open>int\<close> is printed wrongly: negating it overflows, so in base 10 only its last
  digit is written, and the text is \<open>-8\<close>.
\<close>

theorem itoa_least_int:
  "\<exists>m'. itoa m (- 2147483648) str 10 = Some m' \<and> cstr m' str [45, 56]"
proof -
  have "literal_byte itoa_table 27 = Some 56" by code_simp
  then have "itoa_loop m (- 2147483648) str 10 0 = Some (write_bytes m str [56], 1)"
    by (subst itoa_loop.simps) (simp add: c_mod_def c_div_def Let_def)
  moreover obtain m' where "strReverse (m(str := 56, str + 1 := 45, str + 2 := 0)) str = Some m'"
      "cstr m' str [45, 56]"
    using write_then_reverse [of "[56, 45]" m str] by (auto simp del: cstr.simps)
  ultimately show ?thesis by (auto simp: itoa_def simp del: cstr.simps)
qed

end
