(* ===== verification/Formatting.thy ===== *)
theory Formatting
  imports Convert
begin

text \<open>
  \<open>src/stdlib/format.c\<close>: the formatted output \<open>vsnprintf\<close> and the formatted input \<open>vsscanf\<close>.
  Format strings and scanned strings are constants; each is the list of its bytes with the
  terminating 0, and reading behind the terminator has no result (\<open>None\<close>). The output buffer
  and the targets of conversions are in memory. The variable arguments are the list of their
  words; taking an argument that is not there has no result. The string of a \<open>%s\<close> is read from
  memory before the first of its bytes is written.
\<close>

section \<open>Output\<close>

record formatter =
  f_p :: addr
  f_end :: addr
  f_flags :: uint32
  f_width :: int

definition PAD_ZERO :: uint32 where "PAD_ZERO = 1"
definition PAD_LEFT :: uint32 where "PAD_LEFT = 2"

definition is_space :: "uint8 \<Rightarrow> bool" where
  "is_space c \<longleftrightarrow> c = 32 \<or> c = 9 \<or> c = 13 \<or> c = 10 \<or> c = 12 \<or> c = 11"

definition is_digit :: "uint8 \<Rightarrow> bool" where
  "is_digit c \<longleftrightarrow> 48 \<le> c \<and> c \<le> 57"

type_synonym out_state = "formatter \<times> mem"

definition outc :: "uint8 \<Rightarrow> out_state \<Rightarrow> out_state" where
  "outc c s = (case s of (f, m) \<Rightarrow>
     if f_p f < f_end f then (f\<lparr>f_p := f_p f + 1\<rparr>, m(f_p f := c)) else (f, m))"

text \<open>\<open>while (--width >= 0) _outc(f, c)\<close> puts \<open>width\<close> characters, none when it is not positive.\<close>

fun outpad :: "nat \<Rightarrow> uint8 \<Rightarrow> out_state \<Rightarrow> out_state" where
  "outpad 0 c s = s"
| "outpad (Suc n) c s = outpad n c (outc c s)"

text \<open>\<open>_outs\<close> of the string \<open>s\<close>, without its terminator.\<close>

definition outs :: "uint8 list \<Rightarrow> out_state \<Rightarrow> out_state" where
  "outs s st =
     (let f = fst st; width = f_width f;
          padchar = (if f_flags f AND PAD_ZERO \<noteq> 0 then 48 else 32);
          (width1, st1) = (if NOT (f_flags f) AND PAD_LEFT \<noteq> 0
             then (min (- 1) (width - 1), outpad (nat width) padchar st) else (width, st));
          st2 = fold outc s st1
      in outpad (nat width1) padchar st2)"

text \<open>The digits that \<open>_outdec\<close> and \<open>_outhex\<close> put in front of \<open>acc\<close> in their buffer of 32 bytes.\<close>

function dec_digits :: "uint32 \<Rightarrow> uint8 list \<Rightarrow> uint8 list" where
  "dec_digits n acc =
     (let acc' = (48 + ucast (n mod 10)) # acc; n' = n div 10
      in if 0 < n' then dec_digits n' acc' else acc')"
  by auto
termination
proof (relation "measure (\<lambda>(n, acc). unat n)", simp)
  fix n :: uint32 and acc x xa
  assume "xa = n div 10" "0 < xa"
  then have "unat n div 10 \<noteq> 0" by (simp add: word_gt_0 flip: unat_eq_0) (simp add: unat_div)
  then show "((xa, x), n, acc) \<in> measure (\<lambda>(n, acc). unat n)"
    using \<open>xa = n div 10\<close> by (simp add: unat_div div_less_dividend)
qed

declare dec_digits.simps [simp del]

definition hex_digit :: "uint8 \<Rightarrow> uint8 \<Rightarrow> uint8" where
  "hex_digit ty digit = (if digit < 10 then 48 + digit else if ty = 120 then 97 + digit - 10 else 65 + digit - 10)"

function hex_digits :: "uint8 \<Rightarrow> uint32 \<Rightarrow> uint8 list \<Rightarrow> uint8 list" where
  "hex_digits ty n acc =
     (let acc' = hex_digit ty (ucast (n AND 0xf)) # acc; n' = drop_bit 4 n
      in if 0 < n' then hex_digits ty n' acc' else acc')"
  by auto
termination
proof (relation "measure (\<lambda>(ty, n, acc). unat n)", simp)
  fix ty :: uint8 and n :: uint32 and acc x xa
  assume "xa = drop_bit 4 n" "0 < xa"
  then have "unat n div 16 \<noteq> 0"
    by (simp add: word_gt_0 drop_bit_eq_div flip: unat_eq_0) (simp add: unat_div)
  then show "((ty, xa, x), ty, n, acc) \<in> measure (\<lambda>(ty, n, acc). unat n)"
    using \<open>xa = drop_bit 4 n\<close> by (simp add: drop_bit_eq_div unat_div div_less_dividend)
qed

declare hex_digits.simps [simp del]

definition narrow :: "uint8 list \<Rightarrow> out_state \<Rightarrow> out_state" where
  "narrow s st = (case st of (f, m) \<Rightarrow> (f\<lparr>f_width := f_width f - int (length s)\<rparr>, m))"

definition outdec :: "uint32 \<Rightarrow> out_state \<Rightarrow> out_state" where
  "outdec n st = (let s = dec_digits n [] in outs s (narrow s st))"

definition outhex :: "uint8 \<Rightarrow> uint32 \<Rightarrow> out_state \<Rightarrow> out_state" where
  "outhex ty n st = (let s = hex_digits ty n [] in outs s (narrow s st))"

definition outpointer :: "uint32 \<Rightarrow> out_state \<Rightarrow> out_state" where
  "outpointer p st = outhex 120 p st"

text \<open>The bytes of the string at an address.\<close>

partial_function (option) read_cstr :: "mem \<Rightarrow> addr \<Rightarrow> uint8 list option" where
  "read_cstr m p = (if m p = 0 then Some [] else do { s \<leftarrow> read_cstr m (p + 1); Some (m p # s) })"

text \<open>The width of a directive: the digits from \<open>c\<close> on, the character behind them and the rest.\<close>

fun parse_width :: "int \<Rightarrow> uint8 \<Rightarrow> uint8 list \<Rightarrow> (int \<times> uint8 \<times> uint8 list) option" where
  "parse_width w c fmt =
     (if is_digit c then
        (case fmt of [] \<Rightarrow> None | c' # fmt' \<Rightarrow> parse_width (w * 10 + (uint c - 48)) c' fmt')
      else Some (w, c, fmt))"

definition null_text :: "uint8 list" where "null_text = [40, 110, 117, 108, 108, 41]"

text \<open>One directive: the type character, with the arguments that are left.\<close>

definition directive :: "uint8 \<Rightarrow> uint32 list \<Rightarrow> out_state \<Rightarrow> (out_state \<times> uint32 list) option" where
  "directive ty args st =
     (if ty = 37 then Some (outc 37 st, args)
      else if ty = 99 then
        (case args of [] \<Rightarrow> None | a # as \<Rightarrow> Some (outc (ucast a) st, as))
      else if ty = 115 then
        (case args of [] \<Rightarrow> None | a # as \<Rightarrow>
           (case (if a = 0 then Some null_text else read_cstr (snd st) a) of
              None \<Rightarrow> None
            | Some s \<Rightarrow> Some (outs s (if 0 < f_width (fst st) then narrow s st else st), as)))
      else if ty = 100 then
        (case args of [] \<Rightarrow> None | n # as \<Rightarrow>
           if n <s 0 then Some (outdec (- n) (outc 45 st), as) else Some (outdec n st, as))
      else if ty = 117 then
        (case args of [] \<Rightarrow> None | n # as \<Rightarrow> Some (outdec n st, as))
      else if ty = 120 \<or> ty = 88 then
        (case args of [] \<Rightarrow> None | n # as \<Rightarrow> Some (outhex ty n st, as))
      else if ty = 112 then
        (case args of [] \<Rightarrow> None | p # as \<Rightarrow> Some (outpointer p (outc 120 (outc 48 st)), as))
      else Some (st, args))"

definition take_flags :: "uint8 \<Rightarrow> uint8 list \<Rightarrow> (uint32 \<times> uint8 \<times> uint8 list) option" where
  "take_flags c fmt =
     (if c = 45 then (case fmt of [] \<Rightarrow> None | c' # fmt' \<Rightarrow> Some (PAD_LEFT, c', fmt'))
      else if c = 48 then (case fmt of [] \<Rightarrow> None | c' # fmt' \<Rightarrow> Some (PAD_ZERO, c', fmt'))
      else Some (0, c, fmt))"

lemma parse_width_shorter: "parse_width w c fmt = Some (w', c', fmt') \<Longrightarrow> length fmt' \<le> length fmt"
proof (induction w c fmt rule: parse_width.induct)
  case (1 w c fmt)
  then show ?case by (subst (asm) (2) parse_width.simps) (auto split: if_splits list.splits)
qed

declare parse_width.simps [simp del]

lemma take_flags_shorter: "take_flags c fmt = Some (fl, c', fmt') \<Longrightarrow> length fmt' \<le> length fmt"
  by (auto simp: take_flags_def split: if_splits list.splits)

text \<open>A directive from the character behind the \<open>%\<close>: flags, width and type.\<close>

definition take_directive :: "uint8 list \<Rightarrow> (uint32 \<times> int \<times> uint8 \<times> uint8 list) option" where
  "take_directive fmt =
     (case fmt of [] \<Rightarrow> None | c # fmt1 \<Rightarrow>
        (case take_flags c fmt1 of None \<Rightarrow> None | Some (fl, c2, fmt2) \<Rightarrow>
           if is_digit c2 then
             (case parse_width 0 c2 fmt2 of None \<Rightarrow> None | Some (w, ty, fmt3) \<Rightarrow> Some (fl, w, ty, fmt3))
           else Some (fl, - 1, c2, fmt2)))"

lemma take_directive_shorter: "take_directive fmt = Some (fl, w, ty, fmt') \<Longrightarrow> length fmt' < length fmt"
  by (auto simp: take_directive_def le_imp_less_Suc split: list.splits option.splits if_splits
      dest!: take_flags_shorter parse_width_shorter)

function vsn_loop :: "uint8 list \<Rightarrow> uint32 list \<Rightarrow> out_state \<Rightarrow> out_state option" where
  "vsn_loop [] args st = None"
| "vsn_loop (c # fmt) args st =
     (if c = 0 then Some st
      else if c \<noteq> 37 then vsn_loop fmt args (outc c st)
      else case take_directive fmt of
          None \<Rightarrow> None
        | Some (fl, w, ty, fmt') \<Rightarrow>
            (case directive ty args (apfst (\<lambda>f. f\<lparr>f_flags := fl, f_width := w\<rparr>) st) of
               None \<Rightarrow> None
             | Some (st', args') \<Rightarrow> vsn_loop fmt' args' st'))"
  by pat_completeness auto
termination
proof (relation "measure (\<lambda>(fmt, args, st). length fmt)")
  fix c :: uint8 and fmt args st x fl y w z ty fmt' a st' args'
  assume "take_directive fmt = Some x" "(fl, y) = x" "(w, z) = y" "(ty, fmt') = z"
  then have "take_directive fmt = Some (fl, w, ty, fmt')" by simp
  from take_directive_shorter [OF this]
  show "((fmt', args', st'), c # fmt, args, st) \<in> measure (\<lambda>(fmt, args, st). length fmt)" by simp
qed simp_all

definition vsnprintf :: "addr \<Rightarrow> uint32 \<Rightarrow> uint8 list \<Rightarrow> uint32 list \<Rightarrow> mem \<Rightarrow> (uint32 \<times> mem) option" where
  "vsnprintf str sz fmt args m =
     (case vsn_loop fmt args (\<lparr>f_p = str, f_end = str + sz - 1, f_flags = 0, f_width = 0\<rparr>, m) of
        None \<Rightarrow> None
      | Some (f, m') \<Rightarrow> Some (f_p f - str, if f_p f < f_end f + 1 then m'(f_p f := 0) else m'))"

text \<open>\<open>snprintf\<close> only collects the variable arguments.\<close>

definition snprintf :: "addr \<Rightarrow> uint32 \<Rightarrow> uint8 list \<Rightarrow> uint32 list \<Rightarrow> mem \<Rightarrow> (uint32 \<times> mem) option" where
  "snprintf str sz fmt args m = vsnprintf str sz fmt args m"

section \<open>Input\<close>

fun skip_space :: "uint8 list \<Rightarrow> uint8 list option" where
  "skip_space [] = None"
| "skip_space (c # str) = (if is_space c then skip_space str else Some (c # str))"

text \<open>The digits from \<open>c\<close> on; the position ends at the first character that is no digit.\<close>

fun scan_digits :: "uint32 \<Rightarrow> uint8 list \<Rightarrow> (uint32 \<times> uint8 list) option" where
  "scan_digits n [] = None"
| "scan_digits n (c # str) =
     (if is_digit c then scan_digits (n * 10 + (ucast c - 48)) str else Some (n, c # str))"

text \<open>The conversion \<open>%d\<close> behind a first character that is not the end of the input.\<close>

definition scan_int :: "uint8 list \<Rightarrow> (uint32 \<times> uint8 list) option" where
  "scan_int str =
     (case str of [] \<Rightarrow> None | c # str' \<Rightarrow>
        if c = 45 then map_option (\<lambda>(n, r). (- n, r)) (scan_digits 0 str')
        else scan_digits 0 str)"

text \<open>How the scan ends: at a mismatch or the end of the format, or at the end of the input.\<close>

datatype scan_end = Match_failure | End_of_input

text \<open>A literal character \<open>c\<close> of the format against the input.\<close>

definition match_literal :: "uint8 \<Rightarrow> uint8 list \<Rightarrow> (scan_end + uint8 list) option" where
  "match_literal c str =
     (case str of [] \<Rightarrow> None | s # str' \<Rightarrow>
        Some (if s = 0 then Inl End_of_input else if s \<noteq> c then Inl Match_failure else Inr str'))"

function vss_loop :: "uint8 list \<Rightarrow> uint8 list \<Rightarrow> uint32 list \<Rightarrow> int \<Rightarrow> mem \<Rightarrow> (scan_end \<times> int \<times> mem) option" where
  "vss_loop [] str args count m = None"
| "vss_loop (c # fmt) str args count m =
     (if c = 0 then Some (Match_failure, count, m)
      else if is_space c then
        (case skip_space str of None \<Rightarrow> None | Some str' \<Rightarrow> vss_loop fmt str' args count m)
      else if c \<noteq> 37 then
        (case match_literal c str of
           None \<Rightarrow> None
         | Some (Inl e) \<Rightarrow> Some (e, count, m)
         | Some (Inr str') \<Rightarrow> vss_loop fmt str' args count m)
      else case fmt of
          [] \<Rightarrow> None
        | ty # fmt' \<Rightarrow>
            if ty = 37 then
              (case match_literal ty str of
                 None \<Rightarrow> None
               | Some (Inl e) \<Rightarrow> Some (e, count, m)
               | Some (Inr str') \<Rightarrow> vss_loop fmt' str' args count m)
            else if ty = 100 then
              (case str of
                 [] \<Rightarrow> None
               | s # str1 \<Rightarrow>
                   if s = 0 then Some (End_of_input, count, m)
                   else (case scan_int str of
                           None \<Rightarrow> None
                         | Some (n, str') \<Rightarrow>
                             (case args of
                                [] \<Rightarrow> None
                              | r # args' \<Rightarrow> vss_loop fmt' str' args' (count + 1) (store32 m r n))))
            else vss_loop fmt' str args count m)"
  by pat_completeness auto
termination
  by (relation "measure (\<lambda>(fmt, str, args, count, m). length fmt)") auto

definition vsscanf :: "uint8 list \<Rightarrow> uint8 list \<Rightarrow> uint32 list \<Rightarrow> mem \<Rightarrow> (int \<times> mem) option" where
  "vsscanf str fmt args m =
     (case vss_loop fmt str args 0 m of
        None \<Rightarrow> None
      | Some (Match_failure, count, m') \<Rightarrow> Some (count, m')
      | Some (End_of_input, count, m') \<Rightarrow> Some (if count \<noteq> 0 then count else - 1, m'))"

definition sscanf :: "uint8 list \<Rightarrow> uint8 list \<Rightarrow> uint32 list \<Rightarrow> mem \<Rightarrow> (int \<times> mem) option" where
  "sscanf str fmt args m = vsscanf str fmt args m"

section \<open>The output stays in the buffer\<close>

text \<open>What every operation keeps: the end, a position in the buffer, and the memory outside.\<close>

definition out_ok :: "addr \<Rightarrow> addr \<Rightarrow> mem \<Rightarrow> out_state \<Rightarrow> bool" where
  "out_ok str e m st \<longleftrightarrow> f_end (fst st) = e \<and> str \<le> f_p (fst st) \<and> f_p (fst st) \<le> e \<and>
     (\<forall>x. \<not> (str \<le> x \<and> x < e) \<longrightarrow> snd st x = m x)"

lemma word_step:
  fixes p e :: addr
  assumes "p < e" shows "p < p + 1" and "p + 1 \<le> e"
  using assms by (unat_arith, unat_arith)

lemma outc_ok: "out_ok str e m st \<Longrightarrow> out_ok str e m (outc c st)"
  by (cases st) (auto simp: out_ok_def outc_def word_step dest: word_step(1))

lemma outpad_ok: "out_ok str e m st \<Longrightarrow> out_ok str e m (outpad n c st)"
  by (induction n c st rule: outpad.induct) (auto intro: outc_ok)

lemma fold_outc_ok: "out_ok str e m st \<Longrightarrow> out_ok str e m (fold outc s st)"
proof (induction s arbitrary: st)
  case (Cons c s)
  from Cons.IH [OF outc_ok [OF Cons.prems]] show ?case by simp
qed simp

lemma outs_ok: "out_ok str e m st \<Longrightarrow> out_ok str e m (outs s st)"
  by (auto simp: outs_def Let_def intro: outpad_ok fold_outc_ok)

lemma set_fields_ok:
  "out_ok str e m st \<Longrightarrow> out_ok str e m (narrow s st)"
  "out_ok str e m st \<Longrightarrow> out_ok str e m (apfst (\<lambda>f. f\<lparr>f_flags := fl, f_width := w\<rparr>) st)"
  by (auto simp: out_ok_def narrow_def split: prod.split)

lemmas out_ok_intros = outc_ok outpad_ok fold_outc_ok outs_ok set_fields_ok

lemma directive_ok:
  "out_ok str e m st \<Longrightarrow> directive ty args st = Some (st', args') \<Longrightarrow> out_ok str e m st'"
  by (auto simp: directive_def outdec_def outhex_def outpointer_def Let_def
      intro!: out_ok_intros split: if_splits list.splits option.splits)

lemma vsn_loop_ok:
  "vsn_loop fmt args st = Some st' \<Longrightarrow> out_ok str e m st \<Longrightarrow> out_ok str e m st'"
proof (induction fmt args st rule: vsn_loop.induct)
  case (2 c fmt args st)
  show ?case
  proof (cases "c = 0 \<or> c \<noteq> 37")
    case True
    with 2 show ?thesis by (auto split: if_splits intro: outc_ok)
  next
    case False
    with "2.prems"(1) obtain fl w ty fmt' st1 args1 where
      d: "take_directive fmt = Some (fl, w, ty, fmt')"
        "directive ty args (apfst (\<lambda>f. f\<lparr>f_flags := fl, f_width := w\<rparr>) st) = Some (st1, args1)"
        "vsn_loop fmt' args1 st1 = Some st'"
      by (auto split: option.splits)
    have "out_ok str e m st1" by (rule directive_ok [OF _ d(2)]) (intro set_fields_ok "2.prems"(2))
    with "2.IH"(2) [OF _ _ d(1) refl refl refl d(2) refl] d(3) False show ?thesis by simp
  qed
qed simp

text \<open>The bytes of a string literal, with the terminator.\<close>

definition c_string :: "string \<Rightarrow> uint8 list" where
  "c_string s = map of_char s @ [0]"

section \<open>The text that a format stands for\<close>

text \<open>
  \<open>appended str e m tx st\<close>: of the text \<open>tx\<close> as much as fits below \<open>e\<close> was written from \<open>str\<close> on,
  over the memory \<open>m\<close>.
\<close>

definition appended :: "addr \<Rightarrow> addr \<Rightarrow> mem \<Rightarrow> uint8 list \<Rightarrow> out_state \<Rightarrow> bool" where
  "appended str e m tx st \<longleftrightarrow> f_end (fst st) = e \<and> str \<le> e \<and>
     (let w = take (unat (e - str)) tx
      in f_p (fst st) = str + of_nat (length w) \<and> snd st = write_bytes m str w)"

lemma outc_appended:
  assumes ap: "appended str e m tx st"
  shows "appended str e m (tx @ [c]) (outc c st)"
proof -
  let ?cap = "unat (e - str)"
  have cap: "?cap = unat e - unat str" "unat str \<le> unat e"
    using ap by (auto simp: appended_def unat_sub word_le_nat_alt)
  have p: "f_p (fst st) = str + of_nat (min (length tx) ?cap)"
    using ap by (simp add: appended_def min.commute)
  have "unat (str + of_nat (min (length tx) ?cap)) = unat str + min (length tx) ?cap"
    using cap unat32_lt [of e] unat32_lt [of "e - str"] by (simp add: unat_add_small unat_of_nat_small)
  then have lt: "f_p (fst st) < f_end (fst st) \<longleftrightarrow> length tx < ?cap"
    using ap cap by (auto simp: p appended_def word_less_nat_alt)
  show ?thesis
  proof (cases "length tx < ?cap")
    case True
    with ap lt show ?thesis by (cases st) (auto simp: appended_def outc_def write_bytes_snoc)
  next
    case False
    with ap lt show ?thesis by (cases st) (auto simp: appended_def outc_def)
  qed
qed

lemma fold_outc_appended: "appended str e m tx st \<Longrightarrow> appended str e m (tx @ s) (fold outc s st)"
proof (induction s arbitrary: tx st)
  case (Cons c s)
  from Cons.IH [OF outc_appended [OF Cons.prems]] show ?case by simp
qed simp

lemma outpad_appended: "appended str e m tx st \<Longrightarrow> appended str e m (tx @ replicate n c) (outpad n c st)"
proof (induction n arbitrary: tx st)
  case (Suc n)
  from Suc.IH [OF outc_appended [OF Suc.prems]] show ?case by simp
qed simp

text \<open>What \<open>_outs\<close> puts: the string, padded to the width, left or right.\<close>

definition padded :: "uint32 \<Rightarrow> int \<Rightarrow> uint8 list \<Rightarrow> uint8 list" where
  "padded fl w s = (let pad = replicate (nat w) (if fl AND PAD_ZERO \<noteq> 0 then 48 else 32)
     in if fl AND PAD_LEFT \<noteq> 0 then s @ pad else pad @ s)"

lemma pad_left_bit: "NOT fl AND PAD_LEFT \<noteq> 0 \<longleftrightarrow> fl AND PAD_LEFT = 0" for fl :: uint32
  using and_exp_eq_0_iff_not_bit [of fl 1] and_exp_eq_0_iff_not_bit [of "NOT fl" 1]
  by (simp add: PAD_LEFT_def bit_not_iff)

lemma outs_appended:
  assumes "appended str e m tx st"
  shows "appended str e m (tx @ padded (f_flags (fst st)) (f_width (fst st)) s) (outs s st)"
proof (cases "f_flags (fst st) AND PAD_LEFT = 0")
  case True
  with fold_outc_appended [OF outpad_appended [OF assms]] show ?thesis
    by (simp add: outs_def Let_def pad_left_bit padded_def)
next
  case False
  with outpad_appended [OF fold_outc_appended [OF assms]] show ?thesis
    by (simp add: outs_def Let_def pad_left_bit padded_def)
qed

lemma dec_digits_text: "dec_digits n acc = digits_text 10 (unat n) @ acc"
proof (induction n acc rule: dec_digits.induct)
  case (1 n acc)
  have d: "ucast (n mod 10) + 48 = digit_byte (unat n mod 10)"
    by (simp add: digit_byte_def word_unat_eq_iff unat_word_ariths unsigned_ucast_eq take_bit_eq_mod unat_mod
        unsigned_of_nat)
  have p: "0 < n div 10 \<longleftrightarrow> unat n div 10 \<noteq> 0" by (simp add: word_gt_0 unat_div flip: unat_eq_0)
  have q: "unat (n div 10) = unat n div 10" by (simp add: unat_div)
  show ?case
    using 1 [OF refl refl] d p q
    by (subst dec_digits.simps, subst digits_text_def, subst lsd.simps)
      (auto simp: Let_def digits_text_def ac_simps)
qed

lemma hex_digits_text: "hex_digits 120 n acc = digits_text 16 (unat n) @ acc"
proof (induction "120 :: uint8" n acc rule: hex_digits.induct)
  case (1 n acc)
  have nib: "unat (n AND 0xf) = unat n mod 16"
  proof -
    have "n AND 0xf = take_bit 4 n" by (simp add: take_bit_eq_mask mask_eq_exp_minus_1)
    then show ?thesis by (simp add: unsigned_take_bit_eq take_bit_eq_mod unat_mod)
  qed
  have "\<forall>k \<in> set [0..<16]. hex_digit 120 (of_nat k) = digit_byte k" by code_simp
  moreover have "ucast (n AND 0xf) = (of_nat (unat n mod 16) :: uint8)"
    by (simp add: word_unat_eq_iff unsigned_ucast_eq nib unsigned_of_nat)
  ultimately have d: "hex_digit 120 (ucast (n AND 0xf)) = digit_byte (unat n mod 16)" by simp
  have q: "unat (drop_bit 4 n) = unat n div 16" by (simp add: drop_bit_eq_div unat_div)
  have p: "0 < drop_bit 4 n \<longleftrightarrow> unat n div 16 \<noteq> 0"
    using q by (simp add: word_gt_0 flip: unat_eq_0)
  show ?case
    using 1 [OF refl refl] d p q
    by (subst hex_digits.simps, subst digits_text_def, subst lsd.simps) (auto simp: Let_def digits_text_def)
qed

text \<open>The text of one directive with flags \<open>fl\<close> and width \<open>w\<close>; strings are read from \<open>m\<close>.\<close>

definition number_text :: "uint32 \<Rightarrow> int \<Rightarrow> uint8 list \<Rightarrow> uint8 list" where
  "number_text fl w ds = padded fl (w - int (length ds)) ds"

definition directive_text :: "mem \<Rightarrow> uint32 \<Rightarrow> int \<Rightarrow> uint8 \<Rightarrow> uint32 list \<Rightarrow> (uint8 list \<times> uint32 list) option" where
  "directive_text m fl w ty args =
     (if ty = 37 then Some ([37], args)
      else if ty \<notin> {99, 115, 100, 117, 120, 88, 112} then Some ([], args)
      else case args of [] \<Rightarrow> None | a # as \<Rightarrow>
        if ty = 99 then Some ([ucast a], as)
        else if ty = 115 then
          map_option (\<lambda>s. (if 0 < w then number_text fl w s else padded fl w s, as))
            (if a = 0 then Some null_text else read_cstr m a)
        else if ty = 100 then
          Some (if a <s 0 then 45 # number_text fl w (digits_text 10 (unat (- a)))
                else number_text fl w (digits_text 10 (unat a)), as)
        else if ty = 117 then Some (number_text fl w (digits_text 10 (unat a)), as)
        else if ty = 112 then Some ([48, 120] @ number_text fl w (digits_text 16 (unat a)), as)
        else Some (number_text fl w (hex_digits ty a []), as))"

lemma narrow_fields:
  "f_flags (fst (narrow s st)) = f_flags (fst st)"
  "f_width (fst (narrow s st)) = f_width (fst st) - int (length s)"
  "appended str e m tx (narrow s st) = appended str e m tx st"
  by (simp_all add: narrow_def appended_def split: prod.split)

lemma outc_fields:
  "f_flags (fst (outc c st)) = f_flags (fst st)" "f_width (fst (outc c st)) = f_width (fst st)"
  by (simp_all add: outc_def split: prod.split)

lemma number_appended:
  "appended str e m tx st \<Longrightarrow>
    appended str e m (tx @ number_text (f_flags (fst st)) (f_width (fst st)) ds) (outs ds (narrow ds st))"
  using outs_appended [of str e m tx "narrow ds st" ds] by (simp add: narrow_fields number_text_def)

lemma directive_appended:
  assumes ap: "appended str e m tx st" and f: "f_flags (fst st) = fl" "f_width (fst st) = w"
    and strings: "\<And>a. ty = 115 \<Longrightarrow> a \<in> set (take 1 args) \<Longrightarrow> a \<noteq> 0 \<Longrightarrow> read_cstr (snd st) a = read_cstr m a"
  shows "case directive_text m fl w ty args of
      None \<Rightarrow> directive ty args st = None
    | Some (s, args') \<Rightarrow> \<exists>st'. directive ty args st = Some (st', args') \<and> appended str e m (tx @ s) st'"
proof (cases "ty = 37 \<or> ty \<notin> {99, 115, 100, 117, 120, 88, 112}")
  case True
  then show ?thesis using ap outc_appended [OF ap] by (auto simp: directive_def directive_text_def)
next
  case False
  show ?thesis
  proof (cases args)
    case Nil
    with False show ?thesis by (auto simp: directive_def directive_text_def)
  next
    case (Cons a as)
    note num = number_appended [OF ap, unfolded f]
    have minus: "appended str e m (tx @ 45 # number_text fl w ds) (outs ds (narrow ds (outc 45 st)))" for ds
      using number_appended [OF outc_appended [OF ap, of 45], of ds] f by (simp add: outc_fields)
    have ptr: "appended str e m (tx @ 48 # 120 # number_text fl w ds) (outs ds (narrow ds (outc 120 (outc 48 st))))" for ds
      using number_appended [OF outc_appended [OF outc_appended [OF ap, of 48], of 120], of ds] f
      by (simp add: outc_fields)
    have str: "ty = 115 \<Longrightarrow> a \<noteq> 0 \<Longrightarrow> read_cstr (snd st) a = read_cstr m a" using strings Cons by simp
    show ?thesis using False Cons
      by (auto simp: directive_def directive_text_def outdec_def outhex_def outpointer_def Let_def
          dec_digits_text hex_digits_text str f num minus ptr outc_appended [OF ap] outs_appended [OF ap, unfolded f]
          simp del: split_paired_Ex split_paired_All split: option.split)
  qed
qed

text \<open>
  A format is parsed into its items before any of them is put; the text of the items is what the
  whole call stands for.
\<close>

datatype item = Literal uint8 | Directive uint32 int uint8

function parse_format :: "uint8 list \<Rightarrow> item list option" where
  "parse_format [] = None"
| "parse_format (c # fmt) =
     (if c = 0 then Some []
      else if c \<noteq> 37 then map_option ((#) (Literal c)) (parse_format fmt)
      else case take_directive fmt of
          None \<Rightarrow> None
        | Some (fl, w, ty, fmt') \<Rightarrow> map_option ((#) (Directive fl w ty)) (parse_format fmt'))"
  by pat_completeness auto
termination
proof (relation "measure length")
  fix c :: uint8 and fmt x fl y w z ty fmt'
  assume "take_directive fmt = Some x" "(fl, y) = x" "(w, z) = y" "(ty, fmt') = z"
  then have "take_directive fmt = Some (fl, w, ty, fmt')" by simp
  from take_directive_shorter [OF this] show "(fmt', c # fmt) \<in> measure length" by simp
qed simp_all

fun items_text :: "mem \<Rightarrow> item list \<Rightarrow> uint32 list \<Rightarrow> uint8 list option" where
  "items_text m [] args = Some []"
| "items_text m (Literal c # is) args = map_option ((#) c) (items_text m is args)"
| "items_text m (Directive fl w ty # is) args =
     (case directive_text m fl w ty args of
        None \<Rightarrow> None
      | Some (s, args') \<Rightarrow> map_option ((@) s) (items_text m is args'))"

text \<open>The arguments that a format takes as pointers to strings.\<close>

definition args_left :: "uint8 \<Rightarrow> uint32 list \<Rightarrow> uint32 list" where
  "args_left ty args = (if ty \<in> {99, 115, 100, 117, 120, 88, 112} then drop 1 args else args)"

fun string_args :: "item list \<Rightarrow> uint32 list \<Rightarrow> uint32 list" where
  "string_args [] args = []"
| "string_args (Literal c # is) args = string_args is args"
| "string_args (Directive fl w ty # is) args =
     (if ty = 115 then take 1 args else []) @ string_args is (args_left ty args)"

lemma directive_text_args: "directive_text m fl w ty args = Some (s, args') \<Longrightarrow> args' = args_left ty args"
  by (auto simp: directive_text_def args_left_def split: if_splits list.splits option.splits)

text \<open>A string that no byte written to \<open>[str, e)\<close> changes.\<close>

definition string_outside :: "mem \<Rightarrow> addr \<Rightarrow> addr \<Rightarrow> addr \<Rightarrow> bool" where
  "string_outside m str e a \<longleftrightarrow> (case read_cstr m a of None \<Rightarrow> False
     | Some s \<Rightarrow> \<forall>i \<in> set [0..<Suc (length s)]. \<not> (str \<le> a + of_nat i \<and> a + of_nat i < e))"

lemma read_cstr_cong:
  "read_cstr m a = Some s \<Longrightarrow> (\<And>i. i \<le> length s \<Longrightarrow> m' (a + of_nat i) = m (a + of_nat i)) \<Longrightarrow>
    read_cstr m' a = Some s"
proof (induction s arbitrary: a)
  case Nil
  then show ?case
    by (subst (asm) (1) read_cstr.simps, subst read_cstr.simps) (use Nil(2) [of 0] in \<open>auto split: if_splits bind_splits\<close>)
next
  case (Cons c s)
  from Cons.prems(1) have c: "m a \<noteq> 0" "c = m a" "read_cstr m (a + 1) = Some s"
    by (subst (asm) read_cstr.simps, auto split: if_splits bind_splits)+
  have "read_cstr m' (a + 1) = Some s"
    by (rule Cons.IH [OF c(3)]) (use Cons.prems(2) [of "Suc _"] in \<open>simp add: ac_simps\<close>)
  moreover have "m' a = m a" using Cons.prems(2) [of 0] by simp
  ultimately show ?case using c by (subst read_cstr.simps) simp
qed

lemma string_outside_read:
  assumes "string_outside m str e a" "out_ok str e m st"
  shows "read_cstr (snd st) a = read_cstr m a"
proof -
  obtain s where s: "read_cstr m a = Some s"
    "\<And>i. i \<le> length s \<Longrightarrow> \<not> (str \<le> a + of_nat i \<and> a + of_nat i < e)"
    using assms(1) by (auto simp: string_outside_def less_Suc_eq_le simp del: upt_Suc split: option.splits)
  have "read_cstr (snd st) a = Some s"
    by (rule read_cstr_cong [OF s(1)]) (use s(2) assms(2) in \<open>auto simp: out_ok_def\<close>)
  with s(1) show ?thesis by simp
qed

lemma vsn_loop_text:
  assumes "parse_format fmt = Some is" "items_text m is args = Some tx'"
    and "appended str e m tx st" "out_ok str e m st"
    and "\<And>a. a \<in> set (string_args is args) \<Longrightarrow> a \<noteq> 0 \<Longrightarrow> string_outside m str e a"
  shows "\<exists>st'. vsn_loop fmt args st = Some st' \<and> appended str e m (tx @ tx') st'"
  using assms
proof (induction fmt args st arbitrary: "is" tx tx' rule: vsn_loop.induct)
  case (2 c fmt args st)
  consider "c = 0" | "c \<noteq> 0" "c \<noteq> 37" | "c = 37" by auto
  then show ?case
  proof cases
    case 1
    with "2.prems" show ?thesis by auto
  next
    case 2
    with "2.prems"(1) obtain is' where its: "parse_format fmt = Some is'" "is = Literal c # is'" by auto
    with "2.prems"(2) obtain tx1 where tx1: "items_text m is' args = Some tx1" "tx' = c # tx1" by auto
    have "\<exists>st'. vsn_loop fmt args (outc c st) = Some st' \<and> appended str e m ((tx @ [c]) @ tx1) st'"
      by (rule "2.IH"(1) [OF 2 its(1) tx1(1) outc_appended [OF "2.prems"(3)] outc_ok [OF "2.prems"(4)]])
        (use "2.prems"(5) its in simp)
    with 2 tx1 show ?thesis by simp
  next
    case 3
    with "2.prems"(1) obtain fl w ty fmt' is' where
      d: "take_directive fmt = Some (fl, w, ty, fmt')" "parse_format fmt' = Some is'" "is = Directive fl w ty # is'"
      by (auto split: option.splits)
    with "2.prems"(2) obtain s args' tx1 where
      t: "directive_text m fl w ty args = Some (s, args')" "items_text m is' args' = Some tx1" "tx' = s @ tx1"
      by (auto split: option.splits)
    let ?st = "apfst (\<lambda>f. f\<lparr>f_flags := fl, f_width := w\<rparr>) st"
    have ap: "appended str e m tx ?st" using "2.prems"(3) by (simp add: appended_def)
    have ok: "out_ok str e m ?st" by (intro set_fields_ok "2.prems"(4))
    have strings: "read_cstr (snd ?st) a = read_cstr m a" if "ty = 115" "a \<in> set (take 1 args)" "a \<noteq> 0" for a
      by (rule string_outside_read [OF _ ok]) (use that "2.prems"(5) d in auto)
    obtain st1 where st1: "directive ty args ?st = Some (st1, args')" "appended str e m (tx @ s) st1"
      using directive_appended [OF ap, of fl w ty args] strings t(1) by (auto simp del: split_paired_Ex)
    have "\<exists>st'. vsn_loop fmt' args' st1 = Some st' \<and> appended str e m ((tx @ s) @ tx1) st'"
      by (rule "2.IH"(2) [OF _ _ d(1) refl refl refl st1(1) refl d(2) t(2) st1(2) directive_ok [OF ok st1(1)]])
        (use 3 "2.prems"(5) d directive_text_args [OF t(1)] in auto)
    with 3 d st1 t show ?thesis by simp
  qed
qed simp

lemma buffer_end:
  fixes str sz :: uint32
  assumes "sz \<noteq> 0" "unat str + unat sz < 2 ^ 32"
  shows "unat (str + sz - 1) = unat str + unat sz - 1" "str \<le> str + sz - 1" "0 < unat sz"
proof -
  show "0 < unat sz" using assms(1) by (simp add: unat_gt_0)
  then show "unat (str + sz - 1) = unat str + unat sz - 1" using assms
    by (subst add_diff_eq [symmetric]) (simp add: unat_minus_one unat_add_small)
  with \<open>0 < unat sz\<close> show "str \<le> str + sz - 1" by (simp add: word_le_nat_alt)
qed

lemma vsnprintf_text:
  assumes "sz \<noteq> 0" "unat str + unat sz < 2 ^ 32"
    and "parse_format fmt = Some its" "items_text m its args = Some tx"
    and "\<forall>a \<in> set (string_args its args). a = 0 \<or> string_outside m str (str + sz - 1) a"
  shows "vsnprintf str sz fmt args m =
    Some (of_nat (min (length tx) (unat sz - 1)), write_bytes m str (take (unat sz - 1) tx @ [0]))"
proof -
  let ?e = "str + sz - 1"
  let ?st = "(\<lparr>f_p = str, f_end = ?e, f_flags = 0, f_width = 0\<rparr>, m)"
  let ?k = "min (length tx) (unat sz - 1)"
  have cap: "?e - str = sz - 1" "unat (sz - 1) = unat sz - 1" using assms(1) by (simp_all add: unat_minus_one)
  have e: "unat ?e = unat str + unat sz - 1" "str \<le> ?e" "0 < unat sz"
    using buffer_end [OF assms(1,2)] by simp_all
  obtain st where st: "vsn_loop fmt args ?st = Some st" "appended str ?e m ([] @ tx) st"
  proof -
    have "\<exists>st. vsn_loop fmt args ?st = Some st \<and> appended str ?e m ([] @ tx) st"
      by (rule vsn_loop_text [OF assms(3,4)]) (use e assms(5) in \<open>auto simp: appended_def out_ok_def\<close>)
    with that show thesis by blast
  qed
  obtain f m' where fm: "st = (f, m')" by (cases st)
  have f: "f_end f = ?e" "f_p f = str + of_nat ?k" "m' = write_bytes m str (take (unat sz - 1) tx)"
    using st(2) cap by (simp_all add: appended_def fm Let_def min.commute)
  have "unat (str + of_nat ?k) = unat str + ?k"
    using assms(2) by (simp add: unat_add_small unat_of_nat_small)
  then have "f_p f < f_end f + 1" using assms(2) e by (simp add: f word_less_nat_alt unat_add_small)
  then show ?thesis
    by (simp add: vsnprintf_def st(1) fm f write_bytes_snoc min.commute)
qed


text \<open>
  C16. \<open>vsnprintf\<close> never writes outside its buffer, whatever the format: the position it stops at
  is less than \<open>sz\<close> behind the start, the byte there is 0, and the memory outside is as before.
\<close>

theorem vsnprintf_stays_in_buffer:
  assumes "vsnprintf str sz fmt args m = Some (n, m')" "sz \<noteq> 0" "unat str + unat sz < 2 ^ 32"
  shows "n < sz \<and> m' (str + n) = 0 \<and> (\<forall>x. \<not> in_range str sz x \<longrightarrow> m' x = m x)"
proof -
  let ?e = "str + sz - 1"
  have e: "unat ?e = unat str + unat sz - 1" "str \<le> ?e" "0 < unat sz"
    using buffer_end [OF assms(2,3)] by simp_all
  from assms(1) obtain f m1 where l:
    "vsn_loop fmt args (\<lparr>f_p = str, f_end = ?e, f_flags = 0, f_width = 0\<rparr>, m) = Some (f, m1)"
    "n = f_p f - str" "m' = (if f_p f < f_end f + 1 then m1(f_p f := 0) else m1)"
    by (auto simp: vsnprintf_def split: option.splits)
  have "out_ok str ?e m (f, m1)" by (rule vsn_loop_ok [OF l(1)]) (simp add: out_ok_def e)
  then have ok: "f_end f = ?e" "str \<le> f_p f" "f_p f \<le> ?e" "\<And>x. \<not> (str \<le> x \<and> x < ?e) \<Longrightarrow> m1 x = m x"
    by (auto simp: out_ok_def)
  have lt: "f_p f < f_end f + 1" using ok(1,3) e assms(2,3)
    by (simp add: word_less_nat_alt word_le_nat_alt unat_add_small)
  have n: "unat n = unat (f_p f) - unat str" using ok(2) l(2) by (simp add: unat_sub)
  show ?thesis
  proof (intro conjI allI impI)
    show "n < sz" using n ok(3) e by (simp add: word_less_nat_alt word_le_nat_alt)
    show "m' (str + n) = 0" using l lt by simp
    fix x assume "\<not> in_range str sz x"
    with assms(3) have x: "\<not> (unat str \<le> unat x \<and> unat x < unat str + unat sz)"
      by (simp add: in_range_unat)
    have "x \<noteq> f_p f" using x ok(2,3) e by (auto simp: word_le_nat_alt)
    moreover have "\<not> (str \<le> x \<and> x < ?e)" using x e by (auto simp: word_le_nat_alt word_less_nat_alt)
    ultimately show "m' x = m x" using ok(4) l(3) by simp
  qed
qed

definition sample_mem :: mem where "sample_mem = (\<lambda>_. 0)(50 := 104, 51 := 105)"


lemma sample_string: "read_cstr sample_mem 50 = Some [104, 105]"
  by (simp add: sample_mem_def read_cstr.simps [of _ 50] read_cstr.simps [of _ 51] read_cstr.simps [of _ 52])



theorem vsnprintf_stays_in_buffer_witness:
  "(3 :: uint32) < 4 \<and> (case vsnprintf 100 4 (c_string ''abcd'') [] (\<lambda>_. 9) of
     Some (n, m') \<Rightarrow> n = 3 \<and> m' 103 = 0 \<and> m' 104 = 9 | None \<Rightarrow> False)"
proof -
  obtain m' where r: "vsnprintf 100 4 (c_string ''abcd'') [] (\<lambda>_. 9) = Some (3, m')"
    by (simp add: vsnprintf_def c_string_def outc_def)
  from vsnprintf_stays_in_buffer [OF r] have "m' 103 = 0" "m' 104 = 9" by (simp_all add: in_range_def)
  with r show ?thesis by simp
qed

text \<open>
  The minus sign of \<open>%d\<close> is put before the padding and is not counted in the width:
  \<open>"%3d"\<close> of -5 is \<open>-  5\<close>, and \<open>"%03d"\<close> of -5 is \<open>-005\<close>.
\<close>

theorem minus_before_padding:
  "directive_text m 0 3 100 [- 5] = Some (map of_char ''-  5'', []) \<and>
   directive_text m PAD_ZERO 3 100 [- 5] = Some (map of_char ''-005'', [])"
proof -
  have "replicate 2 x = [x, x]" for x :: uint8 by (simp add: numeral_2_eq_2)
  then show ?thesis
    by (simp add: directive_text_def number_text_def padded_def digits_text_def lsd.simps
        digit_byte_def word_sless_alt PAD_ZERO_def PAD_LEFT_def)
qed

section \<open>Reading back what was printed\<close>

lemma scan_digits_append:
  "\<forall>d \<in> set ds. d < 10 \<Longrightarrow>
    scan_digits acc (map digit_byte ds @ rest) = scan_digits (foldl (\<lambda>a d. a * 10 + of_nat d) acc ds) rest"
proof (induction ds arbitrary: acc)
  case (Cons d ds)
  have "\<forall>d \<in> set [0..<10]. is_digit (digit_byte d) \<and> ucast (digit_byte d) - 48 = (of_nat d :: uint32)" by code_simp
  with Cons.prems have "is_digit (digit_byte d)" "ucast (digit_byte d) - 48 = (of_nat d :: uint32)" by simp_all
  with Cons show ?case by simp
qed simp

lemma lsd_word: "foldr (\<lambda>d a. a * 10 + of_nat d) (lsd 10 n) 0 = (of_nat n :: uint32)"
proof -
  have "foldr (\<lambda>d a. a * 10 + of_nat d) ds 0 = (of_nat (foldr (\<lambda>d a. d + 10 * a) ds 0) :: uint32)" for ds
    by (induction ds) (simp_all add: ac_simps)
  then show ?thesis by (simp add: lsd_value)
qed

lemma scan_digits_text:
  "\<not> is_digit c \<Longrightarrow> scan_digits 0 (digits_text 10 n @ c # r) = Some (of_nat n, c # r)"
  using lsd_small [of _ 10 n] by (simp add: digits_text_def scan_digits_append foldl_conv_foldr lsd_word)

lemma digits_text_first: "\<exists>d ds. digits_text 10 n = d # ds \<and> is_digit d"
proof -
  have "\<forall>d \<in> set [0..<10]. is_digit (digit_byte d)" by code_simp
  moreover have "lsd 10 n \<noteq> []" by (subst lsd.simps) simp
  ultimately show ?thesis using lsd_small [of _ 10 n]
    by (cases "lsd 10 n" rule: rev_cases) (auto simp: digits_text_def)
qed

lemma scan_int_text:
  assumes "\<not> is_digit c"
  shows "scan_int (digits_text 10 n @ c # r) = Some (of_nat n, c # r)"
proof -
  obtain d ds where d: "digits_text 10 n = d # ds" "is_digit d" using digits_text_first by blast
  then have "d \<noteq> 45" by (auto simp: is_digit_def)
  with scan_digits_text [OF assms, of n r] d show ?thesis by (simp add: scan_int_def)
qed

text \<open>The text of \<open>%d\<close>, and reading it with \<open>%d\<close>.\<close>

definition int_text :: "uint32 \<Rightarrow> uint8 list" where
  "int_text a = (if a <s 0 then 45 # digits_text 10 (unat (- a)) else digits_text 10 (unat a))"

lemma number_text_plain: "number_text 0 (- 1) ds = ds"
  by (simp add: number_text_def padded_def)

lemma int_text_directive: "directive_text m 0 (- 1) 100 (a # as) = Some (int_text a, as)"
  by (simp add: directive_text_def int_text_def number_text_plain)

lemma scan_int_of_text: "\<not> is_digit c \<Longrightarrow> scan_int (int_text a @ c # r) = Some (a, c # r)"
  by (simp add: int_text_def scan_int_text) (simp add: scan_int_def scan_digits_text)

lemma int_text_first: "\<exists>d ds. int_text a = d # ds \<and> d \<noteq> 0"
  using digits_text_first [of "unat a"] by (auto simp: int_text_def is_digit_def)

lemma vss_loop_int:
  assumes "\<not> is_digit c"
  shows "vss_loop (37 # 100 # fmt) (int_text n @ c # r) (a # args) cnt m =
    vss_loop fmt (c # r) args (cnt + 1) (store32 m a n)"
proof -
  obtain d ds where d: "int_text n = d # ds" "d \<noteq> 0" using int_text_first by blast
  show ?thesis using scan_int_of_text [OF assms, of n r] d by (simp add: is_space_def)
qed

lemma vss_loop_literal:
  "c \<noteq> 0 \<Longrightarrow> \<not> is_space c \<Longrightarrow> c \<noteq> 37 \<Longrightarrow>
    vss_loop (c # fmt) (c # str) args cnt m = vss_loop fmt str args cnt m"
  by (simp add: match_literal_def)

lemma vss_loop_mismatch:
  "c \<noteq> 0 \<Longrightarrow> \<not> is_space c \<Longrightarrow> c \<noteq> 37 \<Longrightarrow> c \<noteq> s \<Longrightarrow>
    vss_loop (c # fmt) (s # str) args cnt m = Some (if s = 0 then End_of_input else Match_failure, cnt, m)"
  by (auto simp: match_literal_def)


end
