(* ===== verification/Addr.thy ===== *)
theory Addr
  imports Formatting
begin

text \<open>
  \<open>src/net/addr.c\<close>: Ethernet and IPv4 addresses, their texts and the parsers. An Ethernet address
  is the list of its six bytes; an IPv4 address is its \<open>bits\<close>, whose byte \<open>i\<close> (little endian) is
  \<open>u.n[i]\<close>. The parsers scan into an array of four bytes on the stack, at the address \<open>a\<close>.
\<close>

type_synonym EthAddr = "uint8 list"
type_synonym IPv4Addr = uint32

definition ipv4_n :: "IPv4Addr \<Rightarrow> nat \<Rightarrow> uint8" where
  "ipv4_n x i = ucast (drop_bit (8 * i) x)"

definition ipv4_of_n :: "uint8 \<Rightarrow> uint8 \<Rightarrow> uint8 \<Rightarrow> uint8 \<Rightarrow> IPv4Addr" where
  "ipv4_of_n n0 n1 n2 n3 =
     ucast n0 OR push_bit 8 (ucast n1) OR push_bit 16 (ucast n2) OR push_bit 24 (ucast n3)"

definition g_nullEthAddr :: EthAddr where "g_nullEthAddr = [0x00, 0x00, 0x00, 0x00, 0x00, 0x00]"
definition g_broadcastEthAddr :: EthAddr where "g_broadcastEthAddr = [0xff, 0xff, 0xff, 0xff, 0xff, 0xff]"
definition g_nullIPv4Addr :: IPv4Addr where "g_nullIPv4Addr = ipv4_of_n 0x00 0x00 0x00 0x00"
definition g_broadcastIPv4Addr :: IPv4Addr where "g_broadcastIPv4Addr = ipv4_of_n 0xff 0xff 0xff 0xff"

function eth_eq_loop :: "nat \<Rightarrow> EthAddr \<Rightarrow> EthAddr \<Rightarrow> bool" where
  "eth_eq_loop i x y =
     (if i < 6 then (if x ! i \<noteq> y ! i then False else eth_eq_loop (i + 1) x y) else True)"
  by auto
termination by (relation "measure (\<lambda>(i, x, y). 6 - i)") auto

declare eth_eq_loop.simps [simp del]

definition addr_eth_eq :: "EthAddr \<Rightarrow> EthAddr \<Rightarrow> bool" where
  "addr_eth_eq x y = eth_eq_loop 0 x y"

definition addr_ipv4_eq :: "IPv4Addr \<Rightarrow> IPv4Addr \<Rightarrow> bool" where
  "addr_ipv4_eq x y \<longleftrightarrow> x = y"

definition addr_eth_tostr :: "addr \<Rightarrow> uint32 \<Rightarrow> EthAddr \<Rightarrow> mem \<Rightarrow> (uint32 \<times> mem) option" where
  "addr_eth_tostr str sz x m =
     snprintf str sz (c_string ''%02x:%02x:%02x:%02x:%02x:%02x'')
       [ucast (x ! 0), ucast (x ! 1), ucast (x ! 2), ucast (x ! 3), ucast (x ! 4), ucast (x ! 5)] m"

definition addr_ipv4_tostr :: "addr \<Rightarrow> uint32 \<Rightarrow> IPv4Addr \<Rightarrow> mem \<Rightarrow> (uint32 \<times> mem) option" where
  "addr_ipv4_tostr str sz x m =
     snprintf str sz (c_string ''%d.%d.%d.%d'')
       [ucast (ipv4_n x 0), ucast (ipv4_n x 1), ucast (ipv4_n x 2), ucast (ipv4_n x 3)] m"

definition addr_ipv4_port_tostr :: "addr \<Rightarrow> uint32 \<Rightarrow> IPv4Addr \<Rightarrow> uint16 \<Rightarrow> mem \<Rightarrow> (uint32 \<times> mem) option" where
  "addr_ipv4_port_tostr str sz x port m =
     snprintf str sz (c_string ''%d.%d.%d.%d:%d'')
       [ucast (ipv4_n x 0), ucast (ipv4_n x 1), ucast (ipv4_n x 2), ucast (ipv4_n x 3), ucast port] m"

text \<open>The result is the value returned, the address as it is left and the memory.\<close>

definition addr_strto_ipv4 :: "addr \<Rightarrow> IPv4Addr \<Rightarrow> uint8 list \<Rightarrow> mem \<Rightarrow> (bool \<times> IPv4Addr \<times> mem) option" where
  "addr_strto_ipv4 a x str m =
     (case sscanf str (c_string ''%d.%d.%d.%d'') [a, a + 1, a + 2, a + 3] m of
        None \<Rightarrow> None
      | Some (count, m') \<Rightarrow> Some (if count = 4
          then (True, ipv4_of_n (m' a) (m' (a + 1)) (m' (a + 2)) (m' (a + 3)), m')
          else (False, x, m')))"

text \<open>The variable \<open>n\<close> of the port is at the address \<open>n\<close>.\<close>

definition addr_strto_ipv4_port ::
  "addr \<Rightarrow> addr \<Rightarrow> IPv4Addr \<Rightarrow> uint8 list \<Rightarrow> uint16 \<Rightarrow> mem \<Rightarrow> (bool \<times> IPv4Addr \<times> uint16 \<times> mem) option" where
  "addr_strto_ipv4_port a n x str port m =
     (case sscanf str (c_string ''%d.%d.%d.%d:%d'') [a, a + 1, a + 2, a + 3, n] m of
        None \<Rightarrow> None
      | Some (count, m') \<Rightarrow> Some (if count = 4
          then (True, ipv4_of_n (m' a) (m' (a + 1)) (m' (a + 2)) (m' (a + 3)), load16 m' n, m')
          else (False, x, port, m')))"

lemma ipv4_of_n_bytes: "ipv4_of_n (ipv4_n x 0) (ipv4_n x 1) (ipv4_n x 2) (ipv4_n x 3) = x"
proof (rule bit_word_eqI)
  fix n assume "n < LENGTH(32)"
  then consider "n < 8" | "8 \<le> n" "n < 16" | "16 \<le> n" "n < 24" | "24 \<le> n" "n < 32"
    by fastforce
  then show "bit (ipv4_of_n (ipv4_n x 0) (ipv4_n x 1) (ipv4_n x 2) (ipv4_n x 3)) n = bit x n"
    by cases (auto simp: ipv4_of_n_def ipv4_n_def bit_simps)
qed

lemma eth_eq_loop_iff: "eth_eq_loop i x y \<longleftrightarrow> (\<forall>j. i \<le> j \<and> j < 6 \<longrightarrow> x ! j = y ! j)"
proof (induction i x y rule: eth_eq_loop.induct)
  case (1 i x y)
  then show ?case
    by (subst eth_eq_loop.simps) (auto simp: Suc_le_eq less_Suc_eq le_less intro: Suc_lessI)
qed

text \<open>
  \<open>addr_eth_eq\<close> decides equality of addresses.
\<close>

theorem addr_eth_eq_iff: "length x = 6 \<Longrightarrow> length y = 6 \<Longrightarrow> addr_eth_eq x y \<longleftrightarrow> x = y"
  by (auto simp: addr_eth_eq_def eth_eq_loop_iff intro: nth_equalityI)

theorem addr_eth_eq_iff_witness: "\<not> addr_eth_eq g_nullEthAddr g_broadcastEthAddr"
  using addr_eth_eq_iff [of g_nullEthAddr g_broadcastEthAddr] by (simp add: g_nullEthAddr_def g_broadcastEthAddr_def)

section \<open>Texts\<close>

definition dotted :: "IPv4Addr \<Rightarrow> uint8 list" where
  "dotted x = int_text (ucast (ipv4_n x 0)) @ 46 # int_text (ucast (ipv4_n x 1)) @
     46 # int_text (ucast (ipv4_n x 2)) @ 46 # int_text (ucast (ipv4_n x 3))"

lemma ipv4_format: "parse_format (c_string ''%d.%d.%d.%d'') =
    Some [Directive 0 (- 1) 100, Literal 46, Directive 0 (- 1) 100, Literal 46,
      Directive 0 (- 1) 100, Literal 46, Directive 0 (- 1) 100]"
  by code_simp

lemma byte_text: "int_text (ucast (b :: uint8)) = digits_text 10 (unat b)"
proof -
  have "\<not> ucast b <s (0 :: uint32)"
    using unsigned_less [of b, where 'a = int] bit_imp_le_length [of b 31]
    by (simp add: bit_uint_iff word_sless_alt sint_uint unsigned_ucast_eq take_bit_int_eq_self signed_take_bit_int_eq_self)
  then show ?thesis using unsigned_less [of b, where 'a = nat]
    by (simp add: int_text_def unsigned_ucast_eq take_bit_nat_eq_self)
qed

lemma byte_text_length: "length (int_text (ucast (b :: uint8))) \<le> 3"
  using unsigned_less [of b, where 'a = nat] by (simp add: byte_text digits_text_def length_lsd)

lemma dotted_length: "length (dotted x) \<le> 15"
  using byte_text_length [of "ipv4_n x 0"] byte_text_length [of "ipv4_n x 1"]
    byte_text_length [of "ipv4_n x 2"] byte_text_length [of "ipv4_n x 3"] by (simp add: dotted_def)

lemma ipv4_items_text:
  "items_text m [Directive 0 (- 1) 100, Literal 46, Directive 0 (- 1) 100, Literal 46,
      Directive 0 (- 1) 100, Literal 46, Directive 0 (- 1) 100]
    [ucast (ipv4_n x 0), ucast (ipv4_n x 1), ucast (ipv4_n x 2), ucast (ipv4_n x 3)] = Some (dotted x)"
  by (simp add: int_text_directive dotted_def)

text \<open>
  A buffer of \<open>IPV4_ADDR_STRING_SIZE\<close> bytes always suffices: \<open>addr_ipv4_tostr\<close> writes the
  dotted text of the address with its terminator, and returns its length.
\<close>

theorem addr_ipv4_tostr_text:
  assumes "16 \<le> sz" "unat str + unat sz < 2 ^ 32"
  shows "addr_ipv4_tostr str sz x m = Some (of_nat (length (dotted x)), write_bytes m str (dotted x @ [0]))"
proof -
  have "16 \<le> unat sz" "sz \<noteq> 0" using assms(1) by (auto simp: word_le_nat_alt)
  then show ?thesis
    using vsnprintf_text [OF \<open>sz \<noteq> 0\<close> assms(2) ipv4_format ipv4_items_text, of x m] dotted_length [of x]
    by (simp add: addr_ipv4_tostr_def snprintf_def args_left_def)
qed

theorem addr_ipv4_tostr_text_witness:
  "addr_ipv4_tostr 100 16 (ipv4_of_n 10 0 2 15) m = Some (9, write_bytes m 100 (map of_char ''10.0.2.15'' @ [0]))"
proof -
  have "dotted (ipv4_of_n 10 0 2 15) = map of_char ''10.0.2.15''"
    by (simp add: dotted_def ipv4_n_def ipv4_of_n_def int_text_def digits_text_def lsd.simps digit_byte_def word_sless_alt)
  then show ?thesis using addr_ipv4_tostr_text [of 16 100 "ipv4_of_n 10 0 2 15" m] by simp
qed

lemma byte_words:
  fixes b :: uint8
  shows "ucast (ucast b :: uint32) = b" "8 \<le> k \<Longrightarrow> ucast (drop_bit k (ucast b :: uint32)) = (0 :: uint8)"
  by (rule bit_word_eqI, auto simp: bit_simps dest: bit_imp_le_length)+

lemma scan_dotted:
  assumes "\<not> is_digit c"
  shows "vss_loop (37 # 100 # 46 # 37 # 100 # 46 # 37 # 100 # 46 # 37 # 100 # fmt) (dotted x @ c # r)
      (a0 # a1 # a2 # a3 # as) 0 m =
    vss_loop fmt (c # r) as 4 (store32 (store32 (store32 (store32 m a0 (ucast (ipv4_n x 0)))
      a1 (ucast (ipv4_n x 1))) a2 (ucast (ipv4_n x 2))) a3 (ucast (ipv4_n x 3)))"
proof -
  have "\<not> is_digit 46" "\<not> is_space 46" by (simp_all add: is_digit_def is_space_def)
  with assms show ?thesis by (simp add: dotted_def vss_loop_int vss_loop_literal del: vss_loop.simps)
qed

lemma addr_strto_ipv4_dotted:
  "\<exists>m'. addr_strto_ipv4 a old (dotted x @ [0]) m = Some (True, x, m') \<and>
     m' (a + 4) = 0 \<and> m' (a + 5) = 0 \<and> m' (a + 6) = 0 \<and>
     (\<forall>y. \<not> in_range a 7 y \<longrightarrow> m' y = m y)"
proof -
  define m' where "m' = store32 (store32 (store32 (store32 m a (ucast (ipv4_n x 0)))
      (a + 1) (ucast (ipv4_n x 1))) (a + 2) (ucast (ipv4_n x 2))) (a + 3) (ucast (ipv4_n x 3))"
  have s: "vss_loop [37, 100, 46, 37, 100, 46, 37, 100, 46, 37, 100, 0] (dotted x @ [0])
      [a, a + 1, a + 2, a + 3] 0 m = Some (Match_failure, 4, m')"
    by (subst scan_dotted) (simp_all add: is_digit_def m'_def)
  have b: "m' a = ipv4_n x 0" "m' (a + 1) = ipv4_n x 1" "m' (a + 2) = ipv4_n x 2" "m' (a + 3) = ipv4_n x 3"
    "m' (a + 4) = 0" "m' (a + 5) = 0" "m' (a + 6) = 0"
    by (simp_all add: store32_def byte_words m'_def)
  have "addr_strto_ipv4 a old (dotted x @ [0]) m = Some (True, x, m')"
    unfolding addr_strto_ipv4_def sscanf_def vsscanf_def c_string_def
    using ipv4_of_n_bytes [of x] by (simp add: s b del: vss_loop.simps One_nat_def)
  moreover have "m' y = m y" if "\<not> in_range a 7 y" for y
  proof -
    have "y \<notin> {a, a + 1, a + 2, a + 3, a + 4, a + 5, a + 6}" using that by (auto simp: in_range_def)
    then show ?thesis by (simp add: m'_def store32_def ac_simps)
  qed
  ultimately show ?thesis using b by blast
qed

text \<open>
  C31. Parsing inverts printing: \<open>addr_strto_ipv4\<close> on the text of \<open>addr_ipv4_tostr\<close> returns true
  and the address, for every address. The four integers are stored at consecutive bytes, so the
  array of four bytes holds the right values, but the memory up to three bytes behind it is cleared.
\<close>

theorem addr_strto_ipv4_inverts_tostr:
  "\<exists>m'. addr_strto_ipv4 a old (dotted x @ [0]) m = Some (True, x, m') \<and>
     m' (a + 4) = 0 \<and> m' (a + 5) = 0 \<and> m' (a + 6) = 0"
  using addr_strto_ipv4_dotted by blast

text \<open>
  \<open>addr_strto_ipv4_port\<close> tests for four conversions where its format has five. An address
  with a port is refused and nothing is stored for the caller; an address without one is accepted,
  and the port is what the memory of its uninitialised variable held.
\<close>

theorem addr_strto_ipv4_port_inverted:
  assumes "\<not> is_digit c" "c \<noteq> 58"
  shows "(\<exists>m'. addr_strto_ipv4_port a n old (dotted x @ 58 # int_text p @ [0]) port m = Some (False, old, port, m')) \<and>
    (\<exists>m'. addr_strto_ipv4_port a n old (dotted x @ c # r) port m = Some (True, x, load16 m' n, m')
       \<and> (\<not> in_range a 7 n \<and> \<not> in_range a 7 (n + 1) \<longrightarrow> load16 m' n = load16 m n))"
proof -
  define m' where "m' = store32 (store32 (store32 (store32 m a (ucast (ipv4_n x 0)))
      (a + 1) (ucast (ipv4_n x 1))) (a + 2) (ucast (ipv4_n x 2))) (a + 3) (ucast (ipv4_n x 3))"
  have s: "vss_loop (37 # 100 # 46 # 37 # 100 # 46 # 37 # 100 # 46 # 37 # 100 # fmt) (dotted x @ c # r)
      [a, a + 1, a + 2, a + 3, n] 0 m = vss_loop fmt (c # r) [n] 4 m'" if "\<not> is_digit c" for c r fmt
    by (subst scan_dotted) (use that in \<open>simp_all add: m'_def\<close>)
  have l: "\<not> is_digit 58" "\<not> is_digit 0" "\<not> is_space 58" by (simp_all add: is_digit_def is_space_def)
  have "vss_loop (37 # 100 # 46 # 37 # 100 # 46 # 37 # 100 # 46 # 37 # 100 # [58, 37, 100, 0])
      (dotted x @ 58 # int_text p @ [0]) [a, a + 1, a + 2, a + 3, n] 0 m = Some (Match_failure, 5, store32 m' n p)"
    by (simp add: s l vss_loop_literal vss_loop_int del: vss_loop.simps) simp
  then have refused: "\<exists>m'. addr_strto_ipv4_port a n old (dotted x @ 58 # int_text p @ [0]) port m = Some (False, old, port, m')"
    by (simp add: addr_strto_ipv4_port_def sscanf_def vsscanf_def c_string_def del: vss_loop.simps)
  have b: "m' a = ipv4_n x 0" "m' (a + 1) = ipv4_n x 1" "m' (a + 2) = ipv4_n x 2" "m' (a + 3) = ipv4_n x 3"
    by (simp_all add: store32_def byte_words m'_def)
  have e: "\<exists>e. vss_loop (37 # 100 # 46 # 37 # 100 # 46 # 37 # 100 # 46 # 37 # 100 # [58, 37, 100, 0])
      (dotted x @ c # r) [a, a + 1, a + 2, a + 3, n] 0 m = Some (e, 4, m')"
    using assms l by (simp add: s vss_loop_mismatch del: vss_loop.simps)
  have o: "m' y = m y" if "\<not> in_range a 7 y" for y
  proof -
    have "y \<notin> {a, a + 1, a + 2, a + 3, a + 4, a + 5, a + 6}" using that by (auto simp: in_range_def)
    then show ?thesis by (simp add: m'_def store32_def ac_simps)
  qed
  from e obtain ee where "vss_loop (37 # 100 # 46 # 37 # 100 # 46 # 37 # 100 # 46 # 37 # 100 # [58, 37, 100, 0])
      (dotted x @ c # r) [a, a + 1, a + 2, a + 3, n] 0 m = Some (ee, 4, m')" by blast
  then have "addr_strto_ipv4_port a n old (dotted x @ c # r) port m = Some (True, x, load16 m' n, m')"
    unfolding addr_strto_ipv4_port_def sscanf_def vsscanf_def c_string_def
    using ipv4_of_n_bytes [of x] by (cases ee) (simp_all add: b del: vss_loop.simps One_nat_def)
  with o have "\<exists>m'. addr_strto_ipv4_port a n old (dotted x @ c # r) port m = Some (True, x, load16 m' n, m')
       \<and> (\<not> in_range a 7 n \<and> \<not> in_range a 7 (n + 1) \<longrightarrow> load16 m' n = load16 m n)"
    by (intro exI [of _ m']) (auto intro: load16_cong)
  with refused show ?thesis by blast
qed

theorem addr_strto_ipv4_port_inverted_witness:
  "\<exists>m'. addr_strto_ipv4_port 100 108 0 (dotted 7 @ [0]) 80 (\<lambda>_. 9) = Some (True, 7, 0x0909, m')"
proof -
  obtain m' where "addr_strto_ipv4_port 100 108 0 (dotted 7 @ [0]) 80 (\<lambda>_. 9) = Some (True, 7, load16 m' 108, m')"
      "load16 m' 108 = load16 (\<lambda>_. 9) 108"
    using addr_strto_ipv4_port_inverted [of 0 100 108 0 7 0 80 "\<lambda>_. 9" "[]"] by (auto simp: is_digit_def in_range_def)
  then show ?thesis by (simp add: load16_def)
qed

section \<open>The text of an Ethernet address\<close>

definition hex_pair :: "uint8 \<Rightarrow> uint8 list" where
  "hex_pair b = [digit_byte (unat b div 16), digit_byte (unat b mod 16)]"

definition eth_text :: "EthAddr \<Rightarrow> uint8 list" where
  "eth_text x = hex_pair (x ! 0) @ 58 # hex_pair (x ! 1) @ 58 # hex_pair (x ! 2) @
     58 # hex_pair (x ! 3) @ 58 # hex_pair (x ! 4) @ 58 # hex_pair (x ! 5)"


lemma eth_format: "parse_format (c_string ''%02x:%02x:%02x:%02x:%02x:%02x'') =
    Some [Directive PAD_ZERO 2 120, Literal 58, Directive PAD_ZERO 2 120, Literal 58, Directive PAD_ZERO 2 120, Literal 58,
      Directive PAD_ZERO 2 120, Literal 58, Directive PAD_ZERO 2 120, Literal 58, Directive PAD_ZERO 2 120]"
  by code_simp

lemma hex_directive_table:
  "\<forall>n \<in> set [0..<256]. number_text PAD_ZERO 2 (hex_digits 120 (of_nat n) []) = hex_pair (of_nat n)"
  by code_simp


lemma hex_directive:
  "directive_text m PAD_ZERO 2 120 (ucast (b :: uint8) # as) = Some (hex_pair b, as)"
proof -
  have "unat b \<in> set [0..<256]" using unsigned_less [of b, where 'a = nat] by simp
  from bspec [OF hex_directive_table this]
  have "number_text PAD_ZERO 2 (hex_digits 120 (of_nat (unat b)) []) = hex_pair b" by simp
  moreover have "of_nat (unat b) = (ucast b :: uint32)" by (simp add: unsigned_ucast_eq)
  ultimately show ?thesis by (simp add: directive_text_def)
qed

lemma eth_items_text:
  "items_text m [Directive PAD_ZERO 2 120, Literal 58, Directive PAD_ZERO 2 120, Literal 58, Directive PAD_ZERO 2 120, Literal 58,
      Directive PAD_ZERO 2 120, Literal 58, Directive PAD_ZERO 2 120, Literal 58, Directive PAD_ZERO 2 120]
    [ucast (x ! 0), ucast (x ! 1), ucast (x ! 2), ucast (x ! 3), ucast (x ! 4), ucast (x ! 5)] = Some (eth_text x)"
  by (simp add: hex_directive eth_text_def del: One_nat_def)

lemma eth_text_chars: "length (eth_text x) = 17" "0 \<notin> set (eth_text x)"
proof -
  show "length (eth_text x) = 17" by (simp add: eth_text_def hex_pair_def)
  have n: "0 \<notin> set (hex_pair b)" for b
  proof -
    have "unat b div 16 < 36" "unat b mod 16 < 36" using unsigned_less [of b, where 'a = nat] by simp_all
    then show ?thesis using digit_byte_nz by (fastforce simp: hex_pair_def)
  qed
  then show "0 \<notin> set (eth_text x)" unfolding eth_text_def by simp
qed

text \<open>
  \<open>addr_eth_tostr\<close> writes the six bytes of the address as pairs of hexadecimal digits with colons
  between them; the buffer of \<open>ETH_ADDR_STRING_SIZE\<close> bytes always suffices.
\<close>

lemma addr_eth_tostr_text:
  assumes "18 \<le> sz" "unat str + unat sz < 2 ^ 32"
  shows "addr_eth_tostr str sz x m = Some (17, write_bytes m str (eth_text x @ [0]))"
proof -
  have "18 \<le> unat sz" "sz \<noteq> 0" using assms(1) by (auto simp: word_le_nat_alt)
  then show ?thesis
    using vsnprintf_text [OF \<open>sz \<noteq> 0\<close> assms(2) eth_format eth_items_text, of x m] eth_text_chars(1) [of x]
    by (simp add: addr_eth_tostr_def snprintf_def args_left_def)
qed

lemma dotted_chars: "c \<in> set (dotted x) \<Longrightarrow> c \<noteq> 0 \<and> c \<noteq> 32 \<and> c \<noteq> 10"
proof -
  have d: "\<forall>d \<in> set [0..<10]. digit_byte d \<noteq> 0 \<and> digit_byte d \<noteq> 32 \<and> digit_byte d \<noteq> 10" by code_simp
  have "c \<noteq> 0 \<and> c \<noteq> 32 \<and> c \<noteq> 10" if "c \<in> set (int_text (ucast (b :: uint8)))" for b
    using that d lsd_small [of _ 10 "unat b"] by (auto simp: byte_text digits_text_def)
  then show "c \<in> set (dotted x) \<Longrightarrow> c \<noteq> 0 \<and> c \<noteq> 32 \<and> c \<noteq> 10" unfolding dotted_def by auto
qed

text \<open>A text that has been written is a string, and only its bytes have changed.\<close>

lemma write_bytes_cstr:
  assumes "0 \<notin> set t" "length t < 4294967295"
  shows "cstr (write_bytes m p (t @ [0])) p t"
    and "\<And>x. \<not> in_range p (of_nat (length t + 1)) x \<Longrightarrow> write_bytes m p (t @ [0]) x = m x"
proof -
  have n: "write_bytes m p (t @ [0]) (p + of_nat k) = (t @ [0]) ! k" if "k \<le> length t" for k
    using that assms(2) by (intro write_bytes_nth) simp_all
  show "cstr (write_bytes m p (t @ [0])) p t"
    unfolding cstr_nth using n assms(1) by (auto simp: nth_append in_set_conv_nth)
  fix x assume "\<not> in_range p (of_nat (length t + 1)) x"
  moreover have "in_range p (of_nat (length t + 1)) (p + of_nat k)" if "k < length t + 1" for k
    using that assms(2) by (simp add: in_range_def word_less_nat_alt unat_of_nat_small del: of_nat_add of_nat_Suc)
  ultimately show "write_bytes m p (t @ [0]) x = m x" by (intro write_bytes_outside) auto
qed

end
