(* ===== verification/Textmode.thy ===== *)
theory Textmode
  imports Mem_Utils Ports CStrings
begin

text \<open>
  The text console, \<open>src/display/textmode/dispi_textmode.c\<close>: cursor, scrolling and the screen in
  the memory of the VGA adapter. \<open>sched\<close> and \<open>m_memcpy\<close> are what \<open>memcpy\<close> takes: the effect of the
  scheduler and the address of its lock; \<open>None\<close> is a \<open>memcpy\<close> that never returns. The display
  record also holds the functions of the driver, which are the definitions here.
\<close>

section \<open>The code\<close>

definition VGA_MEMORY :: addr where "VGA_MEMORY = 0xB8000"
definition TEXTMODE_WIDTH :: uint32 where "TEXTMODE_WIDTH = 80"
definition TEXTMODE_HEIGHT :: uint32 where "TEXTMODE_HEIGHT = 26"
definition COLOR_BLACK :: uint32 where "COLOR_BLACK = 0"
definition COLOR_WHITE :: uint32 where "COLOR_WHITE = 15"

record CONSOLE =
  bgcol :: uint32
  fgcol :: uint32
  cx :: uint32
  cy :: uint32

record text_display =
  width :: uint32
  height :: uint32
  con :: CONSOLE

definition textmode_make_color :: "uint8 \<Rightarrow> uint8 \<Rightarrow> uint8" where
  "textmode_make_color fg bg = fg OR push_bit 4 bg"

text \<open>A \<open>char\<close> is signed: its conversion to 16 bits repeats the sign bit.\<close>

definition textmode_create_entry :: "uint8 \<Rightarrow> uint8 \<Rightarrow> uint16" where
  "textmode_create_entry c color = scast c OR push_bit 8 (ucast color)"

definition set_cursor :: "uint32 \<Rightarrow> uint32 \<Rightarrow> trace \<Rightarrow> trace" where
  "set_cursor row col tr =
     (let pos = ucast (row * 80 + col) :: uint16;
          tr1 = outportb 0x3d4 0x0f tr;
          tr2 = outportb 0x3d5 (ucast (pos AND 0xff)) tr1;
          tr3 = outportb 0x3d4 0x0e tr2
      in outportb 0x3d5 (ucast (drop_bit 8 pos AND 0xff)) tr3)"

definition update_cursor :: "text_display \<Rightarrow> trace \<Rightarrow> trace" where
  "update_cursor d tr = set_cursor (cy (con d)) (cx (con d)) tr"

fun scrollup_loop :: "nat \<Rightarrow> nat \<Rightarrow> (mem \<Rightarrow> mem) \<Rightarrow> addr \<Rightarrow> mem \<Rightarrow> mem option" where
  "scrollup_loop 0 y sched m_memcpy m = Some m"
| "scrollup_loop (Suc n) y sched m_memcpy m = do {
     m1 \<leftarrow> memcpy sched m_memcpy m (VGA_MEMORY + of_nat y * TEXTMODE_WIDTH * 2)
       (VGA_MEMORY + (of_nat y + 1) * TEXTMODE_WIDTH * 2) (TEXTMODE_WIDTH * 2);
     scrollup_loop n (y + 1) sched m_memcpy m1
   }"

definition entity :: "text_display \<Rightarrow> uint8" where
  "entity d = textmode_make_color (ucast (fgcol (con d))) (ucast (bgcol (con d)))"

definition textmode_scrollup :: "(mem \<Rightarrow> mem) \<Rightarrow> addr \<Rightarrow> text_display \<Rightarrow> mem \<Rightarrow> mem option" where
  "textmode_scrollup sched m_memcpy d m = do {
     m1 \<leftarrow> scrollup_loop (unat TEXTMODE_HEIGHT) 0 sched m_memcpy m;
     Some (memset16 m1 (VGA_MEMORY + TEXTMODE_HEIGHT * TEXTMODE_WIDTH * 2)
       (textmode_create_entry 32 (entity d)) (TEXTMODE_WIDTH * 2))
   }"

text \<open>The two loops of \<open>textmode_clear\<close>, rows from \<open>y\<close> and columns from \<open>x\<close>.\<close>

fun clear_row :: "nat \<Rightarrow> nat \<Rightarrow> nat \<Rightarrow> uint16 \<Rightarrow> mem \<Rightarrow> mem" where
  "clear_row 0 y x e m = m"
| "clear_row (Suc n) y x e m =
     clear_row n y (x + 1) e (store16 m (VGA_MEMORY + (of_nat y * 2 * TEXTMODE_WIDTH + of_nat x * 2)) e)"

fun clear_rows :: "nat \<Rightarrow> nat \<Rightarrow> uint16 \<Rightarrow> mem \<Rightarrow> mem" where
  "clear_rows 0 y e m = m"
| "clear_rows (Suc n) y e m = clear_rows n (y + 1) e (clear_row (unat TEXTMODE_WIDTH) y 0 e m)"

definition textmode_clear :: "text_display \<times> mem \<Rightarrow> text_display \<times> mem" where
  "textmode_clear s = (case s of (d, m) \<Rightarrow>
     (d\<lparr>con := (con d)\<lparr>cx := 0, cy := 0\<rparr>\<rparr>,
      clear_rows (unat TEXTMODE_HEIGHT) 0 (textmode_create_entry 32 (entity d)) m))"

definition textmode_putc ::
  "(mem \<Rightarrow> mem) \<Rightarrow> addr \<Rightarrow> uint8 \<Rightarrow> text_display \<times> mem \<Rightarrow> (text_display \<times> mem) option" where
  "textmode_putc sched m_memcpy c0 s = (case s of (d0, m) \<Rightarrow>
     if c0 = 0 then Some (d0, m)
     else let
         d1 = (if c0 = 9 then d0\<lparr>con := (con d0)\<lparr>cx := cx (con d0) + 4\<rparr>\<rparr> else d0);
         (incx, d2, c) = (if c0 = 13 then (False, d1\<lparr>con := (con d1)\<lparr>cx := cx (con d1) - 1\<rparr>\<rparr>, 32)
            else (True, d1, c0));
         d3 = (if TEXTMODE_WIDTH \<le> cx (con d2) \<or> c = 10
            then d2\<lparr>con := (con d2)\<lparr>cx := 0, cy := cy (con d2) + 1\<rparr>\<rparr> else d2)
       in do {
         (d4, m4) \<leftarrow> (if TEXTMODE_HEIGHT - 1 \<le> cy (con d3)
            then do { m' \<leftarrow> textmode_scrollup sched m_memcpy d3 m;
                      Some (d3\<lparr>con := (con d3)\<lparr>cy := cy (con d3) - 1\<rparr>\<rparr>, m') }
            else Some (d3, m));
         if c = 10 \<or> c = 9 then Some (d4, m4)
         else Some
           (if incx then d4\<lparr>con := (con d4)\<lparr>cx := cx (con d4) + 1\<rparr>\<rparr> else d4,
            store16 m4 (VGA_MEMORY + (cy (con d4) * 2 * TEXTMODE_WIDTH + cx (con d4) * 2))
              (textmode_create_entry c (entity d4)))
       })"

partial_function (option) textmode_puts ::
  "(mem \<Rightarrow> mem) \<Rightarrow> addr \<Rightarrow> addr \<Rightarrow> text_display \<times> mem \<Rightarrow> (text_display \<times> mem) option" where
  "textmode_puts sched m_memcpy s st =
     (if snd st s \<noteq> 0
      then do { st' \<leftarrow> textmode_putc sched m_memcpy (snd st s) st; textmode_puts sched m_memcpy (s + 1) st' }
      else Some st)"

definition texmode_onRegister :: "text_display \<times> mem \<Rightarrow> text_display \<times> mem" where
  "texmode_onRegister st = st"

text \<open>The message of \<open>__texmode_onSet\<close> is a constant at the address \<open>msg\<close>.\<close>

definition texmode_onSet ::
  "(mem \<Rightarrow> mem) \<Rightarrow> addr \<Rightarrow> addr \<Rightarrow> uint8 \<Rightarrow> text_display \<times> mem \<Rightarrow> (text_display \<times> mem) option" where
  "texmode_onSet sched m_memcpy msg n st = do {
     st1 \<leftarrow> textmode_puts sched m_memcpy msg (textmode_clear st);
     st2 \<leftarrow> textmode_putc sched m_memcpy (n + 48) st1;
     textmode_putc sched m_memcpy 10 st2
   }"

definition textmode_init :: "text_display \<Rightarrow> trace \<Rightarrow> text_display \<times> trace" where
  "textmode_init d tr =
     (d\<lparr>width := TEXTMODE_WIDTH, height := TEXTMODE_HEIGHT,
        con := \<lparr>bgcol = COLOR_BLACK, fgcol = COLOR_WHITE, cx = 0, cy = 0\<rparr>\<rparr>,
      set_cursor 0xff 0xff tr)"

lemmas text_constants = VGA_MEMORY_def TEXTMODE_WIDTH_def TEXTMODE_HEIGHT_def

section \<open>Positions on the screen\<close>

text \<open>The offset of an address in the memory of the screen; a row has 160 bytes.\<close>

definition off :: "addr \<Rightarrow> nat" where "off x = unat (x - VGA_MEMORY)"

lemma off_add: "off x + k < 4294967296 \<Longrightarrow> off (x + of_nat k) = off x + k"
  by (simp add: off_def add_diff_eq [symmetric] add.commute [of x] unat_add_small unat_of_nat_small)

lemma in_range_off:
  "k + n < 4294967296 \<Longrightarrow> in_range (VGA_MEMORY + of_nat k) (of_nat n) x \<longleftrightarrow> k \<le> off x \<and> off x < k + n"
proof -
  assume s: "k + n < 4294967296"
  have e: "x - (VGA_MEMORY + of_nat k) = (x - VGA_MEMORY) - of_nat k" by simp
  show ?thesis
    using s unat32_lt [of "x - VGA_MEMORY"]
    by (auto simp: in_range_def e word_less_nat_alt unat_sub_word unat_of_nat_small off_def)
qed

text \<open>A lock outside the memory of the screen that is free, with clear bytes behind it.\<close>

definition lock_ready :: "addr \<Rightarrow> mem \<Rightarrow> bool" where
  "lock_ready lk m \<longleftrightarrow> m lk = 0 \<and> mutex_pad_clear lk m \<and> (\<forall>i \<in> {0, 1, 2, 3}. 4480 \<le> off (lk + i))"

lemma lock_ready_cong:
  "lock_ready lk m \<Longrightarrow> (\<And>x. 4480 \<le> off x \<Longrightarrow> m' x = m x) \<Longrightarrow> lock_ready lk m'"
  by (simp add: lock_ready_def mutex_pad_clear_def)

lemma scroll_row:
  assumes "lock_ready lk m" "y < 26"
  shows "memcpy (\<lambda>x. x) lk m (VGA_MEMORY + of_nat y * TEXTMODE_WIDTH * 2)
      (VGA_MEMORY + (of_nat y + 1) * TEXTMODE_WIDTH * 2) (TEXTMODE_WIDTH * 2) =
    Some (\<lambda>x. if 160 * y \<le> off x \<and> off x < 160 * y + 160 then m (x + 160) else m x)"
proof -
  have a: "VGA_MEMORY + of_nat y * TEXTMODE_WIDTH * 2 = VGA_MEMORY + of_nat (160 * y)"
    "VGA_MEMORY + (of_nat y + 1) * TEXTMODE_WIDTH * 2 = VGA_MEMORY + of_nat (160 * y + 160)"
    "TEXTMODE_WIDTH * 2 = of_nat 160"
    by (simp_all add: TEXTMODE_WIDTH_def)
  have d: "VGA_MEMORY + of_nat (160 * y) - (VGA_MEMORY + of_nat (160 * y + 160)) = (- 160 :: addr)" by simp
  have e: "VGA_MEMORY + of_nat (160 * y + 160) + (x - (VGA_MEMORY + of_nat (160 * y))) = x + 160" for x :: addr
    by simp
  have lk: "4480 \<le> off lk" using assms(1) by (simp add: lock_ready_def)
  have "memcpy (\<lambda>x. x) lk m (VGA_MEMORY + of_nat (160 * y)) (VGA_MEMORY + of_nat (160 * y + 160)) (of_nat 160) =
    Some (\<lambda>x. if in_range (VGA_MEMORY + of_nat (160 * y)) (of_nat 160) x
      then m (VGA_MEMORY + of_nat (160 * y + 160) + (x - (VGA_MEMORY + of_nat (160 * y)))) else m x)"
    by (rule memcpy_alone) (use assms lk in \<open>auto simp: lock_ready_def in_range_off d simp del: of_nat_mult of_nat_add of_nat_numeral\<close>, simp)
  also have "\<dots> = Some (\<lambda>x. if 160 * y \<le> off x \<and> off x < 160 * y + 160 then m (x + 160) else m x)"
    using assms(2) by (simp only: e in_range_off)
  finally show ?thesis unfolding a .
qed

lemma scrollup_loop_rows:
  "lock_ready lk m \<Longrightarrow> n + y \<le> 26 \<Longrightarrow> scrollup_loop n y (\<lambda>x. x) lk m =
    Some (\<lambda>x. if 160 * y \<le> off x \<and> off x < 160 * (y + n) then m (x + 160) else m x)"
proof (induction n arbitrary: y m)
  case (Suc n)
  let ?m = "\<lambda>x. if 160 * y \<le> off x \<and> off x < 160 * y + 160 then m (x + 160) else m x"
  have l: "lock_ready lk ?m" by (rule lock_ready_cong [OF Suc.prems(1)]) (use Suc.prems(2) in auto)
  have o: "off (x + 160) = off x + 160" if "off x < 4160" for x using off_add [of x 160] that by simp
  have "scrollup_loop (Suc n) y (\<lambda>x. x) lk m = scrollup_loop n (y + 1) (\<lambda>x. x) lk ?m"
    using Suc.prems by (simp add: scroll_row)
  also have "\<dots> = Some (\<lambda>x. if 160 * (y + 1) \<le> off x \<and> off x < 160 * (y + 1 + n) then ?m (x + 160) else ?m x)"
    using Suc.prems by (intro Suc.IH [OF l]) simp
  also have "\<dots> = Some (\<lambda>x. if 160 * y \<le> off x \<and> off x < 160 * (y + Suc n) then m (x + 160) else m x)"
    using Suc.prems(2) o by (auto simp: fun_eq_iff)
  finally show ?case .
qed (auto simp: fun_eq_iff)

definition half :: "uint16 \<Rightarrow> nat \<Rightarrow> uint8" where
  "half e k = (if even k then ucast e else ucast (drop_bit 8 e))"

lemma memset16_loop_apply:
  "2 * n < 4294967296 \<Longrightarrow>
    memset16_loop n m p v x = (if unat (x - p) < 2 * n then half v (unat (x - p)) else m x)"
proof (induction n arbitrary: m p)
  case (Suc n)
  let ?k = "unat (x - p)"
  have IH: "memset16_loop n (store16 m p v) (p + 2) v x =
      (if unat (x - (p + 2)) < 2 * n then half v (unat (x - (p + 2))) else store16 m p v x)"
    using Suc.prems by (intro Suc.IH) simp
  have e: "x - (p + 2) = (x - p) - 2" by simp
  have u: "unat (x - (p + 2)) = (if 2 \<le> ?k then ?k - 2 else 4294967294 + ?k)"
    unfolding e by (simp add: unat_sub_word)
  consider "x = p" | "x = p + 1" | "2 \<le> ?k" "x \<noteq> p" "x \<noteq> p + 1"
  proof -
    have "?k = 0 \<longleftrightarrow> x = p" by (simp add: unat_eq_0)
    moreover have "?k = 1 \<longleftrightarrow> x = p + 1" by (simp add: word_unat_eq_iff [of "x - p" 1, simplified, symmetric] diff_eq_eq ac_simps)
    ultimately show thesis using that by linarith
  qed
  then show ?case
  proof cases
    case 3
    then have "store16 m p v x = m x" by (simp add: store16_def)
    then show ?thesis using IH u 3(1) by (auto simp: half_def)
  qed (use IH u Suc.prems in \<open>auto simp: store16_def half_def\<close>)
qed simp

text \<open>One line up: row 26 moves into the last row, and rows 26 and 27 become blank.\<close>

lemma textmode_scrollup_rows:
  assumes "lock_ready lk m"
  shows "textmode_scrollup (\<lambda>x. x) lk d m = Some (\<lambda>x.
    if off x < 4160 then m (x + 160)
    else if off x < 4480 then half (textmode_create_entry 32 (entity d)) (off x) else m x)"
proof -
  have a: "VGA_MEMORY + TEXTMODE_HEIGHT * TEXTMODE_WIDTH * 2 = VGA_MEMORY + 4160"
    "unat (TEXTMODE_WIDTH * 2) = 160" "unat TEXTMODE_HEIGHT = 26"
    by (simp_all add: TEXTMODE_WIDTH_def TEXTMODE_HEIGHT_def)
  have e: "x - (VGA_MEMORY + 4160) = (x - VGA_MEMORY) - 4160" for x by simp
  have k: "unat (x - (VGA_MEMORY + 4160)) = (if 4160 \<le> off x then off x - 4160 else 4294963136 + off x)" for x
    unfolding e by (subst unat_sub_word) (simp add: off_def)
  have "half e (n - 4160) = half e n" if "4160 \<le> n" for e n using that by (simp add: half_def)
  moreover have olt: "off x < 4294967296" for x using unat32_lt by (simp add: off_def)
  ultimately show ?thesis
    using scrollup_loop_rows [OF assms, of 26 0] olt
    by (auto simp: textmode_scrollup_def a memset16_def memset16_loop_apply k fun_eq_iff)
qed

section \<open>The cursor\<close>

text \<open>
  Between two characters the cursor is in the first 25 rows, possibly behind the last column.
  \<open>con_tame d m d' m'\<close>: the step from \<open>(d, m)\<close> to \<open>(d', m')\<close> keeps that and the colours, and
  changes nothing outside of the 28 rows that scrolling writes.
\<close>

definition cursor_ok :: "text_display \<Rightarrow> bool" where
  "cursor_ok d \<longleftrightarrow> cx (con d) \<le> 80 \<and> cy (con d) \<le> 24"

definition con_tame :: "text_display \<Rightarrow> mem \<Rightarrow> text_display \<Rightarrow> mem \<Rightarrow> bool" where
  "con_tame d m d' m' \<longleftrightarrow> cursor_ok d' \<and> entity d' = entity d \<and> (\<forall>x. 4480 \<le> off x \<longrightarrow> m' x = m x)"

lemma cell_off:
  assumes "x < 80" "y \<le> 24"
  shows "off (VGA_MEMORY + (y * 2 * TEXTMODE_WIDTH + x * 2)) = 160 * unat y + 2 * unat x"
    and "off (VGA_MEMORY + (y * 2 * TEXTMODE_WIDTH + x * 2) + 1) = 160 * unat y + 2 * unat x + 1"
proof -
  have b: "unat x < 80" "unat y \<le> 24" using assms by (simp_all add: word_less_nat_alt word_le_nat_alt)
  have "off (VGA_MEMORY + (y * 2 * TEXTMODE_WIDTH + x * 2)) = unat (160 * y + 2 * x)"
    by (simp add: off_def TEXTMODE_WIDTH_def ac_simps)
  also have "\<dots> = 160 * unat y + 2 * unat x"
    using b by (simp add: unat_word_ariths)
  finally show o: "off (VGA_MEMORY + (y * 2 * TEXTMODE_WIDTH + x * 2)) = 160 * unat y + 2 * unat x" .
  show "off (VGA_MEMORY + (y * 2 * TEXTMODE_WIDTH + x * 2) + 1) = 160 * unat y + 2 * unat x + 1"
    using off_add [of "VGA_MEMORY + (y * 2 * TEXTMODE_WIDTH + x * 2)" 1] b by (simp add: o)
qed

lemma cell_store_outside:
  assumes "x < 80" "y \<le> 24" "4480 \<le> off z"
  shows "store16 m (VGA_MEMORY + (y * 2 * TEXTMODE_WIDTH + x * 2)) e z = m z"
proof -
  have "unat x < 80" "unat y \<le> 24" using assms by (simp_all add: word_less_nat_alt word_le_nat_alt)
  then have "z \<noteq> VGA_MEMORY + (y * 2 * TEXTMODE_WIDTH + x * 2)" "z \<noteq> VGA_MEMORY + (y * 2 * TEXTMODE_WIDTH + x * 2) + 1"
    using assms cell_off [OF assms(1,2)] by auto
  then show ?thesis by (simp add: store16_def)
qed

text \<open>The end of \<open>textmode_putc\<close>: a character at a position in the rows.\<close>

definition put_at :: "bool \<Rightarrow> uint8 \<Rightarrow> text_display \<times> mem \<Rightarrow> text_display \<times> mem" where
  "put_at incx c s = (case s of (d, m) \<Rightarrow>
     (if incx then d\<lparr>con := (con d)\<lparr>cx := cx (con d) + 1\<rparr>\<rparr> else d,
      store16 m (VGA_MEMORY + (cy (con d) * 2 * TEXTMODE_WIDTH + cx (con d) * 2)) (textmode_create_entry c (entity d))))"

lemma entity_cursor [simp]:
  "entity (d\<lparr>con := (con d)\<lparr>cx := a\<rparr>\<rparr>) = entity d"
  "entity (d\<lparr>con := (con d)\<lparr>cx := a, cy := b\<rparr>\<rparr>) = entity d"
  "entity (d\<lparr>con := (con d)\<lparr>cy := b\<rparr>\<rparr>) = entity d"
  by (simp_all add: entity_def)

text \<open>The line feed when the cursor has left the row, with scrolling at the end of the screen.\<close>

definition next_row :: "addr \<Rightarrow> text_display \<times> mem \<Rightarrow> text_display \<times> mem" where
  "next_row lk s = (case s of (d, m) \<Rightarrow>
     if cy (con d) = 24 then (d\<lparr>con := (con d)\<lparr>cx := 0\<rparr>\<rparr>, the (textmode_scrollup (\<lambda>x. x) lk d m))
     else (d\<lparr>con := (con d)\<lparr>cx := 0, cy := cy (con d) + 1\<rparr>\<rparr>, m))"

lemma next_row_tame:
  assumes "lock_ready lk m" "cursor_ok d" "next_row lk (d, m) = (d', m')"
  shows "con_tame d m d' m'" "cx (con d') < 80"
proof -
  have "cy (con d) + 1 \<le> 24" if "cy (con d) \<noteq> 24"
    using that assms(2) by (simp add: cursor_ok_def) unat_arith
  then show "con_tame d m d' m'" "cx (con d') < 80" using assms
    by (auto simp: next_row_def con_tame_def cursor_ok_def textmode_scrollup_rows split: if_splits)
qed

lemma cursor_tests:
  fixes x y :: uint32
  shows "y \<le> 24 \<Longrightarrow> 25 \<le> y + 1 \<longleftrightarrow> y = 24" "y \<le> 24 \<Longrightarrow> \<not> 25 \<le> y"
    "x \<le> 80 \<Longrightarrow> 80 \<le> x + 4 \<longleftrightarrow> \<not> x < 76" "x \<le> 80 \<Longrightarrow> 80 \<le> x - 1 \<longleftrightarrow> x = 0"
  by (simp_all add: word_le_nat_alt word_less_nat_alt word_unat_eq_iff unat_word_ariths unat_sub_word) presburger+

lemma textmode_putc_cases:
  assumes "lock_ready lk m" "cursor_ok d" "c \<noteq> 0"
  shows "textmode_putc (\<lambda>x. x) lk c (d, m) = Some
    (if c = 10 then next_row lk (d, m)
     else if c = 9 then if cx (con d) < 76 then (d\<lparr>con := (con d)\<lparr>cx := cx (con d) + 4\<rparr>\<rparr>, m) else next_row lk (d, m)
     else if c = 13 then if cx (con d) = 0 then put_at False 32 (next_row lk (d, m))
       else put_at False 32 (d\<lparr>con := (con d)\<lparr>cx := cx (con d) - 1\<rparr>\<rparr>, m)
     else put_at True c (if cx (con d) < 80 then (d, m) else next_row lk (d, m)))"
proof -
  have b: "cy (con d) \<le> 24" "cx (con d) \<le> 80" using assms(2) by (simp_all add: cursor_ok_def)
  note t = cursor_tests(1,2) [OF b(1)] cursor_tests(3,4) [OF b(2)]
  have sc: "textmode_scrollup (\<lambda>x. x) lk (d\<lparr>con := k\<rparr>) m = Some (the (textmode_scrollup (\<lambda>x. x) lk d m))"
    if "entity (d\<lparr>con := k\<rparr>) = entity d" for k
    by (simp only: textmode_scrollup_rows [OF assms(1)] that option.sel)
  note defs = textmode_putc_def TEXTMODE_WIDTH_def TEXTMODE_HEIGHT_def Let_def t sc
  consider "c = 10" | "c = 9" | "c = 13" | "c \<notin> {0, 9, 10, 13}" using assms(3) by auto
  then show ?thesis
  proof cases
    case 1
    then show ?thesis by (simp add: defs next_row_def)
  next
    case 2
    then show ?thesis by (simp add: defs next_row_def)
  next
    case 3
    then show ?thesis by (simp add: defs next_row_def put_at_def)
  next
    case 4
    moreover have "80 \<le> cx (con d) \<longleftrightarrow> \<not> cx (con d) < 80" by (simp add: linorder_not_less)
    ultimately show ?thesis by (simp add: defs next_row_def put_at_def del: linorder_not_less linorder_not_le)
  qed
qed

lemma put_at_tame:
  assumes "cursor_ok d" "cx (con d) < 80" "put_at incx c (d, m) = (d', m')"
  shows "con_tame d m d' m'"
proof -
  have "cx (con d) + 1 \<le> 80" using assms(2) by unat_arith
  then show ?thesis using assms
    by (auto simp: put_at_def con_tame_def cursor_ok_def cell_store_outside)
qed

lemma con_tame_trans: "con_tame d m d1 m1 \<Longrightarrow> con_tame d1 m1 d2 m2 \<Longrightarrow> con_tame d m d2 m2"
  by (simp add: con_tame_def)

lemma con_tame_lock: "con_tame d m d' m' \<Longrightarrow> lock_ready lk m \<Longrightarrow> lock_ready lk m'"
  by (rule lock_ready_cong) (simp_all add: con_tame_def)

lemma textmode_putc_tame:
  assumes "lock_ready lk m" "cursor_ok d"
  shows "\<exists>d' m'. textmode_putc (\<lambda>x. x) lk c (d, m) = Some (d', m') \<and> con_tame d m d' m'"
proof -
  obtain d1 m1 where n: "next_row lk (d, m) = (d1, m1)" by (cases "next_row lk (d, m)")
  note n1 = next_row_tame [OF assms n]
  have p: "con_tame d m (fst (put_at i c (d0, m0))) (snd (put_at i c (d0, m0)))"
    if "con_tame d m d0 m0" "cx (con d0) < 80" for i c d0 m0
    using con_tame_trans [OF that(1) put_at_tame [OF _ that(2)]] that(1)
    by (cases "put_at i c (d0, m0)") (simp add: con_tame_def)
  have t: "con_tame d m d m" using assms(2) by (simp add: con_tame_def)
  have "cx (con d) + 4 \<le> 80" if "cx (con d) < 76" using that by unat_arith
  then have tab: "con_tame d m (d\<lparr>con := (con d)\<lparr>cx := cx (con d) + 4\<rparr>\<rparr>) m" if "cx (con d) < 76"
    using t that by (simp add: con_tame_def cursor_ok_def)
  have "cx (con d) - 1 < 80" if "cx (con d) \<noteq> 0" using that assms(2) by (simp add: cursor_ok_def) unat_arith
  then have bsp: "con_tame d m (d\<lparr>con := (con d)\<lparr>cx := cx (con d) - 1\<rparr>\<rparr>) m" "cx (con d) - 1 < 80" if "cx (con d) \<noteq> 0"
    using t that by (simp_all add: con_tame_def cursor_ok_def less_imp_le)
  show ?thesis
  proof (cases "c = 0")
    case True
    with t show ?thesis by (simp add: textmode_putc_def)
  next
    case False
    show ?thesis
      unfolding textmode_putc_cases [OF assms False] n
      using n1 tab bsp p [OF n1] p [OF t] p [OF bsp(1)]
      by (auto simp: prod_eq_iff)
  qed
qed

lemma textmode_puts_tame:
  "lock_ready lk m \<Longrightarrow> cursor_ok d \<Longrightarrow> cstr m s cs \<Longrightarrow> \<forall>i \<le> length cs. 4480 \<le> off (s + of_nat i) \<Longrightarrow>
    \<exists>d' m'. textmode_puts (\<lambda>x. x) lk s (d, m) = Some (d', m') \<and> con_tame d m d' m'"
proof (induction cs arbitrary: s d m)
  case Nil
  then show ?case by (subst textmode_puts.simps) (simp add: con_tame_def)
next
  case (Cons c cs)
  then have c: "m s = c" "c \<noteq> 0" "cstr m (s + 1) cs" by simp_all
  obtain d1 m1 where p: "textmode_putc (\<lambda>x. x) lk c (d, m) = Some (d1, m1)" "con_tame d m d1 m1"
    using textmode_putc_tame [OF Cons.prems(1,2)] by blast
  have o: "\<forall>i \<le> length cs. 4480 \<le> off (s + 1 + of_nat i)"
  proof (intro allI impI)
    fix i assume "i \<le> length cs"
    with Cons.prems(4) have "4480 \<le> off (s + of_nat (Suc i))" by (metis Suc_le_mono length_Cons)
    then show "4480 \<le> off (s + 1 + of_nat i)" by (simp add: ac_simps)
  qed
  have "cstr m1 (s + 1) cs"
    by (rule cstr_frame [OF c(3)]) (use p(2) o in \<open>simp add: con_tame_def\<close>)
  then obtain d' m' where q: "textmode_puts (\<lambda>x. x) lk (s + 1) (d1, m1) = Some (d', m')" "con_tame d1 m1 d' m'"
    using Cons.IH [of m1 d1 "s + 1"] con_tame_lock [OF p(2) Cons.prems(1)] p(2) o
    by (auto simp: con_tame_def)
  have "textmode_puts (\<lambda>x. x) lk s (d, m) = Some (d', m')"
    using c(1,2) p(1) q(1) by (subst textmode_puts.simps) simp
  with con_tame_trans [OF p(2) q(2)] show ?case by blast
qed

text \<open>Clearing the screen, and what happens when a display is made the current one.\<close>

lemma clear_row_outside:
  "x + n \<le> 80 \<Longrightarrow> y < 28 \<Longrightarrow> 4480 \<le> off z \<Longrightarrow> clear_row n y x e m z = m z"
proof (induction n arbitrary: x m)
  case (Suc n)
  let ?a = "VGA_MEMORY + (of_nat y * 2 * TEXTMODE_WIDTH + of_nat x * 2)"
  have e: "?a = VGA_MEMORY + of_nat (160 * y + 2 * x)" by (simp add: TEXTMODE_WIDTH_def algebra_simps)
  have "\<not> in_range ?a 2 z"
    unfolding e using in_range_off [of "160 * y + 2 * x" 2 z] Suc.prems by (simp del: of_nat_add of_nat_mult)
  with Suc show ?case by (simp add: store16_other)
qed simp

lemma clear_rows_outside: "y + n \<le> 28 \<Longrightarrow> 4480 \<le> off z \<Longrightarrow> clear_rows n y e m z = m z"
  by (induction n arbitrary: y m) (simp_all add: clear_row_outside TEXTMODE_WIDTH_def)

lemma textmode_clear_tame:
  assumes "textmode_clear (d, m) = (d', m')"
  shows "con_tame d m d' m'"
  using assms by (auto simp: textmode_clear_def con_tame_def cursor_ok_def clear_rows_outside TEXTMODE_HEIGHT_def)

lemma texmode_onSet_tame:
  assumes "lock_ready lk m" "cstr m msg cs" "\<forall>i \<le> length cs. 4480 \<le> off (msg + of_nat i)"
  shows "\<exists>d' m'. texmode_onSet (\<lambda>x. x) lk msg n (d, m) = Some (d', m') \<and> con_tame d m d' m'"
proof -
  obtain d0 m0 where c: "textmode_clear (d, m) = (d0, m0)" by (cases "textmode_clear (d, m)")
  note t0 = textmode_clear_tame [OF c]
  have k0: "cursor_ok d0" using t0 by (simp add: con_tame_def)
  have "cstr m0 msg cs" by (rule cstr_frame [OF assms(2)]) (use t0 assms(3) in \<open>simp add: con_tame_def\<close>)
  then obtain d1 m1 where 1: "textmode_puts (\<lambda>x. x) lk msg (d0, m0) = Some (d1, m1)" "con_tame d0 m0 d1 m1"
    using textmode_puts_tame [OF con_tame_lock [OF t0 assms(1)] k0 _ assms(3)] by blast
  have l1: "lock_ready lk m1" and k1: "cursor_ok d1"
    using con_tame_lock [OF 1(2) con_tame_lock [OF t0 assms(1)]] 1(2) by (simp_all add: con_tame_def)
  obtain d2 m2 where 2: "textmode_putc (\<lambda>x. x) lk (n + 48) (d1, m1) = Some (d2, m2)" "con_tame d1 m1 d2 m2"
    using textmode_putc_tame [OF l1 k1] by blast
  have k2: "cursor_ok d2" using 2(2) by (simp add: con_tame_def)
  obtain d3 m3 where 3: "textmode_putc (\<lambda>x. x) lk 10 (d2, m2) = Some (d3, m3)" "con_tame d2 m2 d3 m3"
    using textmode_putc_tame [OF con_tame_lock [OF 2(2) l1] k2] by blast
  have "con_tame d m d3 m3" using t0 1(2) 2(2) 3(2) by (simp add: con_tame_def)
  then show ?thesis by (simp add: texmode_onSet_def c 1(1) 2(1) 3(1))
qed

text \<open>
  C25. With the lock of \<open>memcpy\<close> free and nobody else running, \<open>textmode_puts\<close> of any string that
  lies outside the screen returns; the cursor stays inside the 25 rows and nothing outside the 28
  rows from \<open>VGA_MEMORY\<close> on changes, however long the string and wherever it scrolls.
\<close>

theorem textmode_puts_safe:
  assumes "lock_ready lk m" "cursor_ok d" "cstr m s cs" "\<forall>i \<le> length cs. 4480 \<le> off (s + of_nat i)"
  shows "\<exists>d' m'. textmode_puts (\<lambda>x. x) lk s (d, m) = Some (d', m') \<and> cursor_ok d' \<and>
    (\<forall>x. 4480 \<le> off x \<longrightarrow> m' x = m x)"
  using textmode_puts_tame [OF assms] by (auto simp: con_tame_def)

definition text_start :: text_display where
  "text_start = fst (textmode_init \<lparr>width = 0, height = 0, con = \<lparr>bgcol = 0, fgcol = 0, cx = 0, cy = 0\<rparr>\<rparr> [])"

theorem textmode_puts_safe_witness:
  "\<exists>d' m'. textmode_puts (\<lambda>x. x) 0x200 0x100 (text_start, (\<lambda>_. 0)(0x100 := 104, 0x101 := 13)) = Some (d', m') \<and>
    cursor_ok d' \<and> m' 0x100 = 104"
proof -
  have "\<forall>i \<le> length [104, 13 :: uint8]. 4480 \<le> off (0x100 + of_nat i)"
  proof (intro allI impI)
    fix i assume "i \<le> length [104, 13 :: uint8]"
    then have "i = 0 \<or> i = 1 \<or> i = 2" by auto
    then show "4480 \<le> off (0x100 + of_nat i)" by (auto simp: off_def VGA_MEMORY_def)
  qed
  then obtain d' m' where "textmode_puts (\<lambda>x. x) 0x200 0x100 (text_start, (\<lambda>_. 0)(0x100 := 104, 0x101 := 13)) = Some (d', m')"
    "cursor_ok d'" "\<forall>x. 4480 \<le> off x \<longrightarrow> m' x = ((\<lambda>_. 0)(0x100 := 104, 0x101 := 13)) x"
    using textmode_puts_safe [where lk = "0x200" and m = "(\<lambda>_. 0)(0x100 := 104, 0x101 := 13)" and d = text_start
        and s = "0x100" and cs = "[104, 13]"]
    by (auto simp: lock_ready_def mutex_pad_clear_def off_def VGA_MEMORY_def cursor_ok_def text_start_def textmode_init_def)
  moreover have "4480 \<le> off 0x100" by (simp add: off_def VGA_MEMORY_def)
  ultimately show ?thesis by fastforce
qed

text \<open>
  A line feed in the last row scrolls: the cursor goes to the start of row 24, every row takes
  the contents of the row below it, and the rows 26 and 27, behind the screen, become blank. The
  blank fill is twice as long as a row, since \<open>memset16\<close> counts words.
\<close>

theorem textmode_line_feed_scrolls:
  assumes "lock_ready lk m" "cursor_ok d" "cy (con d) = 24"
  shows "\<exists>m'. textmode_putc (\<lambda>x. x) lk 10 (d, m) = Some (d\<lparr>con := (con d)\<lparr>cx := 0\<rparr>\<rparr>, m') \<and>
    (\<forall>x. off x < 4160 \<longrightarrow> m' x = m (x + 160)) \<and>
    (\<forall>x. 4160 \<le> off x \<and> off x < 4480 \<longrightarrow> m' x = half (textmode_create_entry 32 (entity d)) (off x)) \<and>
    (\<forall>x. 4480 \<le> off x \<longrightarrow> m' x = m x)"
  using assms by (simp add: textmode_putc_cases next_row_def textmode_scrollup_rows)

theorem textmode_line_feed_scrolls_witness:
  "\<exists>m'. textmode_putc (\<lambda>x. x) 0x200 10 (text_start\<lparr>con := \<lparr>bgcol = 0, fgcol = 15, cx = 3, cy = 24\<rparr>\<rparr>, (\<lambda>_. 0)(0xB80A0 := 65))
     = Some (text_start\<lparr>con := \<lparr>bgcol = 0, fgcol = 15, cx = 0, cy = 24\<rparr>\<rparr>, m') \<and> m' 0xB8000 = 65"
proof -
  obtain m' where
    "textmode_putc (\<lambda>x. x) 0x200 10 (text_start\<lparr>con := \<lparr>bgcol = 0, fgcol = 15, cx = 3, cy = 24\<rparr>\<rparr>, (\<lambda>_. 0)(0xB80A0 := 65))
     = Some (text_start\<lparr>con := \<lparr>bgcol = 0, fgcol = 15, cx = 0, cy = 24\<rparr>\<rparr>, m')"
    "\<forall>x. off x < 4160 \<longrightarrow> m' x = ((\<lambda>_. 0)(0xB80A0 := 65)) (x + 160)"
    using textmode_line_feed_scrolls [where lk = "0x200" and m = "(\<lambda>_. 0)(0xB80A0 := 65)" and d = "text_start\<lparr>con := \<lparr>bgcol = 0, fgcol = 15, cx = 3, cy = 24\<rparr>\<rparr>"]
    by (auto simp: lock_ready_def mutex_pad_clear_def off_def VGA_MEMORY_def cursor_ok_def)
  moreover from this(2) have "m' 0xB8000 = 65" by (auto simp: off_def VGA_MEMORY_def)
  ultimately show ?thesis by blast
qed

text \<open>
  A backspace in the first column moves the cursor forward: the column wraps below 0, so the
  cursor goes to the next row, whose first cell is blanked.
\<close>

theorem backspace_in_first_column:
  assumes "lock_ready lk m" "cx (con d) = 0" "cy (con d) < 24"
  shows "textmode_putc (\<lambda>x. x) lk 13 (d, m) =
    Some (d\<lparr>con := (con d)\<lparr>cx := 0, cy := cy (con d) + 1\<rparr>\<rparr>,
      store16 m (VGA_MEMORY + (cy (con d) + 1) * 2 * TEXTMODE_WIDTH) (textmode_create_entry 32 (entity d)))"
proof -
  have "cursor_ok d" using assms(2,3) by (simp add: cursor_ok_def less_imp_le)
  from textmode_putc_cases [OF assms(1) this, of 13] assms(2,3) show ?thesis
    by (auto simp: next_row_def put_at_def)
qed

theorem backspace_in_first_column_witness:
  "textmode_putc (\<lambda>x. x) 0x200 13 (text_start, \<lambda>_. 0) =
    Some (text_start\<lparr>con := (con text_start)\<lparr>cy := 1\<rparr>\<rparr>, store16 (\<lambda>_. 0) 0xB80A0 0x0F20)"
  using backspace_in_first_column [where lk = "0x200" and m = "\<lambda>_. 0" and d = text_start]
  by (simp add: lock_ready_def mutex_pad_clear_def off_def text_constants text_start_def textmode_init_def
      entity_def textmode_make_color_def textmode_create_entry_def COLOR_WHITE_def COLOR_BLACK_def)

end
