(* ===== verification/Display.thy ===== *)
theory Display
  imports Textmode Convert
begin

text \<open>
  Kernel output, \<open>src/display/display.c\<close>: \<open>kprintf\<close> and the table of displays. A display is a
  record of functions on a state \<open>'d\<close> of its own and the memory; the null pointer is \<open>None\<close>.
  Format strings are constants, given as their bytes with the terminating 0; the variable
  arguments are the list of their words. \<open>m_display\<close> is the address of the lock, \<open>stk\<close> the
  address of the buffer \<open>str\<close> on the stack. \<open>None\<close> is a call that never returns, or that uses
  a pointer or an argument that is not there.
\<close>

section \<open>The code\<close>

type_synonym 'd con_state = "'d \<times> mem"

record 'd DISPLAY =
  onRegister :: "'d con_state \<Rightarrow> 'd con_state option"
  onSet :: "uint8 \<Rightarrow> 'd con_state \<Rightarrow> 'd con_state option"
  puts :: "addr \<Rightarrow> 'd con_state \<Rightarrow> 'd con_state option"
  putc :: "uint8 \<Rightarrow> 'd con_state \<Rightarrow> 'd con_state option"
  clear :: "'d con_state \<Rightarrow> 'd con_state option"

definition DISPLAY_MAX_DISPIS :: nat where "DISPLAY_MAX_DISPIS = 8"

definition fmt_length :: "uint8 list \<Rightarrow> nat" where
  "fmt_length fmt = length (takeWhile (\<lambda>c. c \<noteq> 0) fmt)"

text \<open>The cases of the directives that print a number into the buffer: base, size and signedness.\<close>

definition number_directive :: "uint8 \<Rightarrow> mem \<Rightarrow> uint32 \<Rightarrow> addr \<Rightarrow> mem option" where
  "number_directive t m c str =
     (if t = 100 then itoa (memset m str 0 16) c str 10
      else if t = 120 then uitoa (memset m str 0 32) c str 16
      else itoa (memset m str 0 32) c str 2)"

definition put_string :: "'d DISPLAY \<Rightarrow> addr \<Rightarrow> 'd con_state \<Rightarrow> ('d con_state \<times> uint32) option" where
  "put_string cd s st = do { st' \<leftarrow> puts cd s st; l \<leftarrow> strlen (snd st') s; Some (st', l) }"

partial_function (option) kprint_loop ::
  "'d DISPLAY \<Rightarrow> addr \<Rightarrow> uint8 list \<Rightarrow> uint16 \<Rightarrow> uint32 list \<Rightarrow> uint32 \<Rightarrow> 'd con_state \<Rightarrow>
    (uint32 \<times> 'd con_state) option" where
  "kprint_loop cd stk fmt i ap len st =
     (if \<not> unat i < fmt_length fmt then Some (len, st)
      else if fmt ! unat i \<noteq> 37
        then do { st' \<leftarrow> putc cd (fmt ! unat i) st; kprint_loop cd stk fmt (i + 1) ap (len + 1) st' }
      else let i' = i + 1; t = fmt ! unat i'
        in if t = 115 then (case ap of [] \<Rightarrow> None | s # ap' \<Rightarrow> do {
               (st', l) \<leftarrow> put_string cd s st;
               kprint_loop cd stk fmt (i' + 1) ap' (len + l) st' })
           else if t = 100 \<or> t = 120 \<or> t = 98 then (case ap of [] \<Rightarrow> None | c # ap' \<Rightarrow> do {
               m' \<leftarrow> number_directive t (snd st) c stk;
               (st', l) \<leftarrow> put_string cd stk (fst st, m');
               kprint_loop cd stk fmt (i' + 1) ap' (len + l) st' })
           else if t = 99 then (case ap of [] \<Rightarrow> None | c # ap' \<Rightarrow> do {
               st' \<leftarrow> putc cd (ucast (c AND NOT 0xffffff00)) st;
               kprint_loop cd stk fmt (i' + 1) ap' (len + 1) st' })
           else kprint_loop cd stk fmt (i' - 1 + 1) ap len st)"

definition kprint_va_list ::
  "(mem \<Rightarrow> mem) \<Rightarrow> addr \<Rightarrow> addr \<Rightarrow> 'd DISPLAY option \<Rightarrow> uint8 list \<Rightarrow> uint32 list \<Rightarrow> 'd con_state \<Rightarrow>
    (uint32 \<times> 'd con_state) option" where
  "kprint_va_list sched m_display stk cd fmt ap st = do {
     m1 \<leftarrow> mutex_lock sched m_display (snd st);
     d \<leftarrow> cd;
     (len, st2) \<leftarrow> kprint_loop d stk fmt 0 ap 0 (fst st, m1);
     Some (len, fst st2, mutex_unlock sched m_display (snd st2))
   }"

text \<open>A null format prints nothing.\<close>

definition kprintf ::
  "(mem \<Rightarrow> mem) \<Rightarrow> addr \<Rightarrow> addr \<Rightarrow> 'd DISPLAY option \<Rightarrow> uint8 list option \<Rightarrow> uint32 list \<Rightarrow> 'd con_state \<Rightarrow>
    (uint32 \<times> 'd con_state) option" where
  "kprintf sched m_display stk cd fmt ap st =
     (case fmt of None \<Rightarrow> Some (0, st) | Some f \<Rightarrow> kprint_va_list sched m_display stk cd f ap st)"

definition mprintf ::
  "(mem \<Rightarrow> mem) \<Rightarrow> addr \<Rightarrow> addr \<Rightarrow> 'd DISPLAY option \<Rightarrow> addr \<Rightarrow> uint8 list \<Rightarrow> uint32 list \<Rightarrow> 'd con_state \<Rightarrow>
    'd con_state option" where
  "mprintf sched m_display stk cd m fmt ap st = do {
     (l, st1) \<leftarrow> kprintf sched m_display stk cd (Some [91, 37, 115, 93, 58, 32, 0]) [m] st;
     (l', st2) \<leftarrow> kprint_va_list sched m_display stk cd fmt ap st1;
     Some st2
   }"

text \<open>The displays that are registered. Using an entry that is not there has no result.\<close>

record 'd displays =
  dispis :: "'d DISPLAY list"
  last_register :: uint8
  current :: uint8
  cd :: "'d DISPLAY option"

definition displays_start :: "'d displays" where
  "displays_start = \<lparr>dispis = [], last_register = 1, current = 0, cd = None\<rparr>"

definition dispi :: "'d displays \<Rightarrow> uint8 \<Rightarrow> 'd DISPLAY option" where
  "dispi ds i = (if 1 \<le> unat i \<and> unat i \<le> length (dispis ds) then Some (dispis ds ! (unat i - 1)) else None)"

definition display_register ::
  "'d DISPLAY \<Rightarrow> 'd displays \<Rightarrow> 'd con_state \<Rightarrow> (uint8 \<times> 'd displays \<times> 'd con_state) option" where
  "display_register d ds st =
     (if unat (last_register ds) < DISPLAY_MAX_DISPIS
      then do { st' \<leftarrow> onRegister d st;
                Some (last_register ds,
                  ds\<lparr>dispis := dispis ds @ [d], last_register := last_register ds + 1\<rparr>, st') }
      else None)"

definition display_set_current ::
  "uint8 \<Rightarrow> 'd displays \<Rightarrow> 'd con_state \<Rightarrow> (uint8 \<times> 'd displays \<times> 'd con_state) option" where
  "display_set_current i ds st =
     (if current ds = i then Some (0, ds, st)
      else do { d \<leftarrow> dispi ds i;
                st' \<leftarrow> onSet d i st;
                Some (1, ds\<lparr>current := i, cd := Some d\<rparr>, st') })"

definition display_get_current :: "'d displays \<Rightarrow> 'd DISPLAY option" where
  "display_get_current ds = cd ds"

definition display_clear :: "'d displays \<Rightarrow> 'd con_state \<Rightarrow> 'd con_state option" where
  "display_clear ds st = do { d \<leftarrow> cd ds; clear d st }"

text \<open>The driver of the text mode as \<open>textmode_init\<close> fills its record of functions.\<close>

definition textmode_display :: "(mem \<Rightarrow> mem) \<Rightarrow> addr \<Rightarrow> addr \<Rightarrow> text_display DISPLAY" where
  "textmode_display sched m_memcpy msg =
     \<lparr>onRegister = (\<lambda>st. Some (texmode_onRegister st)),
      onSet = texmode_onSet sched m_memcpy msg,
      puts = textmode_puts sched m_memcpy,
      putc = textmode_putc sched m_memcpy,
      clear = (\<lambda>st. Some (textmode_clear st))\<rparr>"

section \<open>The items of a format\<close>

text \<open>A \<open>%\<close> before any other character is skipped, and that character starts anew.\<close>

datatype kitem = Char uint8 | Conv uint8

fun kitems :: "uint8 list \<Rightarrow> kitem list" where
  "kitems [] = []"
| "kitems (c # fmt) =
     (if c \<noteq> 37 then Char c # kitems fmt
      else case fmt of [] \<Rightarrow> []
        | t # fmt' \<Rightarrow> if t \<in> {115, 100, 120, 98, 99} then Conv t # kitems fmt' else kitems fmt)"

fun print_items :: "'d DISPLAY \<Rightarrow> addr \<Rightarrow> kitem list \<Rightarrow> uint32 list \<Rightarrow> uint32 \<Rightarrow> 'd con_state \<Rightarrow>
    (uint32 \<times> 'd con_state) option" where
  "print_items dp stk [] ap len st = Some (len, st)"
| "print_items dp stk (Char c # its) ap len st = do {
     st' \<leftarrow> putc dp c st; print_items dp stk its ap (len + 1) st' }"
| "print_items dp stk (Conv t # its) ap len st =
     (case ap of [] \<Rightarrow> None | a # ap' \<Rightarrow>
        if t = 99 then do { st' \<leftarrow> putc dp (ucast (a AND NOT 0xffffff00)) st; print_items dp stk its ap' (len + 1) st' }
        else if t = 115 then do { (st', l) \<leftarrow> put_string dp a st; print_items dp stk its ap' (len + l) st' }
        else do { m' \<leftarrow> number_directive t (snd st) a stk;
                  (st', l) \<leftarrow> put_string dp stk (fst st, m'); print_items dp stk its ap' (len + l) st' })"

lemma fmt_length_body: "0 \<notin> set body \<Longrightarrow> fmt_length (body @ 0 # r) = length body"
proof -
  assume "0 \<notin> set body"
  then have "takeWhile (\<lambda>c. c \<noteq> 0) (body @ 0 # r) = body" by (subst takeWhile_append2) auto
  then show ?thesis by (simp add: fmt_length_def)
qed

lemma drop_eq_ConsD: "drop n xs = y # ys \<Longrightarrow> n < length xs \<and> xs ! n = y \<and> drop (Suc n) xs = ys"
  by (metis Cons_nth_drop_Suc drop_eq_Nil linorder_not_less list.discI list.inject)

lemma kprint_loop_items:
  assumes body: "0 \<notin> set body" "length body < 65535"
  shows "unat i = length body - length ds \<Longrightarrow> drop (unat i) body = ds \<Longrightarrow> length ds \<le> length body \<Longrightarrow>
    kprint_loop dp stk (body @ [0]) i ap len st = print_items dp stk (kitems ds) ap len st"
proof (induction "length ds" arbitrary: ds i ap len st rule: less_induct)
  case less
  note l = fmt_length_body [OF body(1), of "[]"]
  show ?case
  proof (cases ds)
    case Nil
    with less.prems have "length body \<le> unat i" by simp
    with Nil show ?thesis by (subst kprint_loop.simps) (simp add: l)
  next
    case (Cons c fmt)
    with less.prems have i: "unat i < length body" "body ! unat i = c" "drop (Suc (unat i)) body = fmt"
      using drop_eq_ConsD [of "unat i" body c fmt] by simp_all
    have s: "unat (i + 1) = Suc (unat i)" using i(1) body(2) by (simp add: unat_word_ariths)
    have next1: "kprint_loop dp stk (body @ [0]) (i + 1) ap' len' = print_items dp stk (kitems fmt) ap' len'"
      for ap' len'
      by (rule ext, rule less.hyps) (use less.prems i s Cons in auto)
    show ?thesis
    proof (cases "c = 37")
      case False
      with Cons i next1 show ?thesis by (subst kprint_loop.simps) (simp add: l nth_append)
    next
      case True
      show ?thesis
      proof (cases fmt)
        case Nil
        with i have "length body = Suc (unat i)" by simp
        then have "(body @ [0]) ! unat (i + 1) = 0" by (simp add: s nth_append)
        with True Cons Nil i next1 show ?thesis by (subst kprint_loop.simps) (simp add: l nth_append Let_def)
      next
        case (Cons t fmt')
        with i have t: "Suc (unat i) < length body" "body ! Suc (unat i) = t" "drop (Suc (Suc (unat i))) body = fmt'"
          using drop_eq_ConsD [of "Suc (unat i)" body t fmt'] by simp_all
        have s2: "unat (i + 1 + 1) = Suc (Suc (unat i))" using s t(1) body(2) by (simp add: unat_word_ariths)
        have next2: "kprint_loop dp stk (body @ [0]) (i + 1 + 1) ap' len' = print_items dp stk (kitems fmt') ap' len'"
          for ap' len'
          by (rule ext, rule less.hyps) (use less.prems t s2 Cons \<open>ds = c # fmt\<close> in auto)
        have "(body @ [0]) ! unat (i + 1) = t" using t by (simp add: s nth_append)
        note u = kprint_loop.simps [of dp stk "body @ [0]" i ap len st]
        have d: "(body @ [0]) ! unat i = 37" "unat i < fmt_length (body @ [0])"
          using True i by (simp_all add: nth_append l)
        consider "t = 115" | "t = 99" | "t \<in> {100, 120, 98}" | "t \<notin> {115, 100, 120, 98, 99}" by auto
        then show ?thesis
        proof cases
          case 4
          then show ?thesis
            unfolding \<open>ds = c # fmt\<close> True u using d next1 Cons \<open>(body @ [0]) ! unat (i + 1) = t\<close>
            by (simp add: Let_def)
        next
          case 1
          then show ?thesis
            unfolding \<open>ds = c # fmt\<close> True u Cons using d next2 \<open>(body @ [0]) ! unat (i + 1) = t\<close>
            by (cases ap) (auto simp: Let_def simp del: One_nat_def)
        next
          case 2
          then show ?thesis
            unfolding \<open>ds = c # fmt\<close> True u Cons using d next2 \<open>(body @ [0]) ! unat (i + 1) = t\<close>
            by (cases ap) (auto simp: Let_def simp del: One_nat_def)
        next
          case 3
          then show ?thesis
            unfolding \<open>ds = c # fmt\<close> True u Cons using d next2 \<open>(body @ [0]) ! unat (i + 1) = t\<close>
            by (cases ap) (auto simp: Let_def simp del: One_nat_def)
        qed
      qed
    qed
  qed
qed

section \<open>The buffer on the stack\<close>

lemma in_buffer: "\<not> in_range p 34 x \<Longrightarrow> k \<le> 33 \<Longrightarrow> x \<noteq> p + of_nat k"
  by (auto simp: in_range_def word_less_nat_alt unat_of_nat_small)

lemma itoa_least:
  assumes "base = 10 \<or> base = 2"
  shows "\<exists>m' cs. itoa m (- 2147483648) str base = Some m' \<and> cstr m' str cs \<and> length cs \<le> 33 \<and>
    (\<forall>x. (\<forall>k \<le> 33. x \<noteq> str + of_nat k) \<longrightarrow> m' x = m x)"
proof -
  have "literal_byte itoa_table 27 = Some 56" "literal_byte itoa_table 35 = Some 48" by code_simp+
  then obtain c where c: "itoa_loop m (- 2147483648) str (sint base) 0 = Some (write_bytes m str [c], 1)" "c \<noteq> 0"
  proof -
    assume t: "literal_byte itoa_table 27 = Some 56" "literal_byte itoa_table 35 = Some 48"
    have "itoa_loop m (- 2147483648) str 10 0 = Some (write_bytes m str [56], 1)"
      "itoa_loop m (- 2147483648) str 2 0 = Some (write_bytes m str [48], 1)"
      using t by (subst itoa_loop.simps, simp add: c_mod_def c_div_def Let_def)+
    with that assms show thesis by fastforce
  qed
  have "sint (- 2147483648 :: uint32) = - 2147483648" "- (- 2147483648 :: uint32) = - 2147483648" by simp_all
  with c(1) have e: "itoa m (- 2147483648) str base = strReverse (m(str := c, str + 1 := 45, str + 2 := 0)) str"
    by (simp add: itoa_def)
  obtain m' where "strReverse (m(str := c, str + 1 := 45, str + 2 := 0)) str = Some m'" "cstr m' str [45, c]"
    "\<forall>x. (\<forall>k \<le> 2. x \<noteq> str + of_nat k) \<longrightarrow> m' x = m x"
    using write_then_reverse [of "[c, 45]" m str] c(2) by (auto simp del: cstr.simps)
  with e show ?thesis by (intro exI [of _ m'] exI [of _ "[45, c]"]) (auto simp del: cstr.simps)
qed

lemma number_directive_ok:
  assumes "t \<in> {100, 120, 98}"
  shows "\<exists>m' cs. number_directive t m a p = Some m' \<and> cstr m' p cs \<and> length cs \<le> 33 \<and>
    (\<forall>x. \<not> in_range p 34 x \<longrightarrow> m' x = m x)"
proof -
  have s: "memset m p 0 k x = m x" if "\<not> in_range p 34 x" "k = 16 \<or> k = 32" for k x
    using that by (auto simp: memset_apply in_range_def word_less_nat_alt)
  have i: "\<exists>m' cs. itoa m0 a p base = Some m' \<and> cstr m' p cs \<and> length cs \<le> 33 \<and>
      (\<forall>x. (\<forall>k \<le> 33. x \<noteq> p + of_nat k) \<longrightarrow> m' x = m0 x)" if "base = 10 \<or> base = 2" for base m0
  proof (cases "sint a = - 2147483648")
    case True
    then have "a = - 2147483648" by (intro signed_word_eqI) simp
    with itoa_least [OF that] show ?thesis by simp
  next
    case False
    have b: "2 \<le> sint base" "sint base \<le> 36" "2 \<le> nat (sint base)" using that by auto
    have "nat \<bar>sint a\<bar> < 2 ^ 32" using sint32_bounds [of a] by auto
    moreover have "(2 :: nat) ^ 32 \<le> nat (sint base) ^ 32" using b by (intro power_mono) auto
    ultimately have "length (lsd (nat (sint base)) (nat \<bar>sint a\<bar>)) \<le> 32" using b by (intro length_lsd) auto
    with itoa_text [OF b(1,2) False, of m0 p] show ?thesis
      by (force simp: digits_text_def simp del: cstr.simps)
  qed
  have u: "\<exists>m' cs. uitoa m0 a p 16 = Some m' \<and> cstr m' p cs \<and> length cs \<le> 33 \<and>
      (\<forall>x. (\<forall>k \<le> 33. x \<noteq> p + of_nat k) \<longrightarrow> m' x = m0 x)" for m0
    using uitoa_text [of 16 m0 a p] lsd_length32 [of 16 a] by (fastforce simp: digits_text_def simp del: cstr.simps)
  have "\<exists>m0 m' cs. number_directive t m a p = Some m' \<and> (m0 = memset m p 0 16 \<or> m0 = memset m p 0 32) \<and>
      cstr m' p cs \<and> length cs \<le> 33 \<and> (\<forall>x. (\<forall>k \<le> 33. x \<noteq> p + of_nat k) \<longrightarrow> m' x = m0 x)"
    using assms i [of 10 "memset m p 0 16"] i [of 2 "memset m p 0 32"] u [of "memset m p 0 32"]
    by (auto simp: number_directive_def simp del: cstr.simps)
  then obtain m0 m' cs where "number_directive t m a p = Some m'" "m0 = memset m p 0 16 \<or> m0 = memset m p 0 32"
      "cstr m' p cs" "length cs \<le> 33" "\<forall>x. (\<forall>k \<le> 33. x \<noteq> p + of_nat k) \<longrightarrow> m' x = m0 x" by blast
  with s in_buffer show ?thesis by (metis (full_types))
qed

lemma number_directive_total:
  "\<exists>m' cs. number_directive t m a p = Some m' \<and> cstr m' p cs \<and> length cs \<le> 33 \<and>
    (\<forall>x. \<not> in_range p 34 x \<longrightarrow> m' x = m x)"
  using number_directive_ok [of t m a p] number_directive_ok [of 98 m a p]
  by (cases "t = 100 \<or> t = 120") (auto simp: number_directive_def simp del: cstr.simps)

section \<open>Printing on a console\<close>

text \<open>
  \<open>args_ok m Q its ap\<close>: there are enough arguments, and each one that \<open>%s\<close> takes is a string in
  memory that \<open>Q\<close> holds of.
\<close>

fun args_ok :: "mem \<Rightarrow> (addr \<Rightarrow> bool) \<Rightarrow> kitem list \<Rightarrow> uint32 list \<Rightarrow> bool" where
  "args_ok m Q [] ap = True"
| "args_ok m Q (Char c # its) ap = args_ok m Q its ap"
| "args_ok m Q (Conv t # its) ap = (case ap of [] \<Rightarrow> False | a # ap' \<Rightarrow>
     (t = 115 \<longrightarrow> (\<exists>cs. cstr m a cs \<and> (\<forall>i \<le> length cs. Q (a + of_nat i)))) \<and> args_ok m Q its ap')"

lemma args_ok_cong:
  "args_ok m Q its ap \<Longrightarrow> (\<And>x. Q x \<Longrightarrow> m' x = m x) \<Longrightarrow> args_ok m' Q its ap"
proof (induction m Q its ap rule: args_ok.induct)
  case (3 m Q t its ap)
  obtain a ap' where ap: "ap = a # ap'" using 3(2) by (cases ap) auto
  have "cstr m' a cs" if "cstr m a cs" "\<forall>i \<le> length cs. Q (a + of_nat i)" for cs
    by (rule cstr_frame [OF that(1)]) (use that(2) 3(3) in auto)
  with 3 ap show ?case by auto
qed auto

text \<open>
  What printing needs of a display: from a good state every character and every string in memory
  that the display leaves alone (\<open>safe\<close>) is put, the state stays good, and the safe memory stays.
\<close>

locale console =
  fixes dp :: "'d DISPLAY" and good :: "'d \<Rightarrow> mem \<Rightarrow> bool" and safe :: "addr \<Rightarrow> bool"
  assumes putc_ok: "good d m \<Longrightarrow>
      \<exists>d' m'. putc dp c (d, m) = Some (d', m') \<and> good d' m' \<and> (\<forall>x. safe x \<longrightarrow> m' x = m x)"
    and puts_ok: "good d m \<Longrightarrow> cstr m s cs \<Longrightarrow> \<forall>i \<le> length cs. safe (s + of_nat i) \<Longrightarrow>
      \<exists>d' m'. puts dp s (d, m) = Some (d', m') \<and> good d' m' \<and> (\<forall>x. safe x \<longrightarrow> m' x = m x)"
    and good_cong: "good d m \<Longrightarrow> (\<And>x. \<not> safe x \<Longrightarrow> m' x = m x) \<Longrightarrow> good d m'"
begin

lemma put_string_ok:
  assumes "good d m" "cstr m s cs" "\<forall>i \<le> length cs. safe (s + of_nat i)"
  shows "\<exists>d' m' l. put_string dp s (d, m) = Some ((d', m'), l) \<and> good d' m' \<and> (\<forall>x. safe x \<longrightarrow> m' x = m x)"
proof -
  obtain d' m' where p: "puts dp s (d, m) = Some (d', m')" "good d' m'" "\<forall>x. safe x \<longrightarrow> m' x = m x"
    using puts_ok [OF assms] by blast
  have "cstr m' s cs" by (rule cstr_frame [OF assms(2)]) (use p(3) assms(3) in auto)
  from strlen_cstr [OF this] p show ?thesis by (simp add: put_string_def)
qed

lemma print_items_ok:
  assumes buf: "\<And>x. in_range stk 34 x \<Longrightarrow> safe x" and Q: "\<And>x. Q x \<Longrightarrow> safe x \<and> \<not> in_range stk 34 x"
  shows "good d m \<Longrightarrow> args_ok m Q its ap \<Longrightarrow> \<exists>len' d' m'. print_items dp stk its ap len (d, m) = Some (len', d', m')
    \<and> good d' m' \<and> (\<forall>x. safe x \<and> \<not> in_range stk 34 x \<longrightarrow> m' x = m x)"
proof (induction its arbitrary: ap len d m)
  case (Cons it its)
  have continue: ?case
    if "args_ok m Q its ap'" "good d1 m1" "\<forall>x. safe x \<and> \<not> in_range stk 34 x \<longrightarrow> m1 x = m x"
      "\<And>r. print_items dp stk its ap' len1 (d1, m1) = Some r \<Longrightarrow> print_items dp stk (it # its) ap len (d, m) = Some r"
    for ap' len1 d1 m1
  proof -
    have "args_ok m1 Q its ap'" using that(3) Q by (intro args_ok_cong [OF that(1)]) blast
    from Cons.IH [OF that(2) this, of len1] that(3,4) show ?thesis by fastforce
  qed
  show ?case
  proof (cases it)
    case (Char c)
    obtain d1 m1 where "putc dp c (d, m) = Some (d1, m1)" "good d1 m1" "\<forall>x. safe x \<longrightarrow> m1 x = m x"
      using putc_ok [OF Cons.prems(1)] by blast
    with Char Cons.prems show ?thesis by (intro continue [of ap d1 m1 "len + 1"]) auto
  next
    case (Conv t)
    then obtain a ap' where ap: "ap = a # ap'" "args_ok m Q its ap'"
        "t = 115 \<Longrightarrow> \<exists>cs. cstr m a cs \<and> (\<forall>i \<le> length cs. Q (a + of_nat i))"
      using Cons.prems(2) by (auto split: list.splits)
    consider "t = 99" | "t = 115" | "t \<noteq> 99" "t \<noteq> 115" by blast
    then show ?thesis
    proof cases
      case 1
      obtain d1 m1 where "putc dp (ucast (a AND NOT 0xffffff00)) (d, m) = Some (d1, m1)" "good d1 m1" "\<forall>x. safe x \<longrightarrow> m1 x = m x"
        using putc_ok [OF Cons.prems(1)] by blast
      with 1 Conv ap show ?thesis by (intro continue [of ap' d1 m1 "len + 1"]) auto
    next
      case 2
      from ap(3) [OF this] obtain cs where cs: "cstr m a cs" "\<forall>i \<le> length cs. safe (a + of_nat i)" using Q by blast
      obtain d1 m1 l where "put_string dp a (d, m) = Some ((d1, m1), l)" "good d1 m1" "\<forall>x. safe x \<longrightarrow> m1 x = m x"
        using put_string_ok [OF Cons.prems(1) cs] by blast
      with 2 Conv ap show ?thesis by (intro continue [of ap' d1 m1 "len + l"]) auto
    next
      case 3
      obtain m0 cs where m0: "number_directive t m a stk = Some m0" "cstr m0 stk cs" "length cs \<le> 33"
          "\<forall>x. \<not> in_range stk 34 x \<longrightarrow> m0 x = m x"
        using number_directive_total [of t m a stk] by blast
      have g: "good d m0" by (rule good_cong [OF Cons.prems(1)]) (use m0(4) buf in blast)
      have "safe (stk + of_nat i)" if "i \<le> length cs" for i
        using buf that m0(3) by (simp add: in_range_def word_less_nat_alt unat_of_nat_small)
      with put_string_ok [OF g m0(2)] obtain d1 m1 l where
        "put_string dp stk (d, m0) = Some ((d1, m1), l)" "good d1 m1" "\<forall>x. safe x \<longrightarrow> m1 x = m0 x"
        by blast
      with 3 Conv ap m0 show ?thesis by (intro continue [of ap' d1 m1 "len + l"]) auto
    qed
  qed
qed simp

end

section \<open>The console of the text mode\<close>

interpretation text_console: console "textmode_display (\<lambda>x. x) lk msg" "\<lambda>d m. cursor_ok d \<and> lock_ready lk m"
  "\<lambda>x. 4480 \<le> off x \<and> \<not> in_range lk 4 x" for lk msg
proof
  fix d m c assume g: "cursor_ok d \<and> lock_ready lk m"
  then show "\<exists>d' m'. putc (textmode_display (\<lambda>x. x) lk msg) c (d, m) = Some (d', m') \<and>
      (cursor_ok d' \<and> lock_ready lk m') \<and> (\<forall>x. 4480 \<le> off x \<and> \<not> in_range lk 4 x \<longrightarrow> m' x = m x)"
    using textmode_putc_tame [of lk m d c] con_tame_lock [of d m _ _ lk] by (fastforce simp: textmode_display_def con_tame_def)
  fix s cs assume "cstr m s cs" "\<forall>i \<le> length cs. 4480 \<le> off (s + of_nat i) \<and> \<not> in_range lk 4 (s + of_nat i)"
  with g show "\<exists>d' m'. puts (textmode_display (\<lambda>x. x) lk msg) s (d, m) = Some (d', m') \<and>
      (cursor_ok d' \<and> lock_ready lk m') \<and> (\<forall>x. 4480 \<le> off x \<and> \<not> in_range lk 4 x \<longrightarrow> m' x = m x)"
    using textmode_puts_tame [of lk m d s cs] con_tame_lock [of d m _ _ lk] by (fastforce simp: textmode_display_def con_tame_def)
next
  fix d m m'
  assume g: "cursor_ok d \<and> lock_ready lk m" and e: "\<And>x. \<not> (4480 \<le> off x \<and> \<not> in_range lk 4 x) \<Longrightarrow> m' x = m x"
  have "in_range lk 4 lk" "in_range lk 4 (lk + 1)" "in_range lk 4 (lk + 2)" "in_range lk 4 (lk + 3)"
    by (simp_all add: in_range_def)
  with g e show "cursor_ok d \<and> lock_ready lk m'" by (simp add: lock_ready_def mutex_pad_clear_def)
qed

text \<open>\<open>kprintf\<close> on this console.\<close>

lemma kprintf_result:
  assumes "cursor_ok d" "lock_ready lk m" "m md = 0" "mutex_pad_clear md m"
    and "0 \<notin> set body" "length body < 65535"
    and place: "\<forall>x. in_range stk 34 x \<or> in_range md 4 x \<longrightarrow> 4480 \<le> off x \<and> \<not> in_range lk 4 x"
      "\<forall>x. in_range stk 34 x \<longrightarrow> \<not> in_range md 4 x"
    and args: "args_ok m (\<lambda>x. 4480 \<le> off x \<and> \<not> (in_range stk 34 x \<or> in_range lk 4 x \<or> in_range md 4 x)) (kitems body) ap"
  shows "\<exists>len d' m'. kprintf (\<lambda>x. x) md stk (Some (textmode_display (\<lambda>x. x) lk msg)) (Some (body @ [0])) ap (d, m)
      = Some (len, d', m') \<and> cursor_ok d' \<and> lock_ready lk m' \<and> m' md = 0 \<and>
    (\<forall>x. 4480 \<le> off x \<and> \<not> in_range stk 34 x \<and> \<not> in_range lk 4 x \<longrightarrow> m' x = m x)"
proof -
  let ?Q = "\<lambda>x. 4480 \<le> off x \<and> \<not> (in_range stk 34 x \<or> in_range lk 4 x \<or> in_range md 4 x)"
  have self: "in_range md 4 md" by (simp add: in_range_def)
  have md: "4480 \<le> off md" "\<not> in_range lk 4 md" "\<not> in_range stk 34 md" using place self by blast+
  have l: "mutex_lock (\<lambda>x. x) md m = Some (m(md := 1))" using mutex_lock_free [OF assms(3,4)] by simp
  have g: "cursor_ok d \<and> lock_ready lk (m(md := 1))"
    by (rule text_console.good_cong [of d lk m]) (use assms(1,2) md in auto)
  have a: "args_ok (m(md := 1)) ?Q (kitems body) ap" by (rule args_ok_cong [OF args]) (use self in auto)
  have "\<exists>len' d' m'. print_items (textmode_display (\<lambda>x. x) lk msg) stk (kitems body) ap 0 (d, m(md := 1)) = Some (len', d', m')
    \<and> (cursor_ok d' \<and> lock_ready lk m') \<and>
      (\<forall>x. (4480 \<le> off x \<and> \<not> in_range lk 4 x) \<and> \<not> in_range stk 34 x \<longrightarrow> m' x = (m(md := 1)) x)"
    by (rule text_console.print_items_ok [OF _ _ g a]) (use place in blast)+
  then obtain len d' m' where r:
    "print_items (textmode_display (\<lambda>x. x) lk msg) stk (kitems body) ap 0 (d, m(md := 1)) = Some (len, d', m')"
    "cursor_ok d'" "lock_ready lk m'"
    "\<forall>x. 4480 \<le> off x \<and> \<not> in_range lk 4 x \<and> \<not> in_range stk 34 x \<longrightarrow> m' x = (m(md := 1)) x"
    by blast
  have "kprint_loop (textmode_display (\<lambda>x. x) lk msg) stk (body @ [0]) 0 ap 0 (d, m(md := 1)) = Some (len, d', m')"
    using kprint_loop_items [OF assms(5,6), where i = 0 and ds = body and dp = "textmode_display (\<lambda>x. x) lk msg"] r(1)
    by simp
  then have k: "kprintf (\<lambda>x. x) md stk (Some (textmode_display (\<lambda>x. x) lk msg)) (Some (body @ [0])) ap (d, m)
      = Some (len, d', m'(md := 0))"
    by (simp add: kprintf_def kprint_va_list_def l mutex_unlock_def fun_eq_iff)
  have "cursor_ok d' \<and> lock_ready lk (m'(md := 0))"
    by (rule text_console.good_cong [of d' lk m']) (use r(2,3) md in auto)
  with k r(2,4) assms(3) show ?thesis
    by (intro exI [of _ len] exI [of _ d'] exI [of _ "m'(md := 0)"]) auto
qed

text \<open>
  The same of \<open>mprint\<close>, which prints the name of the module first. \<open>out_ready\<close>: the display and both
  locks can be used; \<open>untouched\<close>: memory that printing leaves alone.
\<close>

definition out_ready :: "addr \<Rightarrow> addr \<Rightarrow> text_display \<Rightarrow> mem \<Rightarrow> bool" where
  "out_ready lk md d m \<longleftrightarrow> cursor_ok d \<and> lock_ready lk m \<and> m md = 0 \<and> mutex_pad_clear md m"

definition untouched :: "addr \<Rightarrow> addr \<Rightarrow> addr \<Rightarrow> addr \<Rightarrow> bool" where
  "untouched lk md stk x \<longleftrightarrow> 4480 \<le> off x \<and> \<not> (in_range stk 34 x \<or> in_range lk 4 x \<or> in_range md 4 x)"

definition apart :: "addr \<Rightarrow> addr \<Rightarrow> addr \<Rightarrow> bool" where
  "apart lk md stk \<longleftrightarrow> (\<forall>x. in_range stk 34 x \<or> in_range md 4 x \<longrightarrow> 4480 \<le> off x \<and> \<not> in_range lk 4 x) \<and>
     (\<forall>x. in_range stk 34 x \<longrightarrow> \<not> in_range md 4 x)"

lemma kprint_ready:
  assumes "out_ready lk md d m" "apart lk md stk" "0 \<notin> set body" "length body < 65535"
    "args_ok m (untouched lk md stk) (kitems body) ap"
  shows "\<exists>len d' m'. kprint_va_list (\<lambda>x. x) md stk (Some (textmode_display (\<lambda>x. x) lk msg)) (body @ [0]) ap (d, m)
      = Some (len, d', m') \<and> out_ready lk md d' m' \<and> (\<forall>x. untouched lk md stk x \<longrightarrow> m' x = m x)"
proof -
  have r: "cursor_ok d" "lock_ready lk m" "m md = 0" "mutex_pad_clear md m" using assms(1) by (auto simp: out_ready_def)
  have q: "untouched lk md stk = (\<lambda>x. 4480 \<le> off x \<and> \<not> (in_range stk 34 x \<or> in_range lk 4 x \<or> in_range md 4 x))"
    by (rule ext) (simp add: untouched_def)
  have p: "\<forall>x. in_range stk 34 x \<or> in_range md 4 x \<longrightarrow> 4480 \<le> off x \<and> \<not> in_range lk 4 x"
    "\<forall>x. in_range stk 34 x \<longrightarrow> \<not> in_range md 4 x" using assms(2) by (auto simp: apart_def)
  obtain len d' m' where k: "kprintf (\<lambda>x. x) md stk (Some (textmode_display (\<lambda>x. x) lk msg)) (Some (body @ [0])) ap (d, m)
      = Some (len, d', m')" "cursor_ok d'" "lock_ready lk m'" "m' md = 0"
      "\<forall>x. 4480 \<le> off x \<and> \<not> in_range stk 34 x \<and> \<not> in_range lk 4 x \<longrightarrow> m' x = m x"
    using kprintf_result [OF r assms(3,4) p assms(5) [unfolded q]] by blast
  have "in_range md 4 (md + 1)" "in_range md 4 (md + 2)" "in_range md 4 (md + 3)" by (simp_all add: in_range_def)
  then have "mutex_pad_clear md m'" using r(4) k(5) p unfolding mutex_pad_clear_def by metis
  with k show ?thesis by (auto simp: kprintf_def out_ready_def untouched_def)
qed

lemma mprintf_returns:
  assumes "out_ready lk md d m" "apart lk md stk" "0 \<notin> set body" "length body < 65535"
    and args: "args_ok m (untouched lk md stk) (kitems body) ap"
    and nm: "cstr m nm cs" "\<forall>i \<le> length cs. untouched lk md stk (nm + of_nat i)"
  shows "\<exists>d' m'. mprintf (\<lambda>x. x) md stk (Some (textmode_display (\<lambda>x. x) lk msg)) nm (body @ [0]) ap (d, m)
      = Some (d', m') \<and> out_ready lk md d' m' \<and> (\<forall>x. untouched lk md stk x \<longrightarrow> m' x = m x)"
proof -
  have "kitems [91, 37, 115, 93, 58, 32] = [Char 91, Conv 115, Char 93, Char 58, Char 32]" by code_simp
  then have a: "args_ok m (untouched lk md stk) (kitems [91, 37, 115, 93, 58, 32]) [nm]" using nm by auto
  obtain len d1 m1 where 1: "kprint_va_list (\<lambda>x. x) md stk (Some (textmode_display (\<lambda>x. x) lk msg))
        ([91, 37, 115, 93, 58, 32] @ [0]) [nm] (d, m) = Some (len, d1, m1)" "out_ready lk md d1 m1"
      "\<forall>x. untouched lk md stk x \<longrightarrow> m1 x = m x"
    using kprint_ready [OF assms(1,2) _ _ a, where msg = msg] by fastforce
  have "args_ok m1 (untouched lk md stk) (kitems body) ap" by (rule args_ok_cong [OF args]) (use 1(3) in blast)
  from kprint_ready [OF 1(2) assms(2-4) this, where msg = msg] obtain l2 d2 m2 where
    "kprint_va_list (\<lambda>x. x) md stk (Some (textmode_display (\<lambda>x. x) lk msg)) (body @ [0]) ap (d1, m1) = Some (l2, d2, m2)"
    "out_ready lk md d2 m2" "\<forall>x. untouched lk md stk x \<longrightarrow> m2 x = m1 x" by blast
  with 1 show ?thesis by (simp add: mprintf_def kprintf_def)
qed

text \<open>
  C24. The output path as a whole, \<open>kprintf\<close> on the text console down to \<open>memcpy\<close> and the two locks:
  with both locks free and nobody else running, every format and every list of arguments that
  suffices for it is printed and the call returns, with both locks free again and the cursor on
  the screen; of the memory behind the screen only the buffer on the stack changes. The
  buffer has 32 bytes, but \<open>%b\<close> of a negative number needs 33 and more, up to two behind it.
\<close>

theorem kprintf_returns:
  assumes "cursor_ok d" "lock_ready lk m" "m md = 0" "mutex_pad_clear md m"
    and "0 \<notin> set body" "length body < 65535"
    and place: "\<forall>x. in_range stk 34 x \<or> in_range md 4 x \<longrightarrow> 4480 \<le> off x \<and> \<not> in_range lk 4 x"
      "\<forall>x. in_range stk 34 x \<longrightarrow> \<not> in_range md 4 x"
    and args: "args_ok m (\<lambda>x. 4480 \<le> off x \<and> \<not> (in_range stk 34 x \<or> in_range lk 4 x \<or> in_range md 4 x)) (kitems body) ap"
  shows "\<exists>len d' m'. kprintf (\<lambda>x. x) md stk (Some (textmode_display (\<lambda>x. x) lk msg)) (Some (body @ [0])) ap (d, m)
      = Some (len, d', m') \<and> cursor_ok d' \<and> lock_ready lk m' \<and> m' md = 0 \<and>
    (\<forall>x. 4480 \<le> off x \<and> \<not> in_range stk 34 x \<and> \<not> in_range lk 4 x \<longrightarrow> m' x = m x)"
  using kprintf_result [OF assms] .

theorem kprintf_returns_witness:
  "\<exists>len d' m'. kprintf (\<lambda>x. x) 0x300 0x400 (Some (textmode_display (\<lambda>x. x) 0x200 0)) (Some (map of_char ''%s=%d'' @ [0]))
     [0x100, 42] (text_start, (\<lambda>_. 0)(0x100 := 120)) = Some (len, d', m') \<and> m' 0x300 = 0 \<and> m' 0x100 = 120"
proof -
  let ?m = "(\<lambda>_. 0)(0x100 := 120) :: mem"
  have far: "4480 \<le> off x" if "unat x < 2000" for x
    using that unat_sub_word [of x VGA_MEMORY] by (simp add: off_def VGA_MEMORY_def)
  have r: "in_range p n x \<longleftrightarrow> unat p \<le> unat x \<and> unat x < unat p + unat n" if "unat p + unat n \<le> 4294967296" for p n x
    by (rule in_range_unat [OF that])
  have it: "kitems (map of_char ''%s=%d'') = [Conv 115, Char 61, Conv 100]" by code_simp
  have "cstr ?m 0x100 [120]" by simp
  moreover have "\<forall>i \<le> length [120 :: uint8]. 4480 \<le> off (0x100 + of_nat i) \<and>
      \<not> (in_range 0x400 34 (0x100 + of_nat i) \<or> in_range 0x200 4 (0x100 + of_nat i) \<or> in_range 0x300 4 (0x100 + of_nat i))"
  proof (intro allI impI)
    fix i assume "i \<le> length [120 :: uint8]"
    then have "i = 0 \<or> i = 1" by auto
    then show "4480 \<le> off (0x100 + of_nat i) \<and>
      \<not> (in_range 0x400 34 (0x100 + of_nat i) \<or> in_range 0x200 4 (0x100 + of_nat i) \<or> in_range 0x300 4 (0x100 + of_nat i))"
      by (auto simp: far in_range_def)
  qed
  ultimately have "args_ok ?m (\<lambda>x. 4480 \<le> off x \<and> \<not> (in_range 0x400 34 x \<or> in_range 0x200 4 x \<or> in_range 0x300 4 x))
      (kitems (map of_char ''%s=%d'')) [0x100, 42]"
    unfolding it by (auto simp del: cstr.simps)
  then have "\<exists>len d' m'. kprintf (\<lambda>x. x) 0x300 0x400 (Some (textmode_display (\<lambda>x. x) 0x200 0)) (Some (map of_char ''%s=%d'' @ [0]))
     [0x100, 42] (text_start, ?m) = Some (len, d', m') \<and> cursor_ok d' \<and> lock_ready 0x200 m' \<and> m' 0x300 = 0 \<and>
     (\<forall>x. 4480 \<le> off x \<and> \<not> in_range 0x400 34 x \<and> \<not> in_range 0x200 4 x \<longrightarrow> m' x = ?m x)"
    by (intro kprintf_returns)
      (auto simp: lock_ready_def mutex_pad_clear_def cursor_ok_def text_start_def textmode_init_def r far)
  then show ?thesis using far [of "0x100"] by (fastforce simp: in_range_def)
qed

text \<open>
  A percent sign cannot be printed: \<open>%%\<close> starts a directive at its second character, and an
  unknown directive drops only the \<open>%\<close>.
\<close>

theorem kprintf_drops_percent:
  assumes "0 \<notin> set fmt" "length fmt < 65535"
  shows "kprint_loop dp stk (fmt @ [0]) 0 ap 0 st = print_items dp stk (kitems fmt) ap 0 st \<and>
    Char 37 \<notin> set (kitems fmt)"
proof
  show "Char 37 \<notin> set (kitems fmt)"
    by (induction fmt rule: kitems.induct) (auto split: list.splits)
qed (use kprint_loop_items [OF assms, where i = 0 and ds = fmt and dp = dp] in simp)

theorem kprintf_drops_percent_witness:
  "kprint_loop dp stk (map of_char ''5%%'' @ [0]) 0 [] 0 st =
     do { st' \<leftarrow> putc dp 53 st; Some (1, st') }"
proof -
  have "kitems (map of_char ''5%%'') = [Char 53]" "0 \<notin> set (map of_char ''5%%'' :: uint8 list)" by code_simp+
  moreover have "print_items dp stk [] [] 1 = (\<lambda>st'. Some (1, st'))" by (rule ext) simp
  ultimately show ?thesis using kprintf_drops_percent [of "map of_char ''5%%''" dp stk "[]" st] by simp
qed

end
