(* ===== verification/Keyboard.thy ===== *)
theory Keyboard
  imports Tasking Interrupts CStrings Mem_Utils
begin

text \<open>
  The keyboard driver, \<open>src/drivers/keyboard.c\<close>: scan codes, the buffer of keys that the interrupt
  fills and \<open>keyboard_get_key\<close> empties. The buffer is in kernel memory; \<open>m_getkey\<close> is the
  address of the lock and \<open>sched\<close> the effect of the scheduler on memory.
\<close>

section \<open>The code\<close>

record keyboard =
  lastkey :: uint8
  keycache :: addr
  key_loc :: uint16
  kbd_enabled :: uint8
  last_ch :: uint8

definition Q_PRESSED :: uint8 where "Q_PRESSED = 0x10"
definition P_PRESSED :: uint8 where "P_PRESSED = 0x19"
definition A_PRESSED :: uint8 where "A_PRESSED = 0x1E"
definition L_PRESSED :: uint8 where "L_PRESSED = 0x26"
definition Y_PRESSED :: uint8 where "Y_PRESSED = 0x2C"
definition M_PRESSED :: uint8 where "M_PRESSED = 0x32"
definition ZERO_PRESSED :: uint8 where "ZERO_PRESSED = 0xB"
definition ONE_PRESSED :: uint8 where "ONE_PRESSED = 0x2"
definition POINT_PRESSED :: uint8 where "POINT_PRESSED = 0x34"
definition SLASH_RELEASED :: uint8 where "SLASH_RELEASED = 0xB5"
definition TAB_PRESSED :: uint8 where "TAB_PRESSED = 0xF"
definition BACKSPACE_PRESSED :: uint8 where "BACKSPACE_PRESSED = 0xE"
definition SPACE_PRESSED :: uint8 where "SPACE_PRESSED = 0x39"
definition ENTER_PRESSED :: uint8 where "ENTER_PRESSED = 0x1C"

lemmas key_codes = Q_PRESSED_def P_PRESSED_def A_PRESSED_def L_PRESSED_def Y_PRESSED_def M_PRESSED_def
  ZERO_PRESSED_def ONE_PRESSED_def POINT_PRESSED_def SLASH_RELEASED_def TAB_PRESSED_def
  BACKSPACE_PRESSED_def SPACE_PRESSED_def ENTER_PRESSED_def

text \<open>The enumeration \<open>KEYCODE\<close>, in the order of the code.\<close>

definition KEYCODE :: "(string \<times> uint8) list" where
  "KEYCODE = [
  (''NULL_KEY'', 0), (''Q_PRESSED'', 0x10), (''Q_RELEASED'', 0x90), (''W_PRESSED'', 0x11),
   (''W_RELEASED'', 0x91), (''E_PRESSED'', 0x12), (''E_RELEASED'', 0x92), (''R_PRESSED'', 0x13),
   (''R_RELEASED'', 0x93), (''T_PRESSED'', 0x14), (''T_RELEASED'', 0x94), (''Z_PRESSED'', 0x15),
   (''Z_RELEASED'', 0x95), (''U_PRESSED'', 0x16), (''U_RELEASED'', 0x96), (''I_PRESSED'', 0x17),
   (''I_RELEASED'', 0x97), (''O_PRESSED'', 0x18), (''O_RELEASED'', 0x98), (''P_PRESSED'', 0x19),
   (''P_RELEASED'', 0x99), (''A_PRESSED'', 0x1e), (''A_RELEASED'', 0x9e), (''S_PRESSED'', 0x1f),
   (''S_RELEASED'', 0x9f), (''D_PRESSED'', 0x20), (''D_RELEASED'', 0xa0), (''F_PRESSED'', 0x21),
   (''F_RELEASED'', 0xa1), (''G_PRESSED'', 0x22), (''G_RELEASED'', 0xa2), (''H_PRESSED'', 0x23),
   (''H_RELEASED'', 0xa3), (''J_PRESSED'', 0x24), (''J_RELEASED'', 0xa4), (''K_PRESSED'', 0x25),
   (''K_RELEASED'', 0xa5), (''L_PRESSED'', 0x26), (''L_RELEASED'', 0xa6), (''Y_PRESSED'', 0x2c),
   (''Y_RELEASED'', 0xac), (''X_PRESSED'', 0x2d), (''X_RELEASED'', 0xad), (''C_PRESSED'', 0x2e),
   (''C_RELEASED'', 0xae), (''V_PRESSED'', 0x2f), (''V_RELEASED'', 0xaf), (''B_PRESSED'', 0x30),
   (''B_RELEASED'', 0xb0), (''N_PRESSED'', 0x31), (''N_RELEASED'', 0xb1), (''M_PRESSED'', 0x32),
   (''M_RELEASED'', 0xb2), (''ZERO_PRESSED'', 0xb), (''ONE_PRESSED'', 0x2), (''POINT_PRESSED'', 0x34),
   (''POINT_RELEASED'', 0xb4), (''SLASH_RELEASED'', 0xb5), (''TAB_PRESSED'', 0xf),
   (''BACKSPACE_PRESSED'', 0xe), (''BACKSPACE_RELEASED'', 0x8e), (''SPACE_PRESSED'', 0x39),
   (''SPACE_RELEASED'', 0xb9), (''ENTER_PRESSED'', 0x1c), (''ENTER_RELEASED'', 0x9c)]"

definition numrow :: "uint8 list" where "numrow = map of_char ''1234567890''"
definition krow1 :: "uint8 list" where "krow1 = map of_char ''qwertzuiop''"
definition krow2 :: "uint8 list" where "krow2 = map of_char ''asdfghjkl''"
definition krow3 :: "uint8 list" where "krow3 = map of_char ''yxcvbnm''"

definition keyboard_to_ascii :: "uint8 \<Rightarrow> uint8" where
  "keyboard_to_ascii scancode =
     (if scancode = ENTER_PRESSED then 10
      else if scancode = SPACE_PRESSED then 32
      else if scancode = BACKSPACE_PRESSED then 13
      else if scancode = TAB_PRESSED then 9
      else if scancode = POINT_PRESSED then 46
      else if scancode = SLASH_RELEASED then 47
      else if scancode = ZERO_PRESSED then 48
      else if ONE_PRESSED \<le> scancode \<and> scancode \<le> ZERO_PRESSED then numrow ! unat (scancode - ONE_PRESSED)
      else if Q_PRESSED \<le> scancode \<and> scancode \<le> P_PRESSED then krow1 ! unat (scancode - Q_PRESSED)
      else if A_PRESSED \<le> scancode \<and> scancode \<le> L_PRESSED then krow2 ! unat (scancode - A_PRESSED)
      else if Y_PRESSED \<le> scancode \<and> scancode \<le> M_PRESSED then krow3 ! unat (scancode - Y_PRESSED)
      else 0)"

definition keyboard_enabled :: "keyboard \<Rightarrow> uint8" where
  "keyboard_enabled k = kbd_enabled k"

definition keyboard_read_key :: "device \<Rightarrow> keyboard \<times> trace \<Rightarrow> keyboard \<times> trace" where
  "keyboard_read_key dev s = (case s of (k, tr) \<Rightarrow>
     let k1 = k\<lparr>lastkey := 0\<rparr>; (st, tr1) = inportb dev 0x64 tr
     in if st AND 1 \<noteq> 0 then (let (c, tr2) = inportb dev 0x60 tr1 in (k1\<lparr>lastkey := c\<rparr>, tr2)) else (k1, tr1))"

text \<open>The loop that moves the keys up: \<open>keycache[i] = keycache[i + 1]\<close>, \<open>n\<close> more times from \<open>i\<close>.\<close>

fun shift_keys :: "nat \<Rightarrow> nat \<Rightarrow> addr \<Rightarrow> mem \<Rightarrow> mem" where
  "shift_keys 0 i c m = m"
| "shift_keys (Suc n) i c m = shift_keys n (i + 1) c (m(c + of_nat i := m (c + of_nat i + 1)))"

text \<open>What \<open>keyboard_get_key\<close> does inside the lock: take the first key, then move the rest up.\<close>

definition get_key_take :: "keyboard \<times> mem \<Rightarrow> keyboard \<times> mem" where
  "get_key_take s = (case s of (k, m) \<Rightarrow> (k\<lparr>last_ch := m (keycache k), key_loc := key_loc k - 1\<rparr>, m))"

definition get_key_shift :: "keyboard \<times> mem \<Rightarrow> keyboard \<times> mem" where
  "get_key_shift s = (case s of (k, m) \<Rightarrow> (k, shift_keys 256 0 (keycache k) m))"

definition get_key_body :: "keyboard \<times> mem \<Rightarrow> keyboard \<times> mem" where
  "get_key_body s = (let s1 = apfst (\<lambda>k. k\<lparr>last_ch := 0\<rparr>) s
     in if key_loc (fst s1) = 0 then s1 else get_key_shift (get_key_take s1))"

definition keyboard_get_key ::
  "(mem \<Rightarrow> mem) \<Rightarrow> addr \<Rightarrow> keyboard \<times> mem \<Rightarrow> (uint8 \<times> keyboard \<times> mem) option" where
  "keyboard_get_key sched m_getkey s = (case s of (k, m) \<Rightarrow> do {
     m1 \<leftarrow> mutex_lock sched m_getkey m;
     let (k2, m2) = get_key_body (k, m1);
     Some (last_ch k2, k2, mutex_unlock sched m_getkey m2)
   })"

definition keyboard_irq :: "device \<Rightarrow> keyboard \<times> mem \<times> trace \<Rightarrow> keyboard \<times> mem \<times> trace" where
  "keyboard_irq dev s = (case s of (k, m, tr) \<Rightarrow>
     let (c, tr1) = inportb dev 0x60 tr
     in (k\<lparr>key_loc := key_loc k + 1\<rparr>,
         m(keycache k + ucast (key_loc k) := keyboard_to_ascii c),
         send_eoi 1 tr1))"

text \<open>
  The initialisation is a process of its own, which ends with \<open>_kill\<close>; \<open>handler\<close> is the address
  of \<open>keyboard_irq\<close>.
\<close>

definition keyboard_init ::
  "(cpu \<Rightarrow> uint32 list) \<Rightarrow> addr \<Rightarrow> keyboard \<times> irq_table \<times> task_state \<Rightarrow>
    (unit outcome \<times> keyboard \<times> irq_table \<times> task_state) option" where
  "keyboard_init pro handler st = (case st of (k, rs, s) \<Rightarrow> do {
     (r, h) \<leftarrow> malloc (kmem s) 256;
     case r of
       Panic \<Rightarrow> Some (Panic, k, rs, s\<lparr>kmem := h\<rparr>)
     | Ret p \<Rightarrow>
         let h1 = h\<lparr>ram := memset (ram h) p 0 256\<rparr>;
             (r', s') = kill_current pro (s\<lparr>kmem := h1\<rparr>)
         in Some (r', k\<lparr>keycache := p, kbd_enabled := 1\<rparr>, irq_setroutine rs 1 handler, s')
   })"

section \<open>Scan codes\<close>

text \<open>
  No two scan codes give the same character, and the codes that give one are the pressed keys
  and the release of the slash key.
\<close>

theorem keyboard_to_ascii_unique:
  "distinct (filter (\<lambda>c. c \<noteq> 0) (map (\<lambda>n. keyboard_to_ascii (of_nat n)) [0..<256])) \<and>
   filter (\<lambda>n. 128 \<le> n \<and> keyboard_to_ascii (of_nat n) \<noteq> 0) [0..<256] = [0xB5]"
  by code_simp

text \<open>A key is pressed or released; its name is the name of the code without that.\<close>

definition pressed :: "(string \<times> uint8) list" where
  "pressed = [(take (length n - 8) n, v). (n, v) \<leftarrow> KEYCODE, drop (length n - 8) n = ''_PRESSED'']"

definition released :: "(string \<times> uint8) list" where
  "released = [(take (length n - 9) n, v). (n, v) \<leftarrow> KEYCODE, drop (length n - 9) n = ''_RELEASED'']"

text \<open>
  The table and the translation agree: each letter key that is pressed gives its letter in lower case, the
  code of a released key is that of the pressed key with the highest bit set, and released keys give
  nothing, except that the slash is given when its key is released.
\<close>

theorem keycodes_translate:
  "(\<forall>(n, v) \<in> set pressed. \<forall>c. n = [c] \<longrightarrow> keyboard_to_ascii v = of_char c + 32) \<and>
   (\<forall>(n, v) \<in> set released. \<forall>(n', v') \<in> set pressed. n = n' \<longrightarrow> v = v' OR 0x80) \<and>
   (\<forall>(n, v) \<in> set released. keyboard_to_ascii v = (if n = ''SLASH'' then 47 else 0)) \<and>
   distinct (map fst pressed) \<and> length (filter (\<lambda>(n, v). length n = 1) pressed) = 26"
proof -
  have "list_all (\<lambda>(n, v). length n = 1 \<longrightarrow> keyboard_to_ascii v = of_char (hd n) + 32) pressed" by code_simp
  moreover have "list_all (\<lambda>(n, v). list_all (\<lambda>(n', v'). n = n' \<longrightarrow> v = v' OR 0x80) pressed) released" by code_simp
  moreover have "list_all (\<lambda>(n, v). keyboard_to_ascii v = (if n = ''SLASH'' then 47 else 0)) released" by code_simp
  moreover have "distinct (map fst pressed)" by code_simp
  moreover have "length (filter (\<lambda>(n, v). length n = 1) pressed) = 26" by code_simp
  ultimately show ?thesis by (fastforce simp: list_all_iff)
qed

section \<open>The buffer is a queue\<close>

definition pending :: "keyboard \<times> mem \<Rightarrow> uint8 list" where
  "pending s = map (\<lambda>i. snd s (keycache (fst s) + of_nat i)) [0..<unat (key_loc (fst s))]"

text \<open>A key that arrives: what \<open>keyboard_irq\<close> does to the buffer.\<close>

definition press :: "uint8 \<Rightarrow> keyboard \<times> mem \<Rightarrow> keyboard \<times> mem" where
  "press c s = (case s of (k, m) \<Rightarrow>
     (k\<lparr>key_loc := key_loc k + 1\<rparr>, m(keycache k + ucast (key_loc k) := c)))"

lemma keyboard_irq_press:
  "keyboard_irq dev (k, m, tr) =
     (let (k', m') = press (keyboard_to_ascii (ucast (dev tr 0x60))) (k, m)
      in (k', m', [OutB 0x20 0x20, InB 0x60 (ucast (dev tr 0x60))] @ tr))"
  by (simp add: keyboard_irq_def press_def inportb_def Let_def send_eoi_def outportb_def pic_ports)

definition kbd_ok :: "addr \<Rightarrow> keyboard \<times> mem \<Rightarrow> bool" where
  "kbd_ok lk s \<longleftrightarrow> (case s of (k, m) \<Rightarrow> key_loc k \<le> 256 \<and> m lk = 0 \<and> mutex_pad_clear lk m \<and>
     (\<forall>i \<in> {0, 1, 2, 3}. \<not> in_range (keycache k) 257 (lk + i)))"

lemma offset_eq: "i < 4294967296 \<Longrightarrow> unat (x - c) = i \<longleftrightarrow> x = c + of_nat i" for x c :: addr
proof
  assume "unat (x - c) = i"
  then have "x - c = of_nat i" by auto
  then show "x = c + of_nat i" by (simp add: diff_eq_eq add.commute)
qed (simp add: unat_of_nat_small)

lemma shift_keys_apply:
  "i + n < 4294967296 \<Longrightarrow> shift_keys n i c m x =
     (if i \<le> unat (x - c) \<and> unat (x - c) < i + n then m (x + 1) else m x)"
proof (induction n arbitrary: i m)
  case (Suc n)
  let ?k = "unat (x - c)"
  let ?m = "m(c + of_nat i := m (c + of_nat i + 1))"
  have k: "?k = i \<longleftrightarrow> x = c + of_nat i" using Suc.prems by (intro offset_eq) simp
  have k1: "x + 1 \<noteq> c + of_nat i" if "i + 1 \<le> ?k" "?k < i + 1 + n"
  proof
    assume "x + 1 = c + of_nat i"
    moreover have "x = c + of_nat ?k" by (simp add: diff_eq_eq)
    ultimately have "c + of_nat (Suc ?k) = c + of_nat i" by (simp add: add.commute)
    with that Suc.prems show False by (simp add: of_nat_inj32 del: of_nat_Suc)
  qed
  have "shift_keys n (i + 1) c ?m x = (if i + 1 \<le> ?k \<and> ?k < i + 1 + n then ?m (x + 1) else ?m x)"
    using Suc.prems by (intro Suc.IH) simp
  with k k1 show ?case by auto
qed auto

lemma get_key_body_pending:
  assumes "key_loc k \<le> 256"
  shows "last_ch (fst (get_key_body (k, m))) = (case pending (k, m) of [] \<Rightarrow> 0 | c # _ \<Rightarrow> c)"
    and "pending (get_key_body (k, m)) = tl (pending (k, m))"
    and "key_loc (fst (get_key_body (k, m))) \<le> 256" "keycache (fst (get_key_body (k, m))) = keycache k"
    and "\<not> in_range (keycache k) 256 x \<Longrightarrow> snd (get_key_body (k, m)) x = m x"
proof -
  let ?n = "unat (key_loc k)"
  have n: "?n \<le> 256" using assms by (simp add: word_le_nat_alt)
  have u: "unat (of_nat i :: addr) = i" if "i < 257" for i using that by (simp add: unat_of_nat_small)
  have s: "shift_keys 256 0 (keycache k) m (keycache k + of_nat i) = m (keycache k + of_nat (Suc i))" if "i < 256" for i
    using that by (simp add: shift_keys_apply u ac_simps)
  show "last_ch (fst (get_key_body (k, m))) = (case pending (k, m) of [] \<Rightarrow> 0 | c # _ \<Rightarrow> c)"
    "pending (get_key_body (k, m)) = tl (pending (k, m))"
    "key_loc (fst (get_key_body (k, m))) \<le> 256" "keycache (fst (get_key_body (k, m))) = keycache k"
  proof (atomize (full), cases "key_loc k = 0")
    case True
    then show "(last_ch (fst (get_key_body (k, m))) = (case pending (k, m) of [] \<Rightarrow> 0 | c # _ \<Rightarrow> c) \<and>
      pending (get_key_body (k, m)) = tl (pending (k, m))) \<and>
      key_loc (fst (get_key_body (k, m))) \<le> 256 \<and> keycache (fst (get_key_body (k, m))) = keycache k"
      by (simp add: get_key_body_def pending_def)
  next
    case False
    then obtain j where j: "?n = Suc j" by (metis not0_implies_Suc unat_eq_0)
    have d: "unat (key_loc k - 1) = j" using False j by (simp add: unat_minus_one)
    show "(last_ch (fst (get_key_body (k, m))) = (case pending (k, m) of [] \<Rightarrow> 0 | c # _ \<Rightarrow> c) \<and>
      pending (get_key_body (k, m)) = tl (pending (k, m))) \<and>
      key_loc (fst (get_key_body (k, m))) \<le> 256 \<and> keycache (fst (get_key_body (k, m))) = keycache k"
      using False j n d s by (simp add: get_key_body_def get_key_take_def get_key_shift_def pending_def word_le_nat_alt
          map_upt_Suc del: upt_Suc)
  qed
  show "snd (get_key_body (k, m)) x = m x" if "\<not> in_range (keycache k) 256 x"
    using that by (simp add: get_key_body_def get_key_take_def get_key_shift_def shift_keys_apply in_range_def word_less_nat_alt Let_def)
qed

lemma keyboard_get_key_free:
  assumes "kbd_ok lk (k, m)"
  shows "\<exists>s'. keyboard_get_key (\<lambda>x. x) lk (k, m) =
      Some (case pending (k, m) of [] \<Rightarrow> 0 | c # _ \<Rightarrow> c, s') \<and> kbd_ok lk s' \<and>
    pending s' = tl (pending (k, m)) \<and> (\<forall>x. \<not> in_range (keycache k) 256 x \<longrightarrow> snd s' x = m x)"
proof -
  have sub: "in_range (keycache k) 256 x \<Longrightarrow> in_range (keycache k) 257 x" for x
    by (simp add: in_range_def word_less_nat_alt)
  have a: "key_loc k \<le> 256" "m lk = 0" "mutex_pad_clear lk m" and sep: "\<And>i. i \<in> {0, 1, 2, 3} \<Longrightarrow> \<not> in_range (keycache k) 257 (lk + i)"
    using assms by (auto simp: kbd_ok_def)
  define m1 where "m1 = m(lk := 1)"
  have sep0: "\<not> in_range (keycache k) 257 lk" using sep [of 0] by simp
  have out4: "\<not> in_range (keycache k) 256 (lk + i)" if "i \<in> {0, 1, 2, 3}" for i using sep [OF that] sub by blast
  have same: "pending (k, m1) = pending (k, m)"
  proof -
    have "keycache k + of_nat i \<noteq> lk" if "i < unat (key_loc k)" for i
    proof
      assume e: "keycache k + of_nat i = lk"
      have "i < 257" using that a(1) by (simp add: word_le_nat_alt)
      then have "in_range (keycache k) 257 lk"
        by (simp add: e [symmetric] in_range_def word_less_nat_alt unat_of_nat_small)
      with sep0 show False by simp
    qed
    then show ?thesis by (auto simp: pending_def m1_def)
  qed
  obtain k2 m2 where b: "get_key_body (k, m1) = (k2, m2)" by (cases "get_key_body (k, m1)")
  note g = get_key_body_pending [OF a(1), where m = m1, unfolded b fst_conv snd_conv]
  have out: "m2 x = m1 x" if "\<not> in_range (keycache k) 256 x" for x using g(5) that .
  have "m2 lk = 1" "mutex_pad_clear lk m2"
    using out [OF out4 [of 0]] out [OF out4 [of 1]] out [OF out4 [of 2]] out [OF out4 [of 3]] a(3)
    by (simp_all add: mutex_pad_clear_def m1_def)
  moreover have p: "pending (k2, m2(lk := 0)) = pending (k2, m2)"
  proof -
    have "keycache k2 + of_nat i \<noteq> lk" if "i < unat (key_loc k2)" for i
    proof
      assume e: "keycache k2 + of_nat i = lk"
      have "i < 257" using that g(3) by (simp add: word_le_nat_alt)
      then have "in_range (keycache k) 257 lk"
        by (simp add: e [symmetric] g(4) in_range_def word_less_nat_alt unat_of_nat_small)
      with sep0 show False by simp
    qed
    then show ?thesis by (auto simp: pending_def)
  qed
  ultimately have "kbd_ok lk (k2, m2(lk := 0))"
    using g(3,4) sep sep0 by (auto simp: kbd_ok_def mutex_pad_clear_def)
  moreover have "keyboard_get_key (\<lambda>x. x) lk (k, m) = Some (last_ch k2, k2, m2(lk := 0))"
    using mutex_lock_free [OF a(2,3), of "\<lambda>x. x"] b
    by (simp add: keyboard_get_key_def mutex_unlock_def m1_def fun_eq_iff)
  moreover have "m2 x = m x" if "\<not> in_range (keycache k) 256 x" "x \<noteq> lk" for x
    using out [OF that(1)] that(2) by (simp add: m1_def)
  ultimately show ?thesis using g(1,2) p same a(2) by auto
qed

lemma press_pending:
  assumes "kbd_ok lk s" "length (pending s) < 256"
  shows "kbd_ok lk (press c s) \<and> pending (press c s) = pending s @ [c]"
proof -
  obtain k m where s: "s = (k, m)" by (cases s)
  have n: "unat (key_loc k) < 256" using assms(2) by (simp add: s pending_def)
  then have u: "unat (key_loc k + 1) = Suc (unat (key_loc k))" by (simp add: unat_word_ariths)
  have w: "unat (ucast (key_loc k) :: addr) = unat (key_loc k)"
    using unsigned_less [of "key_loc k", where 'a = nat] by (simp add: unsigned_ucast_eq take_bit_nat_eq_self)
  have d: "(of_nat i :: addr) = ucast (key_loc k) \<longleftrightarrow> i = unat (key_loc k)" if "i \<le> unat (key_loc k)" for i
    using that n by (simp add: word_unat_eq_iff w unat_of_nat_small)
  have "in_range (keycache k) 257 (keycache k + ucast (key_loc k))"
    using n by (simp add: in_range_def word_less_nat_alt w)
  then have "kbd_ok lk (press c s)"
    using assms(1) n u by (auto simp: s kbd_ok_def press_def mutex_pad_clear_def word_le_nat_alt)
  moreover have "pending (press c s) = pending s @ [c]"
    using d by (auto simp: s press_def pending_def u)
  ultimately show ?thesis by blast
qed

text \<open>Keys arrive and are taken in any order: \<open>Inl c\<close> is an arrival, \<open>Inr ()\<close> a call of \<open>get\<close>.\<close>

fun run_keys :: "('s \<Rightarrow> (uint8 \<times> 's) option) \<Rightarrow> (uint8 \<Rightarrow> 's \<Rightarrow> 's) \<Rightarrow> (uint8 + unit) list \<Rightarrow> 's \<Rightarrow>
    (uint8 list \<times> 's) option" where
  "run_keys get arrive [] s = Some ([], s)"
| "run_keys get arrive (Inl c # es) s = run_keys get arrive es (arrive c s)"
| "run_keys get arrive (Inr u # es) s = do { (c, s1) \<leftarrow> get s; (cs, s2) \<leftarrow> run_keys get arrive es s1; Some (c # cs, s2) }"

text \<open>The reference: a plain list.\<close>

fun list_run :: "(uint8 + unit) list \<Rightarrow> uint8 list \<Rightarrow> uint8 list \<times> uint8 list" where
  "list_run [] q = ([], q)"
| "list_run (Inl c # es) q = list_run es (q @ [c])"
| "list_run (Inr u # es) q = apfst ((#) (case q of [] \<Rightarrow> 0 | c # _ \<Rightarrow> c)) (list_run es (tl q))"

text \<open>
  What the readers of the keyboard need of it: \<open>get\<close> takes the oldest key, or 0 when there is
  none, and a key that arrives waits behind the others.
\<close>

locale key_queue =
  fixes ok :: "'s \<Rightarrow> bool" and keys :: "'s \<Rightarrow> uint8 list"
    and get :: "'s \<Rightarrow> (uint8 \<times> 's) option" and arrive :: "uint8 \<Rightarrow> 's \<Rightarrow> 's"
  assumes get_ok: "ok s \<Longrightarrow> \<exists>s'. get s = Some (case keys s of [] \<Rightarrow> 0 | c # _ \<Rightarrow> c, s') \<and> ok s' \<and> keys s' = tl (keys s)"
    and arrive_ok: "ok s \<Longrightarrow> length (keys s) < 256 \<Longrightarrow> ok (arrive c s) \<and> keys (arrive c s) = keys s @ [c]"
begin

lemma run_refines:
  "ok s \<Longrightarrow> length (keys s) + length es \<le> 256 \<Longrightarrow>
    \<exists>s'. run_keys get arrive es s = Some (fst (list_run es (keys s)), s') \<and> ok s' \<and> keys s' = snd (list_run es (keys s))"
proof (induction es arbitrary: s)
  case (Cons e es)
  show ?case
  proof (cases e)
    case (Inl c)
    with Cons.prems arrive_ok [of s c] Cons.IH [of "arrive c s"] show ?thesis by simp
  next
    case (Inr u)
    obtain s1 where s1: "get s = Some (case keys s of [] \<Rightarrow> 0 | c # _ \<Rightarrow> c, s1)" "ok s1" "keys s1 = tl (keys s)"
      using get_ok [OF Cons.prems(1)] by blast
    have "length (keys s1) + length es \<le> 256" using Cons.prems(2) s1(3) by simp
    with Cons.IH [OF s1(2)] obtain s' where
      "run_keys get arrive es s1 = Some (fst (list_run es (keys s1)), s')" "ok s'" "keys s' = snd (list_run es (keys s1))" by blast
    with Inr s1 show ?thesis by simp
  qed
qed simp

end

interpretation kbd: key_queue "kbd_ok lk" pending "\<lambda>s. keyboard_get_key (\<lambda>x. x) lk s" press for lk
proof
  show "\<exists>s'. keyboard_get_key (\<lambda>x. x) lk s = Some (case pending s of [] \<Rightarrow> 0 | c # _ \<Rightarrow> c, s') \<and>
      kbd_ok lk s' \<and> pending s' = tl (pending s)" if "kbd_ok lk s" for s
    using keyboard_get_key_free [of lk "fst s" "snd s"] that by auto
qed (rule press_pending)


definition sample_kbd :: keyboard where
  "sample_kbd = \<lparr>lastkey = 0, keycache = 0x1000, key_loc = 0, kbd_enabled = 1, last_ch = 0\<rparr>"


lemma two_indices: "[0..<2] = [0, 1 :: nat]"
  unfolding numeral_2_eq_2 by (simp add: upt_conv_Cons)

text \<open>
  An interrupt inside \<open>keyboard_get_key\<close>, which the lock does not keep out, loses a key: when it
  comes between taking the first key and moving the others up, the last pending key is overwritten
  and does not arrive.
\<close>

theorem keyboard_irq_loses_key:
  assumes "key_loc k = 2"
  shows "pending (get_key_shift (press c (get_key_take (k, m)))) = [c, m (keycache k + 2)]"
proof -
  have "shift_keys 256 0 p m' p = m' (p + 1)" "shift_keys 256 0 p m' (p + 1) = m' (p + 2)" for p m'
    by (simp_all add: shift_keys_apply add.commute)
  then show ?thesis using assms
    by (simp add: get_key_take_def get_key_shift_def press_def pending_def two_indices)
qed

theorem keyboard_irq_loses_key_witness:
  "pending (sample_kbd\<lparr>key_loc := 2\<rparr>, (\<lambda>_. 0)(0x1000 := 97, 0x1001 := 98)) = [97, 98] \<and>
   pending (get_key_shift (press 99 (get_key_take (sample_kbd\<lparr>key_loc := 2\<rparr>, (\<lambda>_. 0)(0x1000 := 97, 0x1001 := 98))))) = [99, 0]"
proof -
  have k: "key_loc (sample_kbd\<lparr>key_loc := 2\<rparr>) = 2" "keycache (sample_kbd\<lparr>key_loc := 2\<rparr>) = 0x1000"
    by (simp_all add: sample_kbd_def)
  show ?thesis unfolding keyboard_irq_loses_key [OF k(1)] by (simp add: pending_def k two_indices)
qed

text \<open>
  \<open>keyboard_irq\<close> does not look at the size of its buffer: with 256 keys pending it writes the
  byte behind the 256 that \<open>keyboard_init\<close> allocated.
\<close>

theorem keyboard_irq_overflows:
  assumes "key_loc k = 256"
  shows "(case keyboard_irq dev (k, m, tr) of (k', m', tr') \<Rightarrow>
    m' = m(keycache k + 256 := keyboard_to_ascii (ucast (dev tr 0x60))) \<and> key_loc k' = 257)"
  using assms by (simp add: keyboard_irq_press press_def)

theorem keyboard_irq_overflows_witness:
  "(case keyboard_irq (\<lambda>tr p. 0x1C) (sample_kbd\<lparr>key_loc := 256\<rparr>, \<lambda>_. 0, []) of (k', m', tr') \<Rightarrow> m' 0x1100 = 10)"
  using keyboard_irq_overflows [where k = "sample_kbd\<lparr>key_loc := 256\<rparr>" and dev = "\<lambda>tr p. 0x1C" and m = "\<lambda>_. 0" and tr = "[]"]
  by (auto simp: sample_kbd_def keyboard_to_ascii_def key_codes)

end
