(* ===== verification/Paging.thy ===== *)
theory Paging
  imports Memory
begin

text \<open>
  Paging, \<open>src/memory/paging.c\<close>: the page directory at 4 MB, the page tables behind it and the
  two control registers. Pointers to \<open>uint32\<close> are addresses, so \<open>last_page += 4096\<close> moves by
  16384 bytes. The messages of \<open>paging_init\<close> are left out.
\<close>

section \<open>The code\<close>

record paging =
  page_directory :: addr
  page_dir_loc :: uint32
  last_page :: addr
  pg_mem :: mem
  pg_cr3 :: uint32
  pg_cr0 :: uint32

text \<open>The loop over the entries of one page table; \<open>n\<close> rounds are left.\<close>

fun map_pages :: "nat \<Rightarrow> uint32 \<Rightarrow> addr \<Rightarrow> uint32 \<Rightarrow> mem \<Rightarrow> mem" where
  "map_pages 0 i lp phys m = m"
| "map_pages (Suc n) i lp phys m = map_pages n (i + 1) lp (phys + 4096) (store32 m (lp + 4 * i) (phys OR 3))"

definition paging_map_virtual_to_phys :: "uint32 \<Rightarrow> uint32 \<Rightarrow> paging \<Rightarrow> paging" where
  "paging_map_virtual_to_phys virt phys s =
     (let i = ucast (drop_bit 22 virt) :: uint16;
          m1 = map_pages 1024 0 (last_page s) phys (pg_mem s);
          m2 = store32 m1 (page_directory s + 4 * ucast i) (last_page s OR 3)
      in s\<lparr>pg_mem := m2, last_page := last_page s + 4 * 4096\<rparr>)"

definition paging_enable :: "paging \<Rightarrow> paging" where
  "paging_enable s = s\<lparr>pg_cr3 := page_dir_loc s, pg_cr0 := pg_cr0 s OR 0x80000000\<rparr>"

fun clear_directory :: "nat \<Rightarrow> uint32 \<Rightarrow> addr \<Rightarrow> mem \<Rightarrow> mem" where
  "clear_directory 0 i pd m = m"
| "clear_directory (Suc n) i pd m = clear_directory n (i + 1) pd (store32 m (pd + 4 * i) (0 OR 2))"

fun identity_map :: "nat \<Rightarrow> uint32 \<Rightarrow> paging \<Rightarrow> paging" where
  "identity_map 0 i s = s"
| "identity_map (Suc n) i s =
     identity_map n (i + 1) (paging_map_virtual_to_phys (i * 0x400000) (i * 0x400000) s)"

definition paging_init :: "paging \<Rightarrow> paging" where
  "paging_init s =
     (let s1 = s\<lparr>page_directory := 0x400000, page_dir_loc := 0x400000, last_page := 0x404000\<rparr>;
          s2 = s1\<lparr>pg_mem := clear_directory 1024 0 (page_directory s1) (pg_mem s1)\<rparr>
      in paging_enable (identity_map 1024 0 s2))"

section \<open>What the processor does\<close>

text \<open>
  The translation of an address by the processor, with the directory that \<open>cr3\<close> points to: an
  entry whose lowest bit is clear is a page fault.
\<close>

definition page_walk :: "mem \<Rightarrow> uint32 \<Rightarrow> addr \<Rightarrow> addr option" where
  "page_walk m c v =
     (let pde = load32 m ((c AND NOT 0xfff) + 4 * drop_bit 22 v)
      in if pde AND 1 = 0 then None
         else let pte = load32 m ((pde AND NOT 0xfff) + 4 * (drop_bit 12 v AND 0x3ff))
           in if pte AND 1 = 0 then None else Some ((pte AND NOT 0xfff) OR (v AND 0xfff)))"

section \<open>The loops\<close>

lemma map_pages_words:
  assumes "4 * n \<le> 4096"
  shows "(\<forall>j < n. load32 (map_pages n i lp phys m) (lp + 4 * (i + of_nat j)) = (phys + 4096 * of_nat j) OR 3) \<and>
    within m (map_pages n i lp phys m) (lp + 4 * i) (4 * n)"
  using assms
proof (induction n arbitrary: i phys m)
  case (Suc n)
  let ?m1 = "store32 m (lp + 4 * i) (phys OR 3)"
  let ?r = "map_pages n (i + 1) lp (phys + 4096) ?m1"
  have p: "lp + 4 * (i + 1) = lp + 4 * i + 4" by simp
  have IH: "\<forall>j < n. load32 ?r (lp + 4 * ((i + 1) + of_nat j)) = (phys + 4096 + 4096 * of_nat j) OR 3"
    "within ?m1 ?r (lp + 4 * i + 4) (4 * n)"
    using Suc.IH [of "i + 1" "phys + 4096" ?m1] Suc.prems unfolding p by auto
  have "load32 ?r (lp + 4 * i) = phys OR 3"
    using within_load32 [OF IH(2)] Suc.prems by simp
  then have "load32 ?r (lp + 4 * (i + of_nat j)) = (phys + 4096 * of_nat j) OR 3" if "j < Suc n" for j
    using IH(1) that by (cases j) (auto simp: algebra_simps)
  moreover have "within m ?r (lp + 4 * i) (4 * n + 4)"
    using within_trans4 [OF IH(2) within_store32] Suc.prems by simp
  ultimately show ?case by (simp add: add.commute)
qed (simp add: within_def)

lemma clear_directory_within:
  "4 * n \<le> 4096 \<Longrightarrow> within m (clear_directory n i pd m) (pd + 4 * i) (4 * n)"
proof (induction n arbitrary: i m)
  case (Suc n)
  have p: "pd + 4 * (i + 1) = pd + 4 * i + 4" by simp
  show ?case
    using within_trans4 [OF Suc.IH [of "store32 m (pd + 4 * i) 2" "i + 1", unfolded p] within_store32] Suc.prems
    by (simp add: add.commute)
qed (simp add: within_def)

text \<open>The directory and the tables after \<open>k\<close> rounds; \<open>b\<close> is 0x400000.\<close>

definition mapped :: "nat \<Rightarrow> mem \<Rightarrow> bool" where
  "mapped k m \<longleftrightarrow>
     (\<forall>j < k. load32 m (0x400000 + of_nat (4 * j)) = (0x400000 + of_nat (0x4000 * (j + 1))) OR 3) \<and>
     (\<forall>j < k. \<forall>i < 1024. load32 m (0x400000 + of_nat (0x4000 * (j + 1) + 4 * i)) =
        of_nat (0x400000 * j + 4096 * i) OR 3)"

lemma map_step:
  assumes k: "k < 1024" and s: "page_directory s = 0x400000" "last_page s = 0x400000 + of_nat (0x4000 * (k + 1))"
    and m: "mapped k (pg_mem s)"
  defines "s' \<equiv> paging_map_virtual_to_phys (of_nat k * 0x400000) (of_nat k * 0x400000) s"
  shows "mapped (Suc k) (pg_mem s')" "last_page s' = 0x400000 + of_nat (0x4000 * (Suc k + 1))"
    "page_directory s' = 0x400000" "page_dir_loc s' = page_dir_loc s" "pg_cr0 s' = pg_cr0 s"
    "within (pg_mem s) (pg_mem s') 0x400000 0x1004000"
proof -
  let ?d = "0x4000 * (k + 1)"
  let ?m1 = "map_pages 1024 0 (last_page s) (of_nat k * 0x400000) (pg_mem s)"
  let ?m2 = "store32 ?m1 (0x400000 + of_nat (4 * k)) (last_page s OR 3)"
  have "unat (of_nat k * 0x400000 :: uint32) = k * 0x400000"
    using k unat_of_nat_small [of "k * 0x400000"] by simp
  then have "unat (drop_bit 22 (of_nat k * 0x400000 :: uint32)) = drop_bit 22 (k * 0x400000)"
    by (simp only: unat_drop_bit_eq)
  also have "\<dots> = unat (of_nat k :: uint32)" using k by (simp add: drop_bit_eq_div unat_of_nat_small)
  finally have "drop_bit 22 (of_nat k * 0x400000 :: uint32) = of_nat k" by (simp only: word_unat_eq_iff)
  then have "ucast (ucast (drop_bit 22 (of_nat k * 0x400000 :: uint32)) :: uint16) = (of_nat k :: uint32)"
    using k by (simp add: unsigned_of_nat take_bit_nat_eq_self)
  then have s': "s' = s\<lparr>pg_mem := ?m2, last_page := last_page s + 16384\<rparr>"
    by (simp add: s'_def paging_map_virtual_to_phys_def s(1))
  have w1: "within (pg_mem s) ?m1 (0x400000 + of_nat ?d) 4096"
    and new: "\<And>i. i < 1024 \<Longrightarrow> load32 ?m1 (0x400000 + of_nat (?d + 4 * i)) = of_nat (0x400000 * k + 4096 * i) OR 3"
    using map_pages_words [of 1024 0 "last_page s" "of_nat k * 0x400000" "pg_mem s"]
    by (auto simp: s(2) algebra_simps)
  have w2: "within ?m1 ?m2 (0x400000 + of_nat (4 * k)) 4" by (rule within_store32) simp
  have old: "load32 ?m2 (0x400000 + of_nat e) = load32 (pg_mem s) (0x400000 + of_nat e)"
    if "e + 4 \<le> ?d \<and> (e + 4 \<le> 4 * k \<or> 4 * k + 4 \<le> e)" for e
    using within_load32_apart [OF w1, of e] within_load32_apart [OF w2, of e] that k by auto
  have up: "load32 ?m2 (0x400000 + of_nat (?d + 4 * i)) = load32 ?m1 (0x400000 + of_nat (?d + 4 * i))"
    if "i < 1024" for i
    using within_load32_apart [OF w2, of "?d + 4 * i"] that k by auto
  show "mapped (Suc k) (pg_mem s')"
    unfolding mapped_def s'
  proof (intro conjI allI impI)
    fix j assume "j < Suc k"
    then show "load32 (pg_mem (s\<lparr>pg_mem := ?m2, last_page := last_page s + 16384\<rparr>)) (0x400000 + of_nat (4 * j)) =
        (0x400000 + of_nat (0x4000 * (j + 1))) OR 3"
      using m old [of "4 * j"] k by (cases "j = k") (auto simp: mapped_def s(2))
  next
    fix j i :: nat assume "j < Suc k" "i < 1024"
    then show "load32 (pg_mem (s\<lparr>pg_mem := ?m2, last_page := last_page s + 16384\<rparr>))
        (0x400000 + of_nat (0x4000 * (j + 1) + 4 * i)) = of_nat (0x400000 * j + 4096 * i) OR 3"
      using m old [of "0x4000 * (j + 1) + 4 * i"] up [of i] new [of i] k
      by (cases "j = k") (auto simp: mapped_def)
  qed
  show "last_page s' = 0x400000 + of_nat (0x4000 * (Suc k + 1))" by (simp add: s' s(2))
  show "page_directory s' = 0x400000" "page_dir_loc s' = page_dir_loc s" "pg_cr0 s' = pg_cr0 s"
    by (simp_all add: s' s(1))
  have "within (pg_mem s) ?m1 0x400000 0x1004000" using within_mono [OF w1] k by simp
  moreover have "within ?m1 ?m2 0x400000 0x1004000" using within_mono [OF w2] k by simp
  ultimately show "within (pg_mem s) (pg_mem s') 0x400000 0x1004000" by (simp add: s' within_trans)
qed

lemma identity_map_mapped:
  assumes "k + n \<le> 1024" "page_directory s = 0x400000" "last_page s = 0x400000 + of_nat (0x4000 * (k + 1))"
    "mapped k (pg_mem s)"
  shows "mapped (k + n) (pg_mem (identity_map n (of_nat k) s)) \<and>
    page_dir_loc (identity_map n (of_nat k) s) = page_dir_loc s \<and> pg_cr0 (identity_map n (of_nat k) s) = pg_cr0 s \<and>
    within (pg_mem s) (pg_mem (identity_map n (of_nat k) s)) 0x400000 0x1004000"
  using assms
proof (induction n arbitrary: k s)
  case (Suc n)
  let ?s = "paging_map_virtual_to_phys (of_nat k * 0x400000) (of_nat k * 0x400000) s"
  have "k < 1024" using Suc.prems(1) by simp
  note step = map_step [OF this Suc.prems(2,3,4)]
  have e: "identity_map (Suc n) (of_nat k) s = identity_map n (of_nat (Suc k)) ?s" by (simp add: add.commute)
  have "Suc k + n \<le> 1024" using Suc.prems(1) by simp
  from Suc.IH [OF this step(3,2,1)] show ?case
    unfolding e using step(4,5) within_trans [OF _ step(6)] by simp
qed (simp add: within_def)

section \<open>The result is the identity\<close>

lemma entry_bits:
  "(push_bit 12 y OR 3) AND NOT 0xfff = push_bit 12 y" "(push_bit 12 y OR 3) AND 1 \<noteq> 0"
  "push_bit 12 (drop_bit 12 v) OR (v AND 0xfff) = v" for y v :: uint32
proof -
  have m: "(0xfff :: uint32) = mask 12" "(3 :: uint32) = mask 2" by (simp_all add: mask_eq_exp_minus_1)
  show "(push_bit 12 y OR 3) AND NOT 0xfff = push_bit 12 y"
    unfolding m by (rule bit_word_eqI) (auto simp: bit_and_iff bit_or_iff bit_not_iff bit_push_bit_iff bit_mask_iff)
  have "bit ((push_bit 12 y OR 3) AND 1) 0" by (simp add: bit_simps)
  then show "(push_bit 12 y OR 3) AND 1 \<noteq> 0" by force
  show "push_bit 12 (drop_bit 12 v) OR (v AND 0xfff) = v"
    by (rule bit_word_eqI) (auto simp: bit_simps and_fff)
qed

lemma page_words: "of_nat (4096 * q) = (push_bit 12 (of_nat q) :: uint32)"
  by (simp add: push_bit_eq_mult)

lemma page_walk_mapped:
  assumes "mapped 1024 m"
  shows "page_walk m 0x400000 v = Some v"
proof -
  define j where "j = unat v div 0x400000"
  define i where "i = unat v div 4096 mod 1024"
  have "j < 1024" using unat32_lt [of v] by (simp add: j_def)
  have "i < 1024" by (simp add: i_def)
  have top: "drop_bit 22 v = of_nat j"
  proof -
    have "unat (drop_bit 22 v) = drop_bit 22 (unat v)" by (simp only: unat_drop_bit_eq)
    also have "\<dots> = unat (of_nat j :: uint32)" using \<open>j < 1024\<close> by (simp add: drop_bit_eq_div unat_of_nat_small j_def)
    finally show ?thesis by (simp only: word_unat_eq_iff)
  qed
  have page: "unat (drop_bit 12 v) = unat v div 4096"
    using unat_drop_bit_eq [of 12 v] by (simp add: drop_bit_eq_div)
  have mid: "drop_bit 12 v AND 0x3ff = of_nat i"
  proof -
    have "drop_bit 12 v AND 0x3ff = take_bit 10 (drop_bit 12 v)" by (simp add: take_bit_eq_mask mask_eq_exp_minus_1)
    moreover have "unat (take_bit 10 (drop_bit 12 v)) = take_bit 10 (unat v div 4096)" by (simp only: unsigned_take_bit_eq page)
    moreover have "\<dots> = unat (of_nat i :: uint32)" using \<open>i < 1024\<close> by (simp add: take_bit_eq_mod unat_of_nat_small i_def)
    ultimately show ?thesis by (simp only: word_unat_eq_iff)
  qed
  have pde: "load32 m (0x400000 + 4 * of_nat j) = push_bit 12 (of_nat (1024 + 4 * (j + 1))) OR 3"
    using assms \<open>j < 1024\<close> unfolding mapped_def page_words [symmetric] by (simp add: algebra_simps)
  have pte: "load32 m (push_bit 12 (of_nat (1024 + 4 * (j + 1))) + 4 * of_nat i) = push_bit 12 (of_nat (1024 * j + i)) OR 3"
    using assms \<open>j < 1024\<close> \<open>i < 1024\<close> unfolding mapped_def page_words [symmetric] by (simp add: algebra_simps)
  have "1024 * j + i = unat v div 4096"
    by (simp add: j_def i_def div_mult2_eq [of "unat v" 4096 1024, simplified])
  then have page: "of_nat (1024 * j + i) = drop_bit 12 v" by (metis page of_nat_unat ucast_id)
  have base: "(0x400000 AND NOT 0xfff) = (0x400000 :: uint32)" by simp
  show ?thesis
    unfolding page_walk_def Let_def base top mid pde entry_bits pte page
    by (simp only: entry_bits if_False)
qed

lemma paging_init_mapped:
  "mapped 1024 (pg_mem (paging_init s)) \<and> pg_cr3 (paging_init s) = 0x400000 \<and> bit (pg_cr0 (paging_init s)) 31 \<and>
   within (pg_mem s) (pg_mem (paging_init s)) 0x400000 0x1004000"
proof -
  let ?s1 = "s\<lparr>page_directory := 0x400000, page_dir_loc := 0x400000, last_page := 0x404000\<rparr>"
  let ?s2 = "?s1\<lparr>pg_mem := clear_directory 1024 0 0x400000 (pg_mem s)\<rparr>"
  have init: "paging_init s = paging_enable (identity_map 1024 (of_nat 0) ?s2)" by (simp add: paging_init_def)
  have m: "mapped 1024 (pg_mem (identity_map 1024 (of_nat 0) ?s2)) \<and>
      page_dir_loc (identity_map 1024 (of_nat 0) ?s2) = 0x400000 \<and>
      within (pg_mem ?s2) (pg_mem (identity_map 1024 (of_nat 0) ?s2)) 0x400000 0x1004000"
    using identity_map_mapped [of 0 1024 ?s2] by (simp add: mapped_def)
  have "within (pg_mem s) (pg_mem ?s2) (0x400000 + of_nat 0) 4096"
    using clear_directory_within [of 1024 "pg_mem s" 0 "0x400000"] by simp
  then have "within (pg_mem s) (pg_mem ?s2) 0x400000 0x1004000" by (rule within_mono) simp_all
  with m have "within (pg_mem s) (pg_mem (paging_init s)) 0x400000 0x1004000"
    unfolding init by (auto simp: paging_enable_def intro: within_trans)
  moreover have "bit (pg_cr0 (paging_init s)) 31"
    unfolding init by (simp add: paging_enable_def bit_simps)
  ultimately show ?thesis using m unfolding init by (simp add: paging_enable_def)
qed

text \<open>
  C32. After \<open>paging_init\<close> the processor translates every address to itself, paging is on, and
  only the directory and the tables, 16 MB behind the first 4 MB, have been written.
\<close>

theorem paging_init_identity:
  "page_walk (pg_mem (paging_init s)) (pg_cr3 (paging_init s)) v = Some v \<and>
   bit (pg_cr0 (paging_init s)) 31 \<and>
   within (pg_mem s) (pg_mem (paging_init s)) 0x400000 0x1004000"
  using paging_init_mapped [of s] page_walk_mapped by simp

end
