(* ===== verification/Devices.thy ===== *)
theory Devices
  imports Ownership
begin

text \<open>
  The device manager, \<open>src/device.c\<close>. Device records lie at addresses; the table \<open>devices\<close> is
  an array of 64 of them in a block of the heap, entry \<open>i\<close> at \<open>devices + 28 * i\<close>. The two function
  pointers of a device say which functions they point to. Calls of \<open>_kill\<close> at the end of an
  initialisation are left to the caller, and messages are left out; \<open>device_print_out\<close> is in \<open>Device_Print\<close>.
\<close>

section \<open>The code\<close>

datatype dev_fn = No_fn | Ata_read | Ata_write

definition DEVICE_BLOCK :: uint32 where "DEVICE_BLOCK = 2"

record device_t =
  dv_name :: addr
  dv_unique_id :: uint32
  dv_type :: uint32
  dv_fs :: addr
  dv_read :: dev_fn
  dv_write :: dev_fn
  dv_priv :: addr

definition zero_device :: device_t where
  "zero_device = \<lparr>dv_name = 0, dv_unique_id = 0, dv_type = 0, dv_fs = 0, dv_read = No_fn, dv_write = No_fn, dv_priv = 0\<rparr>"

definition sizeof_device :: uint32 where "sizeof_device = 28"

record dev_state =
  dmm :: mm_state
  devs :: "addr \<Rightarrow> device_t"
  devices :: addr
  lastid :: uint8

text \<open>\<open>&devices[i]\<close>\<close>

definition device_get :: "uint32 \<Rightarrow> 'a dev_state_scheme \<Rightarrow> addr" where
  "device_get i s = devices s + sizeof_device * i"

definition device_init :: "'a dev_state_scheme \<Rightarrow> (unit outcome \<times> 'a dev_state_scheme) option" where
  "device_init s = do {
     (r, h) \<leftarrow> malloc (dmm s) (64 * sizeof_device);
     Some (case r of
         Panic \<Rightarrow> (Panic, s\<lparr>dmm := h\<rparr>)
       | Ret p \<Rightarrow> (Ret (),
           s\<lparr>dmm := h\<lparr>ram := memset (ram h) p 0 (64 * sizeof_device)\<rparr>, devices := p, lastid := 0,
             devs := (\<lambda>a. if \<exists>i < 64. a = p + sizeof_device * of_nat i then zero_device else devs s a)\<rparr>))
   }"

definition device_add :: "addr \<Rightarrow> 'a dev_state_scheme \<Rightarrow> uint8 \<times> 'a dev_state_scheme" where
  "device_add dev s =
     (lastid s,
      s\<lparr>devs := (devs s)(device_get (ucast (lastid s)) s := devs s dev), lastid := lastid s + 1\<rparr>)"

fun find_device :: "nat \<Rightarrow> uint32 \<Rightarrow> uint32 \<Rightarrow> 'a dev_state_scheme \<Rightarrow> addr" where
  "find_device 0 i n s = 0"
| "find_device (Suc k) i n s =
     (if dv_unique_id (devs s (device_get i s)) = n then device_get i s else find_device k (i + 1) n s)"

definition device_get_by_id :: "uint32 \<Rightarrow> 'a dev_state_scheme \<Rightarrow> addr" where
  "device_get_by_id n s = find_device 64 0 n s"

definition device_getnumber :: "'a dev_state_scheme \<Rightarrow> uint8" where
  "device_getnumber s = lastid s"

section \<open>The table as a list\<close>

text \<open>The registered devices in their order; the rest of the table is zero.\<close>

definition device_list :: "'a dev_state_scheme \<Rightarrow> device_t list" where
  "device_list s = map (\<lambda>i. devs s (device_get (of_nat i) s)) [0..<unat (lastid s)]"

definition table_ok :: "'a dev_state_scheme \<Rightarrow> bool" where
  "table_ok s \<longleftrightarrow> devices s \<noteq> 0 \<and> unat (devices s) + 1792 < 4294967296 \<and> unat (lastid s) \<le> 64 \<and>
     (\<forall>i. unat (lastid s) \<le> i \<and> i < 64 \<longrightarrow> devs s (device_get (of_nat i) s) = zero_device)"

lemma device_get_inj:
  assumes "i < 65536" "j < 65536"
  shows "device_get (of_nat i) s = device_get (of_nat j) s \<longleftrightarrow> i = j"
proof -
  have "sizeof_device * of_nat i = of_nat (28 * i)" "sizeof_device * of_nat j = of_nat (28 * j)"
    by (simp_all add: sizeof_device_def)
  then show ?thesis using assms of_nat_inj32 [of "28 * i" "28 * j"] by (simp add: device_get_def del: of_nat_mult)
qed

lemma device_get_word: "device_get (ucast k) s = device_get (of_nat (unat k)) s" for k :: uint8
  by simp

lemma device_get_cong: "devices s' = devices s \<Longrightarrow> device_get i s' = device_get i s"
  by (simp add: device_get_def)

lemma device_add_list:
  assumes t: "table_ok s" and room: "unat (lastid s) < 64"
  shows "fst (device_add p s) = of_nat (length (device_list s)) \<and>
    device_list (snd (device_add p s)) = device_list s @ [devs s p] \<and>
    table_ok (snd (device_add p s)) \<and> devices (snd (device_add p s)) = devices s \<and>
    (\<forall>a. (\<forall>i < 64. a \<noteq> device_get (of_nat i) s) \<longrightarrow> devs (snd (device_add p s)) a = devs s a)"
proof -
  let ?s = "snd (device_add p s)"
  define n where "n = unat (lastid s)"
  have n64: "n < 64" using room by (simp add: n_def)
  have n: "unat (lastid s + 1) = Suc n" using room by (simp add: unat_word_ariths n_def)
  have d: "devices ?s = devices s" "lastid ?s = lastid s + 1"
    "devs ?s = (devs s)(device_get (of_nat n) s := devs s p)"
    by (simp_all add: device_add_def n_def)
  have g: "device_get i ?s = device_get i s" for i by (rule device_get_cong) (rule d)
  have "map (\<lambda>i. devs ?s (device_get (of_nat i) ?s)) [0..<n] = device_list s"
    unfolding device_list_def n_def [symmetric] using n64 by (intro map_cong) (auto simp: d(3) g device_get_inj)
  then have "device_list ?s = device_list s @ [devs s p]"
    unfolding device_list_def d(2) n by (simp add: d(3) g)
  moreover have "table_ok ?s"
    using t n64 unfolding table_ok_def d(1,2) n g n_def [symmetric] by (auto simp: d(3) device_get_inj)
  moreover have "fst (device_add p s) = of_nat (length (device_list s))"
    by (simp add: device_add_def device_list_def)
  ultimately show ?thesis using n64 d by auto
qed

lemma find_device_find:
  assumes "\<forall>i < 64. device_get (of_nat i) s \<noteq> 0" "k + i \<le> 64"
  shows "find_device k (of_nat i) n s = (case find (\<lambda>j. dv_unique_id (devs s (device_get (of_nat j) s)) = n) [i..<i + k] of
      None \<Rightarrow> 0 | Some j \<Rightarrow> device_get (of_nat j) s)"
  using assms(2)
proof (induction k arbitrary: i)
  case (Suc k)
  have "[i..<i + Suc k] = i # [Suc i..<Suc i + k]" by (simp add: upt_conv_Cons)
  with Suc.IH [of "Suc i"] Suc.prems show ?case by (simp add: add.commute)
qed simp

lemma device_get_unat:
  assumes "unat (devices s) + 1792 < 4294967296" "i < 64"
  shows "unat (device_get (of_nat i) s) = unat (devices s) + 28 * i"
proof -
  have "unat (sizeof_device * of_nat i) = 28 * i"
    using assms(2) unat_of_nat_small [of "28 * i"] by (simp add: sizeof_device_def)
  then show ?thesis using assms by (simp add: device_get_def unat_add_small)
qed

lemma device_get_nz: "table_ok s \<Longrightarrow> i < 64 \<Longrightarrow> device_get (of_nat i) s \<noteq> 0"
  using device_get_unat [of s i] by (auto simp: table_ok_def unat_eq_0)

lemma find_app: "find P (xs @ ys) = (case find P xs of None \<Rightarrow> find P ys | Some x \<Rightarrow> Some x)"
  by (induction xs) auto

lemma device_get_by_id_found:
  assumes t: "table_ok s" and n: "n \<noteq> 0"
  shows "device_get_by_id n s =
    (case find (\<lambda>j. dv_unique_id (device_list s ! j) = n) [0..<length (device_list s)] of
       None \<Rightarrow> 0 | Some j \<Rightarrow> device_get (of_nat j) s)"
proof -
  let ?P = "\<lambda>j. dv_unique_id (devs s (device_get (of_nat j) s)) = n" and ?l = "unat (lastid s)"
  have l: "?l \<le> 64" using t by (simp add: table_ok_def)
  have "device_get_by_id n s = (case find ?P [0..<64] of None \<Rightarrow> 0 | Some j \<Rightarrow> device_get (of_nat j) s)"
    using find_device_find [of s 64 0 n] device_get_nz [OF t] by (simp add: device_get_by_id_def)
  moreover have "[0..<64] = [0..<?l] @ [?l..<64]" using l by (metis le_add_diff_inverse upt_add_eq_append zero_le)
  moreover have "find ?P [?l..<64] = None"
    using t n by (auto simp: find_None_iff table_ok_def zero_device_def)
  then have "find ?P ([0..<?l] @ [?l..<64]) = find ?P [0..<?l]"
    by (auto simp: find_app split: option.split)
  moreover have "find ?P [0..<?l] = find (\<lambda>j. dv_unique_id (device_list s ! j) = n) [0..<length (device_list s)]"
    by (rule find_cong) (auto simp: device_list_def)
  ultimately show ?thesis by simp
qed

lemma device_init_table:
  assumes "holds (dmm s) A" "heap_room (dmm s) (1804 + k)"
  shows "\<exists>s'. device_init s = Some (Ret (), s') \<and> table_ok s' \<and> device_list s' = [] \<and>
    holds (dmm s') ((devices s', 64 * sizeof_device) # A) \<and> heap_room (dmm s') k"
proof -
  have sz: "size_ok (64 * sizeof_device)" "unat (64 * sizeof_device) = 1792" by (simp_all add: size_ok_def sizeof_device_def)
  from malloc_heap_room [OF _ sz(1), of "dmm s" k] assms(2) sz(2)
  obtain p h where m: "malloc (dmm s) (64 * sizeof_device) = Some (Ret p, h)" "heap_room h k" by (auto simp: add.assoc)
  note al = holds_alloc [OF assms(1) sz(1) m(1)]
  then have room: "unat (heap_begin h) + 8 \<le> unat p" "unat p + 1796 < 4294967296"
    using holds_above_begin [of h _ p "64 * sizeof_device"] holds_in_memory [of h _ p "64 * sizeof_device"] sz(2) by auto
  have keep: "memset (ram h) p 0 (64 * sizeof_device) = ram h"
    using al by (auto simp: memset_apply zeroed_def fun_eq_iff)
  have "device_init s = Some (Ret (), s\<lparr>dmm := h, devices := p, lastid := 0,
      devs := (\<lambda>a. if \<exists>i < 64. a = p + sizeof_device * of_nat i then zero_device else devs s a)\<rparr>)"
    unfolding device_init_def m(1) by (simp add: keep)
  moreover have "p \<noteq> 0" using room(1) by (auto simp: unat_eq_0)
  ultimately show ?thesis using al m(2) room by (auto simp: table_ok_def device_list_def device_get_def)
qed

text \<open>
  The device table is a list of at most 64 devices: after \<open>device_init\<close> it is empty,
  \<open>device_add\<close> of a device appends its record and returns the position, and \<open>device_get_by_id\<close>
  returns the entry of the first device with the id, or the null pointer when none has it.
\<close>

theorem device_table_refines_list:
  assumes "table_ok s" "length (device_list s) < 64" "n \<noteq> 0"
  shows "fst (device_add p s) = of_nat (length (device_list s)) \<and>
    device_list (snd (device_add p s)) = device_list s @ [devs s p] \<and> table_ok (snd (device_add p s)) \<and>
    device_get_by_id n s =
      (case find (\<lambda>j. dv_unique_id (device_list s ! j) = n) [0..<length (device_list s)] of
         None \<Rightarrow> 0 | Some j \<Rightarrow> device_get (of_nat j) s)"
  using device_add_list [OF assms(1), of p] device_get_by_id_found [OF assms(1,3)] assms(2)
  by (simp add: device_list_def)

definition sample_device :: device_t where
  "sample_device = zero_device\<lparr>dv_unique_id := 32, dv_type := DEVICE_BLOCK\<rparr>"

theorem device_table_refines_list_witness:
  "\<exists>s :: dev_state. table_ok s \<and> device_get_by_id 32 s = 0 \<and> device_list (snd (device_add 0x100 s)) = [sample_device]"
proof -
  let ?s = "\<lparr>dmm = sample_heap, devs = (\<lambda>_. zero_device)(0x100 := sample_device), devices = 0x200008, lastid = 0\<rparr> :: dev_state"
  have "device_get (of_nat i) ?s \<noteq> 0x100" if "i < 64" for i
    using device_get_unat [of ?s i] that by auto
  then have t: "table_ok ?s" "device_list ?s = []" by (simp_all add: table_ok_def device_list_def)
  from device_table_refines_list [OF t(1), of 32 "0x100"] t(2) have
    "device_get_by_id 32 ?s = 0 \<and> device_list (snd (device_add 0x100 ?s)) = [sample_device]" by simp
  with t(1) show ?thesis by blast
qed

end
