(* ===== verification/Strtok.thy ===== *)
theory Strtok
  imports CStrings Ownership
begin

text \<open>
  \<open>strtok\<close> of \<open>src/string.c\<close>: it cuts a string in place at every character that occurs in
  \<open>delim\<close> and returns an array, taken from the heap, of pointers to the pieces. \<open>*length\<close> is the
  second component of the result.
\<close>

section \<open>The code\<close>

text \<open>The inner loops: does the character occur in the \<open>n\<close> bytes that are left of \<open>delim\<close>?\<close>

fun delim_loop :: "mem \<Rightarrow> addr \<Rightarrow> nat \<Rightarrow> uint32 \<Rightarrow> uint8 \<Rightarrow> bool" where
  "delim_loop m delim 0 i c = False"
| "delim_loop m delim (Suc n) i c = (if c = m (delim + i) then True else delim_loop m delim n (i + 1) c)"

fun count_loop :: "mem \<Rightarrow> addr \<Rightarrow> addr \<Rightarrow> uint32 \<Rightarrow> nat \<Rightarrow> uint32 \<Rightarrow> uint32 \<Rightarrow> uint32" where
  "count_loop m str delim numD 0 i len = len"
| "count_loop m str delim numD (Suc n) i len =
     count_loop m str delim numD n (i + 1) (if delim_loop m delim (unat numD) 0 (m (str + i)) then len + 1 else len)"

fun cut_loop :: "addr \<Rightarrow> addr \<Rightarrow> addr \<Rightarrow> uint32 \<Rightarrow> nat \<Rightarrow> uint32 \<Rightarrow> uint32 \<Rightarrow> mem \<Rightarrow> mem" where
  "cut_loop tokens str delim numD 0 i k m = m"
| "cut_loop tokens str delim numD (Suc n) i k m =
     (if delim_loop m delim (unat numD) 0 (m (str + i))
      then cut_loop tokens str delim numD n (i + 1) (k + 1) (store32 (m(str + i := 0)) (tokens + 4 * k) (str + i + 1))
      else cut_loop tokens str delim numD n (i + 1) k m)"

definition strtok :: "addr \<Rightarrow> addr \<Rightarrow> mm_state \<Rightarrow> (addr outcome \<times> uint32 \<times> mm_state) option" where
  "strtok str delim h = do {
     numS \<leftarrow> strlen (ram h) str;
     numD \<leftarrow> strlen (ram h) delim;
     let len = count_loop (ram h) str delim numD (unat numS) 0 1;
     (r, h1) \<leftarrow> malloc h (len * 4);
     Some (case r of
         Panic \<Rightarrow> (Panic, len, h1)
       | Ret tokens \<Rightarrow> (Ret tokens, len,
           h1\<lparr>ram := cut_loop tokens str delim numD (unat numS) 0 1 (store32 (ram h1) tokens str)\<rparr>))
   }"

section \<open>What it computes\<close>

text \<open>The pieces between the characters of \<open>ds\<close>, and the addresses behind those characters.\<close>

fun split_at :: "uint8 list \<Rightarrow> uint8 list \<Rightarrow> uint8 list list" where
  "split_at ds [] = [[]]"
| "split_at ds (c # cs) =
     (if c \<in> set ds then [] # split_at ds cs else (c # hd (split_at ds cs)) # tl (split_at ds cs))"

fun piece_starts :: "uint8 list \<Rightarrow> addr \<Rightarrow> uint8 list \<Rightarrow> addr list" where
  "piece_starts ds t [] = []"
| "piece_starts ds t (c # cs) =
     (if c \<in> set ds then (t + 1) # piece_starts ds (t + 1) cs else piece_starts ds (t + 1) cs)"

lemma split_at_ne [simp]: "split_at ds xs \<noteq> []"
  by (cases xs) auto

lemma length_split_at: "length (split_at ds xs) = Suc (length (piece_starts ds t xs))"
  by (induction xs arbitrary: t) auto

lemma piece_starts_in: "a \<in> set (piece_starts ds t xs) \<Longrightarrow> \<exists>j \<le> length xs. a = t + of_nat j"
proof (induction xs arbitrary: t)
  case (Cons c xs)
  from Cons.prems consider "a = t + 1" | "a \<in> set (piece_starts ds (t + 1) xs)" by (auto split: if_splits)
  then show ?case
  proof cases
    case 1
    then show ?thesis by (intro exI [of _ 1]) simp
  next
    case 2
    from Cons.IH [OF 2] obtain j where "j \<le> length xs" "a = t + 1 + of_nat j" by blast
    then show ?thesis by (intro exI [of _ "Suc j"]) simp
  qed
qed simp

lemma length_starts_le: "length (piece_starts ds t xs) \<le> length xs"
  by (induction xs arbitrary: t) (auto intro: le_SucI)

lemma delim_loop_mem: "cstr m d ds \<Longrightarrow> delim_loop m d (length ds) i c \<longleftrightarrow> c \<in> set ds" if "i = 0"
proof -
  have "cstr m (d + i) ds \<Longrightarrow> delim_loop m d (length ds) i c \<longleftrightarrow> c \<in> set ds" for i
    by (induction ds arbitrary: i) (auto simp: ac_simps)
  from this [of 0] show "cstr m d ds \<Longrightarrow> delim_loop m d (length ds) i c \<longleftrightarrow> c \<in> set ds" using that by simp
qed

lemma count_loop_starts:
  assumes "cstr m d ds" and "\<forall>j < length ys. m (s + i + of_nat j) = ys ! j"
  shows "count_loop m s d (of_nat (length ds)) (length ys) i len = len + of_nat (length (piece_starts ds t ys))"
  using assms(2)
proof (induction ys arbitrary: i len t)
  case (Cons c cs)
  have "m (s + i) = c" using Cons.prems by force
  moreover have "\<forall>j < length cs. m (s + (i + 1) + of_nat j) = cs ! j"
    using Cons.prems by (auto simp: less_Suc_eq_0_disj ac_simps)
  moreover have "unat (of_nat (length ds) :: uint32) = length ds"
    using cstr_length [OF assms(1)] by (simp add: unat_of_nat_small)
  ultimately show ?case
    using Cons.IH [of "i + 1" _ "t + 1"] delim_loop_mem [OF refl assms(1)] by auto
qed simp

text \<open>A string with some characters overwritten by 0 is a sequence of strings.\<close>

lemma pieces_cstr:
  assumes "0 \<notin> set ys" "r (t + of_nat (length ys)) = 0"
    "\<forall>j < length ys. r (t + of_nat j) = (if ys ! j \<in> set ds then 0 else ys ! j)"
  shows "list_all2 (cstr r) (t # piece_starts ds t ys) (split_at ds ys)"
  using assms
proof (induction ys arbitrary: t)
  case (Cons c cs)
  have "\<forall>j < length cs. r (t + 1 + of_nat j) = (if cs ! j \<in> set ds then 0 else cs ! j)"
    using Cons.prems(3) by (auto simp: less_Suc_eq_0_disj ac_simps)
  moreover have "r (t + 1 + of_nat (length cs)) = 0" using Cons.prems(2) by (simp add: ac_simps)
  ultimately have IH: "list_all2 (cstr r) ((t + 1) # piece_starts ds (t + 1) cs) (split_at ds cs)"
    using Cons.IH [of "t + 1"] Cons.prems(1) by simp
  have "r t = (if c \<in> set ds then 0 else c)" using Cons.prems(3) by force
  with IH Cons.prems(1) show ?case by (cases "split_at ds cs") auto
qed simp

section \<open>Cutting the string\<close>

text \<open>
  The array has room for \<open>K\<close> words at \<open>p\<close>; it overlaps neither the rest of the string, which
  begins at \<open>s + i\<close>, nor \<open>delim\<close>, and those do not overlap.
\<close>

definition cut_room :: "addr \<Rightarrow> nat \<Rightarrow> addr \<Rightarrow> nat \<Rightarrow> addr \<Rightarrow> nat \<Rightarrow> bool" where
  "cut_room p K t n d l \<longleftrightarrow> 4 * K < 2147483640 \<and> n < 4294967295 \<and> (\<forall>j < n. 4 * K \<le> unat (t + of_nat j - p)) \<and>
     (\<forall>j \<le> l. 4 * K \<le> unat (d + of_nat j - p)) \<and> (\<forall>j < n. \<forall>k \<le> l. t + of_nat j \<noteq> d + of_nat k)"

lemma cut_room_step: "cut_room p K t (Suc n) d l \<Longrightarrow> cut_room p K (t + 1) n d l"
proof -
  have e: "t + 1 + of_nat j = t + of_nat (Suc j)" for j by simp
  show "cut_room p K t (Suc n) d l \<Longrightarrow> cut_room p K (t + 1) n d l"
    unfolding cut_room_def e by (auto simp del: of_nat_Suc)
qed

lemma word_load_outside:
  assumes "\<And>y. unat (y - p) < 4 * K \<Longrightarrow> m' y = m y" "4 * q + 4 \<le> 4 * K" "4 * K < 2147483640"
  shows "load32 m' (p + of_nat (4 * q)) = load32 m (p + of_nat (4 * q))"
proof (rule load32_cong)
  fix y assume "in_range (p + of_nat (4 * q)) 4 y"
  then have "unat (y - p - of_nat (4 * q)) < 4" by (simp add: in_range_def word_less_nat_alt diff_diff_eq)
  moreover have "unat (of_nat (4 * q) :: addr) = 4 * q" using assms by (simp add: unat_of_nat_small del: of_nat_mult)
  ultimately have "unat (y - p) < 4 * q + 4"
    using unat_sub_word [of "y - p" "of_nat (4 * q)"] assms(2,3) by (auto split: if_splits)
  then show "m' y = m y" using assms(1,2) by simp
qed

lemma cut_loop_spec:
  assumes "cstr m d ds" "\<forall>j < length ys. m (s + i + of_nat j) = ys ! j"
    and "cut_room p K (s + i) (length ys) d (length ds)" "k + length (piece_starts ds (s + i) ys) \<le> K"
  defines "st \<equiv> piece_starts ds (s + i) ys"
    and "r \<equiv> cut_loop p s d (of_nat (length ds)) (length ys) i (of_nat k) m"
  shows "(\<forall>q < length st. load32 r (p + of_nat (4 * (k + q))) = st ! q) \<and>
    (\<forall>q < k. load32 r (p + of_nat (4 * q)) = load32 m (p + of_nat (4 * q))) \<and>
    (\<forall>y. 4 * K \<le> unat (y - p) \<longrightarrow>
       r y = (if \<exists>j < length ys. y = s + i + of_nat j \<and> ys ! j \<in> set ds then 0 else m y))"
  using assms(1-4) unfolding st_def r_def
proof (induction ys arbitrary: i k m)
  case (Cons c cs)
  have c: "m (s + i) = c" using Cons.prems(2) by force
  have tl: "\<forall>j < length cs. m (s + (i + 1) + of_nat j) = cs ! j"
    using Cons.prems(2) by (auto simp: less_Suc_eq_0_disj ac_simps)
  have room: "cut_room p K (s + (i + 1)) (length cs) d (length ds)"
    using cut_room_step [of p K "s + i"] Cons.prems(3) by (simp add: ac_simps)
  have ds: "unat (of_nat (length ds) :: uint32) = length ds" using cstr_length [OF Cons.prems(1)] by (simp add: unat_of_nat_small)
  have del: "delim_loop m d (unat (of_nat (length ds) :: uint32)) 0 (m (s + i)) \<longleftrightarrow> c \<in> set ds"
    using delim_loop_mem [OF refl Cons.prems(1)] by (simp add: ds c)
  have here: "4 * K \<le> unat (s + i - p)" using Cons.prems(3) unfolding cut_room_def by force
  have K: "4 * K < 2147483640" using Cons.prems(3) by (simp add: cut_room_def)
  have cases_ex: "(\<exists>j < length (c # cs). y = s + i + of_nat j \<and> (c # cs) ! j \<in> set ds) \<longleftrightarrow>
      y = s + i \<and> c \<in> set ds \<or> (\<exists>j < length cs. y = s + (i + 1) + of_nat j \<and> cs ! j \<in> set ds)" for y
    by (simp add: Ex_less_Suc2 ac_simps)
  show ?case
  proof (cases "c \<in> set ds")
    case False
    then show ?thesis
      using Cons.IH [OF Cons.prems(1) tl room, of k] Cons.prems(4) unfolding cases_ex
      by (simp add: del add.assoc)
  next
    case True
    let ?m = "store32 (m(s + i := 0)) (p + of_nat (4 * k)) (s + i + 1)"
    let ?st = "piece_starts ds (s + (i + 1)) cs"
    let ?r = "cut_loop p s d (of_nat (length ds)) (length cs) (i + 1) (of_nat (Suc k)) ?m"
    have k: "Suc k + length ?st \<le> K" using Cons.prems(4) True by (simp add: add.assoc)
    have w: "within (m(s + i := 0)) ?m p (4 * K)"
      by (rule within_mono [OF within_store32 [of 4]]) (use k K in auto)
    have out: "?m y = (if y = s + i then 0 else m y)" if "4 * K \<le> unat (y - p)" for y
      using w that by (simp add: within_def)
    have "cstr ?m d ds"
    proof (rule cstr_frame [OF Cons.prems(1)])
      fix l assume l: "l \<le> length ds"
      have "s + i + of_nat 0 \<noteq> d + of_nat l" using Cons.prems(3) l unfolding cut_room_def by (metis length_Cons zero_less_Suc)
      moreover have "4 * K \<le> unat (d + of_nat l - p)" using Cons.prems(3) l by (simp add: cut_room_def)
      ultimately show "?m (d + of_nat l) = m (d + of_nat l)" using out by simp
    qed
    moreover have "\<forall>j < length cs. ?m (s + (i + 1) + of_nat j) = cs ! j"
    proof (intro allI impI)
      fix j assume j: "j < length cs"
      have "4 * K \<le> unat (s + (i + 1) + of_nat j - p)" using room j by (simp add: cut_room_def)
      moreover have "(of_nat (Suc j) :: addr) \<noteq> of_nat 0"
        using j room by (subst of_nat_inj32) (auto simp: cut_room_def)
      then have "s + (i + 1) + of_nat j \<noteq> s + i" by (simp add: add.assoc)
      ultimately show "?m (s + (i + 1) + of_nat j) = cs ! j" using out tl j by simp
    qed
    ultimately have IH: "(\<forall>q < length ?st. load32 ?r (p + of_nat (4 * (Suc k + q))) = ?st ! q) \<and>
      (\<forall>q < Suc k. load32 ?r (p + of_nat (4 * q)) = load32 ?m (p + of_nat (4 * q))) \<and>
      (\<forall>y. 4 * K \<le> unat (y - p) \<longrightarrow>
         ?r y = (if \<exists>j < length cs. y = s + (i + 1) + of_nat j \<and> cs ! j \<in> set ds then 0 else ?m y))"
      by (rule Cons.IH [OF _ _ room k])
    have e1: "cut_loop p s d (of_nat (length ds)) (length (c # cs)) i (of_nat k) m = ?r"
      using True by (simp add: del add.assoc) (simp add: add.commute)
    have e2: "piece_starts ds (s + i) (c # cs) = (s + i + 1) # ?st" using True by (simp add: add.assoc)
    have old: "load32 ?m (p + of_nat (4 * q)) = load32 m (p + of_nat (4 * q))" if "q < k" for q
    proof -
      have "load32 ?m (p + of_nat (4 * q)) = load32 (m(s + i := 0)) (p + of_nat (4 * q))"
        by (rule within_load32_apart [OF within_store32 [of 4]]) (use that k K in auto)
      also have "\<dots> = load32 m (p + of_nat (4 * q))"
        by (rule word_load_outside [where K = K]) (use that k K here in auto)
      finally show ?thesis .
    qed
    show ?thesis
      unfolding e1 e2 cases_ex
    proof (intro conjI allI impI)
      fix q assume "q < length ((s + i + 1) # ?st)"
      then show "load32 ?r (p + of_nat (4 * (k + q))) = ((s + i + 1) # ?st) ! q"
      proof (cases q)
        case 0
        then show ?thesis using IH by (simp del: of_nat_mult)
      next
        case (Suc q')
        then have "k + q = Suc k + q'" by simp
        then show ?thesis using IH Suc \<open>q < length _\<close> by (simp only: nth_Cons_Suc) simp
      qed
    next
      fix q assume "q < k"
      then show "load32 ?r (p + of_nat (4 * q)) = load32 m (p + of_nat (4 * q))" using IH old by simp
    next
      fix y assume y: "4 * K \<le> unat (y - p)"
      then have "?r y = (if \<exists>j < length cs. y = s + (i + 1) + of_nat j \<and> cs ! j \<in> set ds then 0 else ?m y)"
        using IH by blast
      then show "?r y = (if y = s + i \<and> c \<in> set ds \<or> (\<exists>j < length cs. y = s + (i + 1) + of_nat j \<and> cs ! j \<in> set ds)
          then 0 else m y)"
        unfolding out [OF y] using True by auto
    qed
  qed
qed simp

section \<open>The pieces of a string\<close>

lemma strtok_pieces:
  assumes A: "holds h A" "(s, n) \<in> set A" and str: "cstr (ram h) s xs" "length xs < unat n"
    and del: "cstr (ram h) d ds" "unat d + length ds < unat (heap_begin h)"
    and small: "4 * length (split_at ds xs) < 2147483000"
    and room: "heap_room h (4 * length (split_at ds xs) + 12 + k)"
  shows "\<exists>p h'. strtok s d h = Some (Ret p, of_nat (length (split_at ds xs)), h') \<and>
    holds h' ((p, of_nat (4 * length (split_at ds xs))) # A) \<and>
    list_all2 (cstr (ram h')) (map (\<lambda>q. load32 (ram h') (p + of_nat (4 * q))) [0..<length (split_at ds xs)]) (split_at ds xs) \<and>
    map (\<lambda>q. load32 (ram h') (p + of_nat (4 * q))) [0..<length (split_at ds xs)] = s # piece_starts ds s xs \<and>
    ram h' (s + of_nat (length xs)) = 0 \<and> heap_room h' k \<and> outside_heap h' = outside_heap h \<and>
    (\<forall>y. outside_heap h y \<longrightarrow> ram h' y = ram h y) \<and>
    (\<forall>b l y. (b, l) \<in> set A \<longrightarrow> b \<noteq> s \<longrightarrow> in_range b l y \<longrightarrow> ram h' y = ram h y)"
proof -
  let ?K = "length (split_at ds xs)"
  let ?st = "piece_starts ds s xs"
  have K: "?K = Suc (length ?st)" by (rule length_split_at)
  have n4: "of_nat ?K * 4 = (of_nat (4 * ?K) :: uint32)" by simp
  have u4: "unat (of_nat (4 * ?K) :: uint32) = 4 * ?K" using small by (intro unat_of_nat_small) simp
  then have sz: "size_ok (of_nat (4 * ?K))" using small K by (simp add: size_ok_def unat_eq_0 [symmetric] del: of_nat_mult)
  from malloc_heap_room [of h "of_nat (4 * ?K)" k] room u4 sz
  obtain p h1 where m: "malloc h (of_nat (4 * ?K)) = Some (Ret p, h1)" and room1: "heap_room h1 k" by auto
  note al = holds_alloc [OF A(1) sz m]
  have xs: "\<forall>j < length xs. ram h (s + 0 + of_nat j) = xs ! j" using str(1) by (simp add: cstr_nth)
  have len: "strlen (ram h) s = Some (of_nat (length xs))" "strlen (ram h) d = Some (of_nat (length ds))"
    using strlen_cstr str(1) del(1) by blast+
  have ux: "unat (of_nat (length xs) :: uint32) = length xs" using cstr_length [OF str(1)] by (simp add: unat_of_nat_small)
  have cnt: "count_loop (ram h) s d (of_nat (length ds)) (length xs) 0 1 = of_nat ?K"
    using count_loop_starts [OF del(1) xs, of 1 s] K by simp
  have same_s: "ram h1 (s + of_nat j) = ram h (s + of_nat j)" if "j \<le> length xs" for j
  proof -
    have "in_range s n (s + of_nat j)"
      using that str(2) unat_of_nat_small [of j] cstr_length [OF str(1)] by (simp add: in_range_def word_less_nat_alt)
    with al A(2) show ?thesis by blast
  qed
  have same_d: "ram h1 (d + of_nat j) = ram h (d + of_nat j)" if "j \<le> length ds" for j
  proof (rule malloc_below [OF _ sz m])
    show "heap_good h" using A(1) by (simp add: holds_def)
    show "unat (d + of_nat j) < unat (heap_begin h)"
      using that del(2) unat32_lt [of "heap_begin h"] unat_of_nat_small [of j] by (simp add: unat_add_small)
  qed
  have out: "4 * ?K \<le> unat (s + of_nat j - p)" if "j \<le> length xs" for j
  proof -
    have "in_range s n (s + of_nat j)"
      using that str(2) unat_of_nat_small [of j] cstr_length [OF str(1)] by (simp add: in_range_def word_less_nat_alt)
    moreover have "p \<noteq> s" using holds_head_fresh [of h1 p _ A s n] al A(2) by auto
    ultimately have "\<not> in_range p (of_nat (4 * ?K)) (s + of_nat j)"
      using holds_apart [of h1 _ s n p "of_nat (4 * ?K)"] al A(2) by auto
    then show ?thesis using u4 by (simp add: in_range_def word_less_nat_alt not_less del: of_nat_mult)
  qed
  have out_d: "4 * ?K \<le> unat (d + of_nat j - p)" if "j \<le> length ds" for j
  proof -
    have "unat (d + of_nat j) = unat d + j"
      using that del(2) unat32_lt [of "heap_begin h"] unat_of_nat_small [of j] by (simp add: unat_add_small)
    moreover have "unat (heap_begin h) + 8 \<le> unat p"
      using holds_above_begin [of h1 _ p "of_nat (4 * ?K)"] al malloc_begin [OF m] by auto
    moreover have "unat p + 4 * ?K + 4 < 4294967296"
      using holds_in_memory [of h1 _ p "of_nat (4 * ?K)"] al u4 by auto
    ultimately show ?thesis using that del(2) by (simp add: unat_sub_word)
  qed
  let ?m = "store32 (ram h1) (p + of_nat (4 * 0)) s"
  have w: "within (ram h1) ?m p (4 * ?K)"
    by (rule within_mono [OF within_store32 [of 4]]) (use K small in auto)
  have sm: "?m y = ram h1 y" if "4 * ?K \<le> unat (y - p)" for y using w that by (simp add: within_def)
  have cd: "cstr ?m d ds" 
  proof (rule cstr_frame [OF del(1)])
    fix j assume "j \<le> length ds"
    then show "?m (d + of_nat j) = ram h (d + of_nat j)" using sm [OF out_d] same_d by auto
  qed
  have cx: "\<forall>j < length xs. ?m (s + 0 + of_nat j) = xs ! j" 
  proof (intro allI impI)
    fix j assume "j < length xs"
    then show "?m (s + 0 + of_nat j) = xs ! j" using sm [OF out, of j] same_s [of j] xs by auto
  qed
  have "unat (heap_begin h) + 8 \<le> unat s" "unat s + unat n + 4 < 4294967296"
    using holds_above_begin [OF A] holds_in_memory [OF A] by auto
  then have sd: "s + of_nat j \<noteq> d + of_nat l" if "j < length xs" "l \<le> length ds" for j l
  proof -
    have "unat (d + of_nat l) = unat d + l"
      using that del(2) unat32_lt [of "heap_begin h"] unat_of_nat_small [of l] by (simp add: unat_add_small)
    moreover have "unat (s + of_nat j) = unat s + j"
      using that str(2) \<open>unat s + unat n + 4 < _\<close> unat_of_nat_small [of j] by (simp add: unat_add_small)
    ultimately show ?thesis using that del(2) \<open>unat (heap_begin h) + 8 \<le> unat s\<close> by auto
  qed
  have "length xs < 4294967295" using str(2) unat32_lt [of n] by simp
  then have cr: "cut_room p ?K (s + 0) (length xs) d (length ds)" "1 + length (piece_starts ds (s + 0) xs) \<le> ?K"
    using small out out_d sd K by (auto simp: cut_room_def)
  let ?r = "cut_loop p s d (of_nat (length ds)) (length xs) 0 (of_nat 1) ?m"
  from cut_loop_spec [OF cd cx cr]
  have r: "\<forall>q < length ?st. load32 ?r (p + of_nat (4 * Suc q)) = ?st ! q"
    "load32 ?r (p + of_nat (4 * 0)) = s"
    "\<forall>y. 4 * ?K \<le> unat (y - p) \<longrightarrow> ?r y = (if \<exists>j < length xs. y = s + of_nat j \<and> xs ! j \<in> set ds then 0 else ?m y)"
    by (simp_all del: of_nat_mult)
  have words: "map (\<lambda>q. load32 ?r (p + of_nat (4 * q))) [0..<?K] = s # ?st"
  proof (rule nth_equalityI)
    fix q assume "q < length (map (\<lambda>q. load32 ?r (p + of_nat (4 * q))) [0..<?K])"
    then show "map (\<lambda>q. load32 ?r (p + of_nat (4 * q))) [0..<?K] ! q = (s # ?st) ! q"
      using r(1,2) K by (cases q) (simp_all del: of_nat_mult upt_Suc)
  qed (use K in simp)
  have only: "?r y = ram h1 y" if y: "\<not> in_range p (of_nat (4 * ?K)) y" "\<not> in_range s n y" for y
  proof -
    have far: "4 * ?K \<le> unat (y - p)" using y(1) u4 by (simp add: in_range_def word_less_nat_alt not_less del: of_nat_mult)
    have "in_range s n (s + of_nat j)" if "j < length xs" for j
      using that str(2) unat_of_nat_small [of j] cstr_length [OF str(1)] by (simp add: in_range_def word_less_nat_alt)
    then have no: "\<not> (\<exists>j < length xs. y = s + of_nat j \<and> xs ! j \<in> set ds)" using y(2) by blast
    have "?r y = (if \<exists>j < length xs. y = s + of_nat j \<and> xs ! j \<in> set ds then 0 else ?m y)"
      using r(3) far by blast
    then show "?r y = ram h1 y" by (simp only: if_not_P [OF no] sm [OF far])
  qed
  let ?h' = "h1\<lparr>ram := ?r\<rparr>"
  have fin1: "strtok s d h = Some (Ret p, of_nat ?K, ?h')"
    by (simp add: strtok_def len ux cnt n4 m Let_def del: of_nat_mult)
  have inj: "s + of_nat i = s + of_nat j \<longleftrightarrow> i = j" if "i \<le> length xs" "j \<le> length xs" for i j
    using that \<open>length xs < 4294967295\<close> by (simp add: of_nat_inj32)
  have rv: "?r (s + of_nat j) = (if j < length xs \<and> xs ! j \<in> set ds then 0 else ram h (s + of_nat j))"
    if j: "j \<le> length xs" for j
  proof -
    have "(\<exists>i < length xs. s + of_nat j = s + of_nat i \<and> xs ! i \<in> set ds) \<longleftrightarrow> j < length xs \<and> xs ! j \<in> set ds"
      using inj j by (metis less_imp_le_nat)
    with r(3) out [OF j] sm [OF out [OF j]] same_s [OF j] show ?thesis by simp
  qed
  have end0: "?r (s + of_nat (length xs)) = 0" using rv [of "length xs"] str(1) by (simp add: cstr_nth)
  have "list_all2 (cstr ?r) (s # ?st) (split_at ds xs)"
  proof (rule pieces_cstr)
    show "0 \<notin> set xs" using str(1) by (auto simp: cstr_nth in_set_conv_nth)
    show "?r (s + of_nat (length xs)) = 0" by (rule end0)
    show "\<forall>j < length xs. ?r (s + of_nat j) = (if xs ! j \<in> set ds then 0 else xs ! j)"
      using rv xs by simp
  qed
  then have fin2: "list_all2 (cstr (ram ?h')) (map (\<lambda>q. load32 (ram ?h') (p + of_nat (4 * q))) [0..<?K]) (split_at ds xs)"
    using words by simp
  have fin3: "holds ?h' ((p, of_nat (4 * ?K)) # A)"
  proof (rule holds_write2)
    show "holds h1 ((p, of_nat (4 * ?K)) # A)" using al by blast
    show "(p, of_nat (4 * ?K)) \<in> set ((p, of_nat (4 * ?K)) # A)" "(s, n) \<in> set ((p, of_nat (4 * ?K)) # A)"
      using A(2) by (simp_all del: of_nat_mult)
  qed (rule only)
  have fin4: "map (\<lambda>q. load32 (ram ?h') (p + of_nat (4 * q))) [0..<?K] = s # ?st" using words by simp
  have end1: "ram ?h' (s + of_nat (length xs)) = 0" using end0 by simp
  have fin5: "heap_room ?h' k" using fin3 by (rule holds_room_ram [OF _ room1])
  have fin6: "outside_heap ?h' = outside_heap h" by (simp add: malloc_outside_eq [OF m])
  have frame: "ram ?h' y = ram h y" if y: "\<not> in_range p (of_nat (4 * ?K)) y" "\<not> in_range s n y" "ram h1 y = ram h y" for y
    using only [OF y(1,2)] y(3) by simp
  have fin7: "ram ?h' y = ram h y" if y: "outside_heap h y" for y
  proof (rule frame)
    have y1: "outside_heap h1 y" using y malloc_outside_eq [OF m] by simp
    have A1: "holds h1 ((p, of_nat (4 * ?K)) # A)" "(p, of_nat (4 * ?K)) \<in> set ((p, of_nat (4 * ?K)) # A)"
      "(s, n) \<in> set ((p, of_nat (4 * ?K)) # A)" using al A(2) by (simp_all del: of_nat_mult)
    have r0: "heap_room h1 0" using room1 by (auto simp: heap_room_def)
    show "\<not> in_range p (of_nat (4 * ?K)) y" "\<not> in_range s n y" using holds_not_outside [OF A1(1) _ r0 y1] A1(2,3) by blast+
    show "ram h1 y = ram h y" by (rule malloc_outside [OF _ sz m y]) (use room u4 in \<open>simp add: heap_room_def\<close>)
  qed
  have fin8: "ram ?h' y = ram h y" if b: "(b, l) \<in> set A" "b \<noteq> s" "in_range b l y" for b l y
  proof (rule frame)
    have A1: "holds h1 ((p, of_nat (4 * ?K)) # A)" "p \<noteq> b" using al b(1) holds_head_fresh [of h1 p _ A b l] by auto
    then show "\<not> in_range p (of_nat (4 * ?K)) y"
      using holds_apart [OF A1(1), of b l p "of_nat (4 * ?K)"] b by (auto simp del: of_nat_mult)
    show "\<not> in_range s n y" using holds_apart [OF A(1) b(1) A(2)] b by blast
    show "ram h1 y = ram h y" using al b by blast
  qed
  show ?thesis
    by (rule exI [of _ p], rule exI [of _ ?h'], intro conjI allI impI)
      (fact end1 | fact fin1 fin2 fin3 fin4 fin5 fin6 | erule fin7 | erule (2) fin8)+
qed

text \<open>
  C33. \<open>strtok\<close> of a string in a live block of the heap, with the delimiters in the kernel image
  and enough room in the heap, returns: the length is the number of pieces, the array is a new
  block of the heap, and its words point to the pieces in their order, each a terminated string;
  all other blocks stay allocated.
\<close>

theorem strtok_splits:
  assumes A: "holds h A" "(s, n) \<in> set A" and str: "cstr (ram h) s xs" "length xs < unat n"
    and del: "cstr (ram h) d ds" "unat d + length ds < unat (heap_begin h)"
    and small: "4 * length (split_at ds xs) < 2147483000"
    and room: "heap_room h (4 * length (split_at ds xs) + 12 + k)"
  shows "\<exists>p h'. strtok s d h = Some (Ret p, of_nat (length (split_at ds xs)), h') \<and>
    holds h' ((p, of_nat (4 * length (split_at ds xs))) # A) \<and>
    list_all2 (cstr (ram h')) (map (\<lambda>q. load32 (ram h') (p + of_nat (4 * q))) [0..<length (split_at ds xs)]) (split_at ds xs)"
  using strtok_pieces [OF assms] by blast

definition sample_words :: mm_state where
  "sample_words = sample_heap1\<lparr>ram := (ram sample_heap1)(0x200008 := 97, 0x200009 := 32, 0x20000A := 98, 0x100 := 32)\<rparr>"

theorem strtok_splits_witness:
  "\<exists>p h'. strtok 0x200008 0x100 sample_words = Some (Ret p, 2, h') \<and>
     list_all2 (cstr (ram h')) [load32 (ram h') p, load32 (ram h') (p + 4)] [[97], [98]]"
proof -
  have ok: "heap_ok sample_words [(1, 100)]"
    by (simp add: heap_ok_def heap_inv_def sample_words_def sample_heap1_def sample_heap_def a_status_def a_size_def load32_def)
  then have good: "heap_good sample_words" by (auto simp: heap_good_def)
  have "(0x200008, 100) \<in> heap_live sample_words"
    unfolding heap_live_eq [OF ok] by (auto simp: live_of_def sample_words_def sample_heap1_def sample_heap_def)
  then have h: "holds sample_words [(0x200008, 100)]" using good by (auto simp: holds_def)
  have s: "cstr (ram sample_words) 0x200008 [97, 32, 98]" "cstr (ram sample_words) 0x100 [32]"
    by (simp_all add: sample_words_def sample_heap1_def)
  have "heap_room sample_words (4 * length (split_at [32] [97, 32, 98]) + 12 + 0)"
    using good by (simp add: heap_room_def sample_words_def sample_heap1_def sample_heap_def)
  from strtok_splits [OF h _ s(1) _ s(2) _ _ this, of 100] show ?thesis
    by (auto simp: sample_words_def sample_heap1_def sample_heap_def upt_rec)
qed

end
