(* ===== verification/Vfs.thy ===== *)
theory Vfs
  imports Devices Strtok Mem_Utils
begin

text \<open>
  The mount table, \<open>src/fs/vfs.c\<close>. \<open>mount_points\<close> is an array of pointers in a block of the heap and
  a \<open>mount_info_t\<close> is two words, its path and its device. No file system is part of the program:
  what a device's \<open>fs\<close> points to is the parameter \<open>fs\<close>. \<open>root\<close> is the address of the literal
  \<open>"/"\<close>; \<open>sched\<close> and \<open>lk\<close> are what \<open>memcpy\<close> takes. \<open>None\<close> is a call that never returns. Messages
  are left out, with the names that \<open>vfs_ls\<close> prints; \<open>list_mount\<close> is in \<open>Device_Print\<close>.
\<close>

section \<open>The code\<close>

definition MAX_MOUNTS :: nat where "MAX_MOUNTS = 16"

record vfs_state = dev_state +
  init_vfs :: uint8
  mount_points :: addr
  last_mount_id :: uint32

record filesystem_t =
  fs_read :: "addr \<Rightarrow> addr \<Rightarrow> addr \<Rightarrow> addr \<Rightarrow> vfs_state \<Rightarrow> (uint8 \<times> vfs_state) option"
  fs_read_dir :: "addr \<Rightarrow> addr \<Rightarrow> addr \<Rightarrow> addr \<Rightarrow> vfs_state \<Rightarrow> (uint8 \<times> vfs_state) option"
  fs_exist :: "addr \<Rightarrow> addr \<Rightarrow> addr \<Rightarrow> vfs_state \<Rightarrow> (uint8 \<times> vfs_state) option"
  fs_priv_data :: addr

definition vram :: "vfs_state \<Rightarrow> mem" where "vram s = ram (dmm s)"

definition set_vram :: "mem \<Rightarrow> vfs_state \<Rightarrow> vfs_state" where "set_vram m s = s\<lparr>dmm := (dmm s)\<lparr>ram := m\<rparr>\<rparr>"

text \<open>\<open>mount_points[i]\<close>, and the fields of a mount.\<close>

definition mount_at :: "mem \<Rightarrow> addr \<Rightarrow> nat \<Rightarrow> addr" where "mount_at m mp i = load32 m (mp + of_nat (4 * i))"
definition mount_loc :: "mem \<Rightarrow> addr \<Rightarrow> addr" where "mount_loc m p = load32 m p"
definition mount_dev :: "mem \<Rightarrow> addr \<Rightarrow> addr" where "mount_dev m p = load32 m (p + 4)"

fun check_mount_loop :: "mem \<Rightarrow> addr \<Rightarrow> addr \<Rightarrow> nat \<Rightarrow> nat \<Rightarrow> addr option" where
  "check_mount_loop m mp loc 0 i = Some 0"
| "check_mount_loop m mp loc (Suc n) i = do {
     r \<leftarrow> strcmp m loc (mount_loc m (mount_at m mp i));
     if r = 0 then Some (mount_dev m (mount_at m mp i)) else check_mount_loop m mp loc n (i + 1)
   }"

definition check_mount :: "addr \<Rightarrow> vfs_state \<Rightarrow> addr option" where
  "check_mount loc s = check_mount_loop (vram s) (mount_points s) loc (nat (sint (last_mount_id s))) 0"

definition device_try_to_mount :: "addr \<Rightarrow> addr \<Rightarrow> vfs_state \<Rightarrow> uint8 option" where
  "device_try_to_mount dev loc s =
     (if dev = 0 \<or> dv_unique_id (devs s dev) = 0 then Some 0
      else do { d \<leftarrow> check_mount loc s; if d \<noteq> 0 then Some 0 else Some 0 })"

text \<open>The loop over the table: the first mount with this path. It stops at an empty entry.\<close>

fun mount_search :: "mem \<Rightarrow> addr \<Rightarrow> addr \<Rightarrow> nat \<Rightarrow> nat \<Rightarrow> nat option option" where
  "mount_search m mp path 0 i = Some None"
| "mount_search m mp path (Suc n) i =
     (if mount_at m mp i = 0 then Some None
      else do {
        r \<leftarrow> strcmp m (mount_loc m (mount_at m mp i)) path;
        if r = 0 then Some (Some i) else mount_search m mp path n (i + 1) })"

text \<open>The outer loop of \<open>__find_mount\<close>, which cuts the path until a mount has it or it is \<open>"/"\<close>.\<close>

partial_function (option) find_mount_loop :: "addr \<Rightarrow> addr \<Rightarrow> addr \<Rightarrow> mem \<Rightarrow> (nat option \<times> mem) option" where
  "find_mount_loop root mp orig m = do {
     r \<leftarrow> mount_search m mp orig MAX_MOUNTS 0;
     case r of Some i \<Rightarrow> Some (Some i, m)
     | None \<Rightarrow> do {
         e \<leftarrow> strcmp m orig root;
         if e = 0 then Some (None, m)
         else do { (x, m') \<leftarrow> str_backspace m orig 47; find_mount_loop root mp orig m' } }
   }"

text \<open>The copies of the paths: a block of the heap with a copy of the string and \<open>extra\<close> bytes.\<close>

definition copy_path :: "(mem \<Rightarrow> mem) \<Rightarrow> addr \<Rightarrow> uint32 \<Rightarrow> addr \<Rightarrow> vfs_state \<Rightarrow> (addr outcome \<times> vfs_state) option" where
  "copy_path sched lk extra path s = do {
     n \<leftarrow> strlen (vram s) path;
     (r, h) \<leftarrow> malloc (dmm s) (n + extra);
     case r of Panic \<Rightarrow> Some (Panic, s\<lparr>dmm := h\<rparr>)
     | Ret p \<Rightarrow> do {
         m \<leftarrow> memcpy sched lk (memset (ram h) p 0 (n + extra)) p path (n + 1);
         Some (Ret p, s\<lparr>dmm := h\<lparr>ram := m\<rparr>\<rparr>) }
   }"

text \<open>
  \<open>__find_mount\<close>: the index of the mount and \<open>*adjust\<close>, which is written on a match only. The test
  for a trailing slash looks at the terminator of the string.
\<close>

definition find_mount ::
  "(mem \<Rightarrow> mem) \<Rightarrow> addr \<Rightarrow> addr \<Rightarrow> addr \<Rightarrow> uint32 \<Rightarrow> vfs_state \<Rightarrow> ((nat \<times> uint32) outcome \<times> vfs_state) option" where
  "find_mount sched lk root filename adjust s = do {
     (r, s1) \<leftarrow> copy_path sched lk 1 filename s;
     case r of Panic \<Rightarrow> Some (Panic, s1)
     | Ret orig \<Rightarrow> do {
         n \<leftarrow> strlen (vram s1) orig;
         m1 \<leftarrow> (if vram s1 (orig + n) = 47 then map_option snd (str_backspace (vram s1) orig 47) else Some (vram s1));
         (found, m2) \<leftarrow> find_mount_loop root (mount_points s1) orig m1;
         let s2 = set_vram m2 s1;
         case found of None \<Rightarrow> Some (Ret (0, adjust), s2)
         | Some i \<Rightarrow> do {
             k \<leftarrow> strlen m2 orig;
             Some (Ret (i, k - 1), s2\<lparr>dmm := free (dmm s2) orig\<rparr>) } }
   }"

definition vfs_read ::
  "(addr \<Rightarrow> filesystem_t) \<Rightarrow> (mem \<Rightarrow> mem) \<Rightarrow> addr \<Rightarrow> addr \<Rightarrow> addr \<Rightarrow> addr \<Rightarrow> vfs_state \<Rightarrow> (uint8 outcome \<times> vfs_state) option" where
  "vfs_read fs sched lk root filename buffer s = do {
     (r, s1) \<leftarrow> find_mount sched lk root filename 0 s;
     case r of Panic \<Rightarrow> Some (Panic, s1)
     | Ret (i, adjust) \<Rightarrow>
         (let d = mount_dev (vram s1) (mount_at (vram s1) (mount_points s1) i); f = dv_fs (devs s1 d)
          in map_option (\<lambda>(v, s2). (Ret v, s2))
               (fs_read (fs f) (filename + adjust) buffer d (fs_priv_data (fs f)) s1))
   }"

text \<open>
  The loop of \<open>vfs_ls\<close> over the mounts that may lie in the directory; it copies their paths and
  does not free the copy when the rest of the path is at most one character long.
\<close>

fun ls_mounts ::
  "(mem \<Rightarrow> mem) \<Rightarrow> addr \<Rightarrow> addr \<Rightarrow> nat \<Rightarrow> nat \<Rightarrow> vfs_state \<Rightarrow> (unit outcome \<times> vfs_state) option" where
  "ls_mounts sched lk dir 0 k s = Some (Ret (), s)"
| "ls_mounts sched lk dir (Suc n) k s =
     (let p = mount_at (vram s) (mount_points s) k
      in if p = 0 then Some (Ret (), s)
         else do {
           l \<leftarrow> strlen (vram s) (mount_loc (vram s) p);
           (r, h) \<leftarrow> malloc (dmm s) (l + 1);
           case r of Panic \<Rightarrow> Some (Panic, s\<lparr>dmm := h\<rparr>)
           | Ret mount \<Rightarrow> do {
               m \<leftarrow> memcpy sched lk (ram h) mount (mount_loc (ram h) p) (l + 1);
               (x, m1) \<leftarrow> str_backspace m mount 47;
               let s1 = s\<lparr>dmm := h\<lparr>ram := m1\<rparr>\<rparr>;
               e \<leftarrow> strcmp m1 mount dir;
               if e = 0 then do {
                 dl \<leftarrow> strlen m1 dir;
                 pl \<leftarrow> strlen m1 (mount_loc m1 p + dl);
                 if pl = 0 \<or> pl = 1 then ls_mounts sched lk dir n (k + 1) s1
                 else ls_mounts sched lk dir n (k + 1) (s1\<lparr>dmm := free (dmm s1) mount\<rparr>) }
               else ls_mounts sched lk dir n (k + 1) (s1\<lparr>dmm := free (dmm s1) mount\<rparr>) } })"

partial_function (option) vfs_ls_loop ::
  "(addr \<Rightarrow> filesystem_t) \<Rightarrow> (mem \<Rightarrow> mem) \<Rightarrow> addr \<Rightarrow> addr \<Rightarrow> addr \<Rightarrow> addr \<Rightarrow> addr \<Rightarrow> vfs_state \<Rightarrow> (unit outcome \<times> vfs_state) option" where
  "vfs_ls_loop fs sched lk root dir buffer orig s = do {
     r \<leftarrow> mount_search (vram s) (mount_points s) orig MAX_MOUNTS 0;
     (o1, s1) \<leftarrow> (case r of None \<Rightarrow> Some (Ret (), s)
       | Some i \<Rightarrow> do {
           let p = mount_at (vram s) (mount_points s) i;
           let d = mount_dev (vram s) p;
           let f = dv_fs (devs s d);
           l \<leftarrow> strlen (vram s) (mount_loc (vram s) p);
           (v, s1) \<leftarrow> fs_read_dir (fs f) (dir + l - 1) buffer d (fs_priv_data (fs f)) s;
           ls_mounts sched lk dir MAX_MOUNTS 0 s1 });
     if o1 = Panic then Some (Panic, s1)
     else do {
       e \<leftarrow> strcmp (vram s1) orig root;
       if e = 0 then Some (Ret (), s1)
       else do {
         (x, m) \<leftarrow> str_backspace (vram s1) orig 47;
         vfs_ls_loop fs sched lk root dir buffer orig (set_vram m s1) } }
   }"

definition vfs_ls ::
  "(addr \<Rightarrow> filesystem_t) \<Rightarrow> (mem \<Rightarrow> mem) \<Rightarrow> addr \<Rightarrow> addr \<Rightarrow> addr \<Rightarrow> addr \<Rightarrow> vfs_state \<Rightarrow> (uint32 outcome \<times> vfs_state) option" where
  "vfs_ls fs sched lk root dir buffer s = do {
     (r, s1) \<leftarrow> copy_path sched lk 1 dir s;
     case r of Panic \<Rightarrow> Some (Panic, s1)
     | Ret orig \<Rightarrow> do {
         (o1, s2) \<leftarrow> vfs_ls_loop fs sched lk root dir buffer orig s1;
         case o1 of Panic \<Rightarrow> Some (Panic, s2) | Ret _ \<Rightarrow> Some (Ret 1, s2\<lparr>dmm := free (dmm s2) orig\<rparr>) }
   }"

text \<open>
  The path that \<open>vfs_exist_in_dir\<close> builds: the directory, the name and, since the terminator is
  never a slash, a slash.
\<close>

definition join_path :: "(mem \<Rightarrow> mem) \<Rightarrow> addr \<Rightarrow> addr \<Rightarrow> addr \<Rightarrow> vfs_state \<Rightarrow> (addr outcome \<times> vfs_state) option" where
  "join_path sched lk wd fn s = do {
     a \<leftarrow> strlen (vram s) wd;
     b \<leftarrow> strlen (vram s) fn;
     (r, h) \<leftarrow> malloc (dmm s) (a + 2 + b);
     case r of Panic \<Rightarrow> Some (Panic, s\<lparr>dmm := h\<rparr>)
     | Ret filename \<Rightarrow> do {
         m1 \<leftarrow> memcpy sched lk (memset (ram h) filename 0 (a + 2 + b)) filename wd a;
         m2 \<leftarrow> memcpy sched lk m1 (filename + a) fn b;
         let m3 = memset m2 (filename + a + b + 1) 0 1;
         index \<leftarrow> strlen m3 filename;
         let m4 = (if m3 (filename + index) \<noteq> 47 then m3(filename + index := 47, filename + index + 1 := 0) else m3);
         Some (Ret filename, s\<lparr>dmm := h\<lparr>ram := m4\<rparr>\<rparr>) }
   }"

definition vfs_exist_in_dir ::
  "(addr \<Rightarrow> filesystem_t) \<Rightarrow> (mem \<Rightarrow> mem) \<Rightarrow> addr \<Rightarrow> addr \<Rightarrow> addr \<Rightarrow> addr \<Rightarrow> vfs_state \<Rightarrow> (uint8 outcome \<times> vfs_state) option" where
  "vfs_exist_in_dir fs sched lk root wd fn s = do {
     (r, s1) \<leftarrow> join_path sched lk wd fn s;
     case r of Panic \<Rightarrow> Some (Panic, s1)
     | Ret filename \<Rightarrow> do {
         (ro, s2) \<leftarrow> copy_path sched lk 2 filename s1;
         case ro of Panic \<Rightarrow> Some (Panic, s2)
         | Ret o1 \<Rightarrow> do {
             (found, m) \<leftarrow> find_mount_loop root (mount_points s2) o1 (vram s2);
             let s3 = set_vram m s2;
             case found of
               None \<Rightarrow> (let s4 = s3\<lparr>dmm := free (dmm s3) o1\<rparr> in Some (Ret 0, s4\<lparr>dmm := free (dmm s4) filename\<rparr>))
             | Some i \<Rightarrow> do {
                 let p = mount_at m (mount_points s3) i;
                 let d = mount_dev m p;
                 let f = dv_fs (devs s3 d);
                 l \<leftarrow> strlen m (mount_loc m p);
                 let file = filename + (l - 1);
                 (rc, s4) \<leftarrow> fs_exist (fs f) file d (fs_priv_data (fs f)) s3;
                 let s5 = s4\<lparr>dmm := free (dmm s4) o1\<rparr>;
                 Some (Ret rc, s5\<lparr>dmm := free (dmm s5) file\<rparr>) } } }
   }"

definition vfs_init :: "vfs_state \<Rightarrow> (unit outcome \<times> vfs_state) option" where
  "vfs_init s = do {
     (r, h) \<leftarrow> malloc (dmm s) (4 * of_nat MAX_MOUNTS);
     case r of Panic \<Rightarrow> Some (Panic, s\<lparr>dmm := h\<rparr>)
     | Ret p \<Rightarrow> Some (Ret (), s\<lparr>dmm := h, mount_points := p, init_vfs := 1\<rparr>)
   }"

section \<open>Which mount a path belongs to\<close>

text \<open>The table holds mounts with the paths \<open>ls\<close>, in this order.\<close>

definition mounts_hold :: "mem \<Rightarrow> addr \<Rightarrow> uint8 list list \<Rightarrow> bool" where
  "mounts_hold m mp ls \<longleftrightarrow> length ls \<le> MAX_MOUNTS \<and>
     (\<forall>i < length ls. mount_at m mp i \<noteq> 0 \<and> cstr m (mount_loc m (mount_at m mp i)) (ls ! i)) \<and>
     (length ls < MAX_MOUNTS \<longrightarrow> mount_at m mp (length ls) = 0)"

text \<open>Neither the table nor the literal depends on the \<open>n\<close> bytes at \<open>p\<close>.\<close>

definition table_apart :: "mem \<Rightarrow> addr \<Rightarrow> nat \<Rightarrow> addr \<Rightarrow> uint8 list list \<Rightarrow> addr \<Rightarrow> bool" where
  "table_apart m p n mp ls root \<longleftrightarrow>
     (\<forall>m'. within m m' p n \<longrightarrow> mounts_hold m' mp ls \<and> cstr m' root [47])"

definition mount_index :: "uint8 list list \<Rightarrow> uint8 list \<Rightarrow> nat option" where
  "mount_index ls xs = find (\<lambda>i. ls ! i = xs) [0..<length ls]"

text \<open>The path up to its last slash, the one at the front excepted.\<close>

definition parent :: "uint8 list \<Rightarrow> uint8 list" where
  "parent xs = (case last_pos 47 xs (length xs) of None \<Rightarrow> xs | Some j \<Rightarrow> take (Suc j) xs)"

lemma parent_parent [simp]: "parent (parent xs) = parent xs"
proof (cases "last_pos 47 xs (length xs)")
  case (Some j)
  note j = last_pos_range [OF Some]
  have "length (take (Suc j) xs) = Suc j" "take (Suc j) xs ! j = 47" using j by auto
  then have "last_pos 47 (take (Suc j) xs) (length (take (Suc j) xs)) = Some j" using last_pos_here j by simp
  with Some show ?thesis by (simp add: parent_def)
qed (simp add: parent_def)

lemma parent_cases: "parent xs = xs \<or> (1 < length (parent xs) \<and> length (parent xs) < length xs)"
  using last_pos_range [of 47 xs "length xs"] by (auto simp: parent_def split: option.split)

lemma mount_search_index:
  assumes "mounts_hold m mp ls" "cstr m path xs" "n + i = MAX_MOUNTS" "i \<le> length ls"
  shows "mount_search m mp path n i = Some (find (\<lambda>i. ls ! i = xs) [i..<length ls])"
  using assms
proof (induction n arbitrary: i)
  case 0
  then show ?case by (simp add: mounts_hold_def)
next
  case (Suc n)
  show ?case
  proof (cases "i < length ls")
    case True
    then have "mount_at m mp i \<noteq> 0" "cstr m (mount_loc m (mount_at m mp i)) (ls ! i)"
      using Suc.prems(1) by (auto simp: mounts_hold_def)
    moreover have "[i..<length ls] = i # [Suc i..<length ls]" using True by (simp add: upt_conv_Cons)
    moreover have "Suc i \<le> length ls" "n + Suc i = MAX_MOUNTS" using True Suc.prems by simp_all
    ultimately show ?thesis
      using Suc.IH [of "Suc i"] Suc.prems(1,2) by (simp add: strcmp_cstr [OF _ Suc.prems(2)])
  next
    case False
    then have "mount_at m mp i = 0" using Suc.prems by (auto simp: mounts_hold_def)
    then show ?thesis using False by simp
  qed
qed

lemma table_apart_mono:
  assumes "table_apart m p n mp ls root" "within m m' p n"
  shows "table_apart m' p n mp ls root" "mounts_hold m' mp ls" "cstr m' root [47]"
  using assms within_trans unfolding table_apart_def by blast+

lemma str_backspace_parent:
  assumes "cstr m s xs" "xs \<noteq> []"
  shows "\<exists>x. str_backspace m s 47 = Some (x, m(s + of_nat (length (parent xs)) := 0))"
proof (cases "last_pos 47 xs (length xs)")
  case None
  then have "m(s + of_nat (length (parent xs)) := 0) = m" using assms(1) by (auto simp: parent_def cstr_nth fun_upd_idem)
  then show ?thesis using str_backspace_last_pos [OF assms, of 47] None by simp
next
  case (Some j)
  then have "length (parent xs) = Suc j" using last_pos_range [OF Some] by (simp add: parent_def)
  then show ?thesis using str_backspace_last_pos [OF assms, of 47] Some by (simp del: of_nat_Suc)
qed

lemma find_mount_stuck:
  assumes path: "cstr m orig xs" "xs \<noteq> []" "xs \<noteq> [47]" "parent xs = xs"
    and table: "mounts_hold m mp ls" "cstr m root [47]" "mount_index ls xs = None"
  shows "find_mount_loop root mp orig m = None"
proof -
  have search: "mount_search m mp orig MAX_MOUNTS 0 = Some None"
    using mount_search_index [OF table(1) path(1), of MAX_MOUNTS 0] table(3) by (simp add: mount_index_def)
  have cmp: "strcmp m orig root = Some e \<Longrightarrow> e \<noteq> 0" for e
    using strcmp_cstr [OF path(1) table(2)] path(3) by (auto split: if_splits)
  have "m(orig + of_nat (length (parent xs)) := 0) = m" using path(1,4) by (simp add: cstr_nth fun_upd_idem)
  then obtain x where bk: "str_backspace m orig 47 = Some (x, m)" using str_backspace_parent [OF path(1,2)] by auto
  let ?P = "\<lambda>root' mp' orig' m' r. \<not> (root' = root \<and> mp' = mp \<and> orig' = orig \<and> m' = m)"
  have "?P root mp orig m r" if "find_mount_loop root mp orig m = Some r" for r
  proof (rule find_mount_loop.raw_induct [where P = ?P, OF _ that])
    fix f :: "addr \<Rightarrow> addr \<Rightarrow> addr \<Rightarrow> mem \<Rightarrow> (nat option \<times> mem) option" and root' mp' orig' m' r
    assume IH: "\<And>a b c d r. f a b c d = Some r \<Longrightarrow> ?P a b c d r"
      and body: "(do {
         r \<leftarrow> mount_search m' mp' orig' MAX_MOUNTS 0;
         case r of Some i \<Rightarrow> Some (Some i, m')
         | None \<Rightarrow> do {
             e \<leftarrow> strcmp m' orig' root';
             if e = 0 then Some (None, m')
             else do { (x, m'') \<leftarrow> str_backspace m' orig' 47; f root' mp' orig' m'' } } }) = Some r"
    show "?P root' mp' orig' m' r"
    proof
      assume "root' = root \<and> mp' = mp \<and> orig' = orig \<and> m' = m"
      with body have "f root mp orig m = Some r"
        by (auto simp: search bk split: bind_splits if_splits dest: cmp)
      with IH show False by blast
    qed
  qed
  then show ?thesis by (cases "find_mount_loop root mp orig m") auto
qed

lemma find_mount_loop_result:
  assumes path: "cstr m orig xs" "xs \<noteq> []" and apart: "table_apart m orig (Suc (length xs)) mp ls root"
  shows "find_mount_loop root mp orig m =
    (case mount_index ls xs of
       Some i \<Rightarrow> Some (Some i, m)
     | None \<Rightarrow>
         if xs = [47] then Some (None, m)
         else case mount_index ls (parent xs) of
             Some i \<Rightarrow> Some (Some i, m(orig + of_nat (length (parent xs)) := 0))
           | None \<Rightarrow> None)"
proof -
  have "within m m orig (Suc (length xs))" by (simp add: within_def)
  then have here: "mounts_hold m mp ls" "cstr m root [47]" using table_apart_mono [OF apart] by blast+
  have search: "mount_search m mp orig MAX_MOUNTS 0 = Some (mount_index ls xs)"
    using mount_search_index [OF here(1) path(1), of MAX_MOUNTS 0] by (simp add: mount_index_def)
  show ?thesis
  proof (cases "mount_index ls xs")
    case (Some i)
    then show ?thesis by (subst find_mount_loop.simps) (simp add: search)
  next
    case None
    show ?thesis
    proof (cases "xs = [47]")
      case True
      then show ?thesis using None strcmp_cstr [OF path(1) here(2)]
        by (subst find_mount_loop.simps) (simp add: search)
    next
      case False
      let ?m = "m(orig + of_nat (length (parent xs)) := 0)"
      obtain x where bk: "str_backspace m orig 47 = Some (x, ?m)" using str_backspace_parent [OF path] by blast
      have step: "find_mount_loop root mp orig m = find_mount_loop root mp orig ?m"
        using None False strcmp_cstr [OF path(1) here(2)] by (subst find_mount_loop.simps) (simp add: search bk)
      have cut: "cstr ?m orig (parent xs)"
      proof (cases "last_pos 47 xs (length xs)")
        case None
        then show ?thesis using path(1) by (simp add: parent_def cstr_nth fun_upd_idem)
      next
        case (Some j)
        then have "length (parent xs) = Suc j" "parent xs = take (Suc j) xs" "j < length xs"
          using last_pos_range [OF Some] by (simp_all add: parent_def)
        then show ?thesis using cstr_cut [OF path(1), of j] by (simp only:)
      qed
      have len: "length (parent xs) \<le> length xs" "parent xs \<noteq> []" "parent xs \<noteq> [47]"
        using parent_cases [of xs] path(2) False by auto
      have "length xs < 4294967296" by (rule cstr_length [OF path(1)])
      then have "unat (orig + of_nat (length (parent xs)) - orig) = length (parent xs)"
        using len(1) by (simp add: unat_of_nat_small)
      then have "within m ?m orig (Suc (length xs))" using len(1) by (auto simp: within_def)
      note table = table_apart_mono [OF apart this]
      show ?thesis
      proof (cases "mount_index ls (parent xs)")
        case (Some i)
        have "mount_search ?m mp orig MAX_MOUNTS 0 = Some (Some i)"
          using mount_search_index [OF table(2) cut, of MAX_MOUNTS 0] Some by (simp add: mount_index_def)
        then have "find_mount_loop root mp orig ?m = Some (Some i, ?m)" by (subst find_mount_loop.simps) simp
        then show ?thesis using None False Some by (simp add: step)
      next
        case no: None
        then have "find_mount_loop root mp orig ?m = None"
          using find_mount_stuck [OF cut len(2,3) _ table(2,3)] by simp
        then show ?thesis using None False no by (simp add: step)
      qed
    qed
  qed
qed

text \<open>
  C36. Which mount \<open>__find_mount\<close> finds, and when it returns: a path is looked up as it is, and then
  once more cut behind its last slash; \<open>"/"\<close> falls back to the first mount. Every other path is
  searched for ever, since cutting it again changes nothing.
\<close>

theorem find_mount_outcome:
  assumes "cstr m orig xs" "xs \<noteq> []" and "table_apart m orig (Suc (length xs)) mp ls root"
  shows "find_mount_loop root mp orig m =
    (case mount_index ls xs of
       Some i \<Rightarrow> Some (Some i, m)
     | None \<Rightarrow>
         if xs = [47] then Some (None, m)
         else case mount_index ls (parent xs) of
             Some i \<Rightarrow> Some (Some i, m(orig + of_nat (length (parent xs)) := 0))
           | None \<Rightarrow> None)"
  by (rule find_mount_loop_result [OF assms])

text \<open>
  The table at 0x100 holds the mount at 0x200, whose path is \<open>"/"\<close>; the path \<open>"/a"\<close> is at 0x300 and
  the literal at 0x400.
\<close>

definition sample_mounts :: mem where
  "sample_mounts = (\<lambda>_. 0)(0x101 := 2, 0x201 := 4, 0x300 := 47, 0x301 := 97, 0x400 := 47)"

theorem find_mount_outcome_witness: "find_mount_loop 0x400 0x100 0x300 sample_mounts = None"
proof -
  have t: "mounts_hold m 0x100 [[47]] \<and> cstr m 0x400 [47]" if w: "within sample_mounts m 0x300 3" for m
  proof -
    have eq: "m y = sample_mounts y" if "unat y < 0x300 \<or> 0x303 \<le> unat y" for y
    proof -
      have "3 \<le> unat (y - 0x300)" using that unat_sub_word [of y "0x300"] unat32_lt [of y] by auto
      with w show ?thesis by (simp add: within_def)
    qed
    have "m 0x400 = 47" "m 0x401 = 0" by (simp_all add: eq sample_mounts_def)
    moreover have "load32 m 0x100 = 0x200" "load32 m 0x200 = 0x400" "load32 m 0x104 = 0"
      by (simp_all add: load32_def eq sample_mounts_def)
    ultimately show ?thesis by (simp add: mounts_hold_def mount_at_def mount_loc_def MAX_MOUNTS_def)
  qed
  have p: "cstr sample_mounts 0x300 [47, 97]" by (simp add: sample_mounts_def)
  have "table_apart sample_mounts 0x300 (Suc (length [47, 97 :: uint8])) 0x100 [[47]] 0x400"
  proof -
    have "Suc (length [47, 97 :: uint8]) = 3" by simp
    then show ?thesis unfolding table_apart_def using t by (simp only:) blast
  qed
  from find_mount_outcome [OF p _ this] show ?thesis
    by (simp add: mount_index_def parent_def numeral_eq_Suc)
qed

end
