(* ===== verification/Ata.thy ===== *)
theory Ata
  imports Devices Timer Mem_Utils
begin

text \<open>
  The disk driver, \<open>src/drivers/ata.c\<close>. The drives are behind the ports, so what they answer is
  the function \<open>dev\<close> of the trace of accesses. A loop that polls a drive is an option, \<open>None\<close> when
  the drive never gives the status the loop waits for; a drive that reports an error is a panic.
  Messages are left out, and so is the call of \<open>_kill\<close> that ends \<open>ata_init\<close>.
\<close>

section \<open>The code\<close>

definition ATA_PRIMARY_IO :: uint16 where "ATA_PRIMARY_IO = 0x1F0"
definition ATA_SECONDARY_IO :: uint16 where "ATA_SECONDARY_IO = 0x170"
definition ATA_SR_BSY :: uint8 where "ATA_SR_BSY = 0x80"
definition ATA_SR_DRQ :: uint8 where "ATA_SR_DRQ = 0x08"
definition ATA_SR_ERR :: uint8 where "ATA_SR_ERR = 0x01"
definition ATA_CMD_READ_PIO :: uint8 where "ATA_CMD_READ_PIO = 0x20"
definition ATA_CMD_WRITE_PIO :: uint8 where "ATA_CMD_WRITE_PIO = 0x30"
definition ATA_CMD_IDENTIFY :: uint8 where "ATA_CMD_IDENTIFY = 0xEC"
definition ATA_IDENT_MODEL :: uint32 where "ATA_IDENT_MODEL = 54"
definition ATA_MASTER :: uint8 where "ATA_MASTER = 0x00"
definition ATA_SLAVE :: uint8 where "ATA_SLAVE = 0x01"
definition ATA_REG_DATA :: uint16 where "ATA_REG_DATA = 0x00"
definition ATA_REG_SECCOUNT0 :: uint16 where "ATA_REG_SECCOUNT0 = 0x02"
definition ATA_REG_LBA0 :: uint16 where "ATA_REG_LBA0 = 0x03"
definition ATA_REG_LBA1 :: uint16 where "ATA_REG_LBA1 = 0x04"
definition ATA_REG_LBA2 :: uint16 where "ATA_REG_LBA2 = 0x05"
definition ATA_REG_HDDEVSEL :: uint16 where "ATA_REG_HDDEVSEL = 0x06"
definition ATA_REG_COMMAND :: uint16 where "ATA_REG_COMMAND = 0x07"
definition ATA_REG_STATUS :: uint16 where "ATA_REG_STATUS = 0x07"
definition ATA_REG_ALTSTATUS :: uint16 where "ATA_REG_ALTSTATUS = 0x0C"
definition ATA_PRIMARY :: uint8 where "ATA_PRIMARY = 0x00"
definition ATA_SECONDARY :: uint8 where "ATA_SECONDARY = 0x01"
definition ATA_WRITE :: uint8 where "ATA_WRITE = 0x013"

lemmas ata_regs = ATA_REG_DATA_def ATA_REG_SECCOUNT0_def ATA_REG_LBA0_def ATA_REG_LBA1_def ATA_REG_LBA2_def
  ATA_REG_HDDEVSEL_def ATA_REG_COMMAND_def ATA_REG_STATUS_def ATA_REG_ALTSTATUS_def

lemmas ata_drives = ATA_MASTER_def ATA_SLAVE_def ATA_PRIMARY_def ATA_SECONDARY_def

record ata_state = dev_state +
  ports :: trace
  timer :: pit_state
  privs :: "addr \<Rightarrow> uint8"
  ata_pm :: uint8
  ide_buf :: addr

definition ide_select_drive :: "uint8 \<Rightarrow> uint8 \<Rightarrow> trace \<Rightarrow> trace" where
  "ide_select_drive bus i tr =
     (if bus = ATA_PRIMARY then
        (if i = ATA_MASTER then outportb (ATA_PRIMARY_IO + ATA_REG_HDDEVSEL) 0xA0 tr
         else outportb (ATA_PRIMARY_IO + ATA_REG_HDDEVSEL) 0xB0 tr)
      else if i = ATA_MASTER then outportb (ATA_SECONDARY_IO + ATA_REG_HDDEVSEL) 0xA0 tr
      else outportb (ATA_SECONDARY_IO + ATA_REG_HDDEVSEL) 0xB0 tr)"

text \<open>Reading the status until the busy bit is clear.\<close>

partial_function (option) ide_wait_bsy :: "device \<Rightarrow> uint16 \<Rightarrow> trace \<Rightarrow> trace option" where
  "ide_wait_bsy dev io tr =
     (let r = inportb dev (io + ATA_REG_STATUS) tr
      in if fst r AND ATA_SR_BSY \<noteq> 0 then ide_wait_bsy dev io (snd r) else Some (snd r))"

text \<open>The \<open>goto pm_start_read\<close> loop of \<open>ide_identify\<close>, which looks at a status read before.\<close>

partial_function (option) ide_start_read :: "uint8 \<Rightarrow> bool option" where
  "ide_start_read status =
     (if status AND ATA_SR_ERR \<noteq> 0 then Some False
      else if status AND ATA_SR_DRQ = 0 then ide_start_read status
      else Some True)"

text \<open>The words of a sector; \<open>n\<close> rounds are left.\<close>

fun read_words :: "device \<Rightarrow> uint16 \<Rightarrow> nat \<Rightarrow> uint32 \<Rightarrow> addr \<Rightarrow> trace \<times> mem \<Rightarrow> trace \<times> mem" where
  "read_words dev io 0 i buf s = s"
| "read_words dev io (Suc n) i buf s =
     (let r = inportw dev (io + ATA_REG_DATA) (fst s)
      in read_words dev io n (i + 1) buf (snd r, store16 (snd s) (buf + i * 2) (fst r)))"

fun write_words :: "uint16 \<Rightarrow> nat \<Rightarrow> uint32 \<Rightarrow> addr \<Rightarrow> mem \<Rightarrow> trace \<Rightarrow> trace" where
  "write_words io 0 i buf m tr = tr"
| "write_words io (Suc n) i buf m tr =
     write_words io n (i + 1) buf m (outportw (io + ATA_REG_DATA) (load16 m (buf + i * 2)) tr)"

definition ata_set_task :: "uint8 \<Rightarrow> ata_state \<Rightarrow> ata_state" where
  "ata_set_task i s = s\<lparr>timer := set_task i (timer s)\<rparr>"

text \<open>The transfers run with task switches turned off.\<close>

definition read_sector :: "device \<Rightarrow> uint16 \<Rightarrow> addr \<Rightarrow> ata_state \<Rightarrow> ata_state" where
  "read_sector dev io buf s =
     (let (tr, m) = read_words dev io 256 0 buf (ports s, ram (dmm s))
      in s\<lparr>ports := tr, dmm := (dmm s)\<lparr>ram := m\<rparr>\<rparr>)"

definition ide_identify :: "device \<Rightarrow> uint8 \<Rightarrow> uint8 \<Rightarrow> ata_state \<Rightarrow> (uint8 \<times> ata_state) option" where
  "ide_identify dev bus drive s =
     (let io = (if bus = ATA_PRIMARY then ATA_PRIMARY_IO else ATA_SECONDARY_IO);
          t1 = ide_select_drive bus drive (ports s);
          t2 = outportb (io + ATA_REG_SECCOUNT0) 0 t1;
          t3 = outportb (io + ATA_REG_LBA0) 0 t2;
          t4 = outportb (io + ATA_REG_LBA1) 0 t3;
          t5 = outportb (io + ATA_REG_LBA2) 0 t4;
          t6 = outportb (io + ATA_REG_COMMAND) ATA_CMD_IDENTIFY t5;
          (status, t7) = inportb dev (io + ATA_REG_STATUS) t6
      in if status = 0 then Some (0, s\<lparr>ports := t7\<rparr>)
         else do {
           t8 \<leftarrow> ide_wait_bsy dev io t7;
           online \<leftarrow> ide_start_read status;
           let s1 = s\<lparr>ports := t8\<rparr>;
           Some (if \<not> online then (0, s1)
                 else (1, ata_set_task 1 (read_sector dev io (ide_buf s1) (ata_set_task 0 s1))))
         })"

text \<open>Four reads.\<close>

definition ide_400ns_delay :: "device \<Rightarrow> uint16 \<Rightarrow> trace \<Rightarrow> trace" where
  "ide_400ns_delay dev io tr = ((\<lambda>t. snd (inportb dev (io + ATA_REG_ALTSTATUS) t)) ^^ 4) tr"

text \<open>The second loop of \<open>ide_poll\<close>.\<close>

partial_function (option) ide_wait_drq :: "device \<Rightarrow> uint16 \<Rightarrow> trace \<Rightarrow> (unit outcome \<times> trace) option" where
  "ide_wait_drq dev io tr =
     (let r = inportb dev (io + ATA_REG_STATUS) tr
      in if fst r AND ATA_SR_ERR \<noteq> 0 then Some (Panic, snd r)
         else if fst r AND ATA_SR_DRQ = 0 then ide_wait_drq dev io (snd r)
         else Some (Ret (), snd r))"

definition ide_poll :: "device \<Rightarrow> uint16 \<Rightarrow> trace \<Rightarrow> (unit outcome \<times> trace) option" where
  "ide_poll dev io tr = do {
     t1 \<leftarrow> ide_wait_bsy dev io (ide_400ns_delay dev io tr);
     ide_wait_drq dev io t1
   }"

text \<open>The \<open>switch\<close> on the drive: the ports of its bus and which of the two drives it is.\<close>

definition drive_ports :: "uint8 \<Rightarrow> (uint16 \<times> uint8) option" where
  "drive_ports drive =
     (if drive = (push_bit 1 ATA_PRIMARY OR ATA_MASTER) then Some (ATA_PRIMARY_IO, ATA_MASTER)
      else if drive = (push_bit 1 ATA_PRIMARY OR ATA_SLAVE) then Some (ATA_PRIMARY_IO, ATA_SLAVE)
      else if drive = (push_bit 1 ATA_SECONDARY OR ATA_MASTER) then Some (ATA_SECONDARY_IO, ATA_MASTER)
      else if drive = (push_bit 1 ATA_SECONDARY OR ATA_SLAVE) then Some (ATA_SECONDARY_IO, ATA_SLAVE)
      else None)"

text \<open>The registers of a transfer, with the value for \<open>io + 1\<close> and the command.\<close>

definition send_command :: "uint16 \<Rightarrow> uint8 \<Rightarrow> uint32 \<Rightarrow> uint8 \<Rightarrow> uint8 \<Rightarrow> trace \<Rightarrow> trace" where
  "send_command io drive lba feature command tr =
     (let cmd = (if drive = ATA_MASTER then 0xE0 else 0xF0);
          t1 = outportb (io + ATA_REG_HDDEVSEL) (cmd OR ucast (drop_bit 24 lba AND 0x0f)) tr;
          t2 = outportb (io + 1) feature t1;
          t3 = outportb (io + ATA_REG_SECCOUNT0) 1 t2;
          t4 = outportb (io + ATA_REG_LBA0) (ucast lba) t3;
          t5 = outportb (io + ATA_REG_LBA1) (ucast (drop_bit 8 lba)) t4;
          t6 = outportb (io + ATA_REG_LBA2) (ucast (drop_bit 16 lba)) t5
      in outportb (io + ATA_REG_COMMAND) command t6)"

definition ata_drive :: "addr \<Rightarrow> ata_state \<Rightarrow> uint8" where
  "ata_drive dp s = privs s (dv_priv (devs s dp))"

definition ata_read_one :: "device \<Rightarrow> addr \<Rightarrow> uint32 \<Rightarrow> addr \<Rightarrow> ata_state \<Rightarrow> (uint8 outcome \<times> ata_state) option" where
  "ata_read_one dev buf lba dp s =
     (case drive_ports (ata_drive dp s) of
        None \<Rightarrow> Some (Ret 0, s)
      | Some (io, drive) \<Rightarrow> do {
          (r, t1) \<leftarrow> ide_poll dev io (send_command io drive lba 0 ATA_CMD_READ_PIO (ports s));
          let s1 = s\<lparr>ports := t1\<rparr>;
          Some (case r of
              Panic \<Rightarrow> (Panic, ata_set_task 0 s1)
            | Ret _ \<Rightarrow>
                (let s2 = read_sector dev io buf (ata_set_task 0 s1);
                     s3 = s2\<lparr>ports := ide_400ns_delay dev io (ports s2)\<rparr>
                 in (Ret 1, ata_set_task 1 s3)))
        })"

definition ata_write_one :: "device \<Rightarrow> addr \<Rightarrow> uint32 \<Rightarrow> addr \<Rightarrow> ata_state \<Rightarrow> (uint8 outcome \<times> ata_state) option" where
  "ata_write_one dev buf lba dp s =
     (case drive_ports (ata_drive dp s) of
        None \<Rightarrow> Some (Ret 0, s)
      | Some (io, drive) \<Rightarrow> do {
          (r, t1) \<leftarrow> ide_poll dev io (send_command io drive lba ATA_WRITE ATA_CMD_WRITE_PIO (ports s));
          let s1 = s\<lparr>ports := t1\<rparr>;
          Some (case r of
              Panic \<Rightarrow> (Panic, ata_set_task 0 s1)
            | Ret _ \<Rightarrow>
                (let s2 = ata_set_task 0 s1;
                     s3 = s2\<lparr>ports := write_words io 256 0 buf (ram (dmm s2)) (ports s2)\<rparr>;
                     s4 = s3\<lparr>ports := ide_400ns_delay dev io (ports s3)\<rparr>
                 in (Ret 1, ata_set_task 1 s4)))
        })"

text \<open>The loops over the sectors; what the transfer of one sector returns is not looked at.\<close>

fun ata_read_loop :: "device \<Rightarrow> nat \<Rightarrow> addr \<Rightarrow> uint32 \<Rightarrow> addr \<Rightarrow> ata_state \<Rightarrow> (uint8 outcome \<times> ata_state) option" where
  "ata_read_loop dev 0 buf lba dp s = Some (Ret 1, s)"
| "ata_read_loop dev (Suc n) buf lba dp s = do {
     (r, s1) \<leftarrow> ata_read_one dev buf lba dp s;
     (case r of Panic \<Rightarrow> Some (Panic, s1) | Ret _ \<Rightarrow> ata_read_loop dev n (buf + 512) (lba + 1) dp s1)
   }"

fun ata_write_loop :: "device \<Rightarrow> nat \<Rightarrow> addr \<Rightarrow> uint32 \<Rightarrow> addr \<Rightarrow> ata_state \<Rightarrow> (uint8 outcome \<times> ata_state) option" where
  "ata_write_loop dev 0 buf lba dp s = Some (Ret 1, s)"
| "ata_write_loop dev (Suc n) buf lba dp s = do {
     (r, s1) \<leftarrow> ata_write_one dev buf lba dp s;
     (case r of Panic \<Rightarrow> Some (Panic, s1) | Ret _ \<Rightarrow> ata_write_loop dev n (buf + 512) (lba + 1) dp s1)
   }"

definition ata_read :: "device \<Rightarrow> addr \<Rightarrow> uint32 \<Rightarrow> uint32 \<Rightarrow> addr \<Rightarrow> ata_state \<Rightarrow> (uint8 outcome \<times> ata_state) option" where
  "ata_read dev buf lba numsects dp s = ata_read_loop dev (unat numsects) buf lba dp s"

definition ata_write :: "device \<Rightarrow> addr \<Rightarrow> uint32 \<Rightarrow> uint32 \<Rightarrow> addr \<Rightarrow> ata_state \<Rightarrow> (uint8 outcome \<times> ata_state) option" where
  "ata_write dev buf lba numsects dp s = ata_write_loop dev (unat numsects) buf lba dp s"

text \<open>The model name: the bytes of each word of the answer to IDENTIFY are swapped.\<close>

fun copy_model :: "nat \<Rightarrow> uint32 \<Rightarrow> addr \<Rightarrow> addr \<Rightarrow> mem \<Rightarrow> mem" where
  "copy_model 0 i str buf m = m"
| "copy_model (Suc n) i str buf m =
     (let m1 = m(str + i := m (buf + ATA_IDENT_MODEL + i + 1));
          m2 = m1(str + i + 1 := m1 (buf + ATA_IDENT_MODEL + i))
      in copy_model n (i + 2) str buf m2)"

definition ata_probe :: "device \<Rightarrow> ata_state \<Rightarrow> (unit outcome \<times> ata_state) option" where
  "ata_probe dev s = do {
     (found, s1) \<leftarrow> ide_identify dev ATA_PRIMARY ATA_MASTER s;
     (r, s2) \<leftarrow> (if found = 0 then Some (Ret (), s1) else do {
        let s1a = s1\<lparr>ata_pm := 1\<rparr>;
        (rd, h1) \<leftarrow> malloc (dmm s1a) sizeof_device;
        (case rd of Panic \<Rightarrow> Some (Panic, s1a\<lparr>dmm := h1\<rparr>) | Ret dp \<Rightarrow> do {
          (rp, h2) \<leftarrow> malloc h1 1;
          (case rp of Panic \<Rightarrow> Some (Panic, s1a\<lparr>dmm := h2\<rparr>) | Ret priv \<Rightarrow> do {
            (rs, h3) \<leftarrow> malloc h2 40;
            (case rs of Panic \<Rightarrow> Some (Panic, s1a\<lparr>dmm := h3\<rparr>) | Ret str \<Rightarrow>
              (let h4 = h3\<lparr>ram := copy_model 20 0 str (ide_buf s1a) (ram h3)\<rparr>;
                   d = \<lparr>dv_name = str, dv_unique_id = 32, dv_type = DEVICE_BLOCK, dv_fs = 0,
                        dv_read = Ata_read, dv_write = Ata_write, dv_priv = priv\<rparr>;
                   s3 = s1a\<lparr>dmm := h4, devs := (devs s1a)(dp := d),
                        privs := (privs s1a)(priv := push_bit 1 ATA_PRIMARY OR ATA_MASTER)\<rparr>
               in Some (Ret (), snd (device_add dp s3)))) }) }) });
     (case r of Panic \<Rightarrow> Some (Panic, s2) | Ret _ \<Rightarrow> do {
        (_, s3) \<leftarrow> ide_identify dev ATA_PRIMARY ATA_SLAVE s2;
        Some (Ret (), s3) })
   }"

definition ata_init :: "device \<Rightarrow> ata_state \<Rightarrow> (unit outcome \<times> ata_state) option" where
  "ata_init dev s = do {
     (r, h) \<leftarrow> malloc (dmm s) 512;
     (case r of Panic \<Rightarrow> Some (Panic, s\<lparr>dmm := h\<rparr>) | Ret p \<Rightarrow> ata_probe dev (s\<lparr>dmm := h, ide_buf := p\<rparr>))
   }"

section \<open>A disk\<close>

text \<open>
  What the protocol promises of a pair of drives on one bus: an access changes the registers and
  the transfer that is under way, and the answer to a read is a function of them. \<open>disk_of\<close> replays
  the trace; the other bit of the drive register selects the drive.
\<close>

datatype disk_mode = Idle | Reading nat | Writing "uint16 list"

record disk =
  dk_sel :: uint8
  dk_l0 :: uint8
  dk_l1 :: uint8
  dk_l2 :: uint8
  dk_mode :: disk_mode
  dk_data :: "bool \<Rightarrow> uint32 \<Rightarrow> uint16 list"

definition dk_drive :: "disk \<Rightarrow> bool" where "dk_drive d = bit (dk_sel d) 4"

definition dk_lba :: "disk \<Rightarrow> uint32" where
  "dk_lba d = push_bit 24 (ucast (dk_sel d AND 0x0f)) OR push_bit 16 (ucast (dk_l2 d)) OR
     push_bit 8 (ucast (dk_l1 d)) OR ucast (dk_l0 d)"

definition set_sector :: "disk \<Rightarrow> uint16 list \<Rightarrow> disk" where
  "set_sector d ws = d\<lparr>dk_mode := Idle,
     dk_data := (dk_data d)(dk_drive d := (dk_data d (dk_drive d))(dk_lba d := ws))\<rparr>"

fun disk_event :: "uint16 \<Rightarrow> io_event \<Rightarrow> disk \<Rightarrow> disk" where
  "disk_event io (OutB p v) d =
     (if p = io + 6 then d\<lparr>dk_sel := v\<rparr>
      else if p = io + 3 then d\<lparr>dk_l0 := v\<rparr>
      else if p = io + 4 then d\<lparr>dk_l1 := v\<rparr>
      else if p = io + 5 then d\<lparr>dk_l2 := v\<rparr>
      else if p = io + 7 \<and> v = 0x20 then d\<lparr>dk_mode := Reading 0\<rparr>
      else if p = io + 7 \<and> v = 0x30 then d\<lparr>dk_mode := Writing []\<rparr>
      else d)"
| "disk_event io (OutW p v) d =
     (if p = io then
        (case dk_mode d of
           Writing ws \<Rightarrow> if length ws = 255 then set_sector d (ws @ [v]) else d\<lparr>dk_mode := Writing (ws @ [v])\<rparr>
         | _ \<Rightarrow> d)
      else d)"
| "disk_event io (InW p v) d =
     (if p = io then
        (case dk_mode d of
           Reading k \<Rightarrow> d\<lparr>dk_mode := (if k = 255 then Idle else Reading (Suc k))\<rparr>
         | _ \<Rightarrow> d)
      else d)"
| "disk_event io _ d = d"

definition disk_of :: "uint16 \<Rightarrow> disk \<Rightarrow> trace \<Rightarrow> disk" where
  "disk_of io d0 tr = foldr (disk_event io) tr d0"

definition disk_reply :: "uint16 \<Rightarrow> disk \<Rightarrow> device" where
  "disk_reply io d0 tr p =
     (let d = disk_of io d0 tr
      in if p = io + 7 then (case dk_mode d of Idle \<Rightarrow> 0x40 | _ \<Rightarrow> 0x48)
         else if p = io then (case dk_mode d of Reading k \<Rightarrow> ucast (dk_data d (dk_drive d) (dk_lba d) ! k) | _ \<Rightarrow> 0)
         else 0)"

lemma disk_of_Cons [simp]: "disk_of io d0 (e # tr) = disk_event io e (disk_of io d0 tr)"
  by (simp add: disk_of_def)

text \<open>The registers carry every sector number below \<open>2^28\<close>.\<close>

lemma lba_registers:
  assumes "unat lba < 2 ^ 28" "sel = 0xE0 \<or> sel = 0xF0"
    and "dk_sel d = sel OR ucast (drop_bit 24 lba AND 0x0f)" "dk_l0 d = ucast lba" "dk_l1 d = ucast (drop_bit 8 lba)"
    "dk_l2 d = ucast (drop_bit 16 lba)"
  shows "dk_lba d = lba" "dk_drive d \<longleftrightarrow> sel = 0xF0"
proof -
  have top: "\<not> bit lba n" if "28 \<le> n" for n
  proof -
    have "lba = take_bit 28 lba"
      using assms(1) by (simp add: word_unat_eq_iff unsigned_take_bit_eq take_bit_nat_eq_self)
    then show ?thesis using that by (metis bit_take_bit_iff not_less)
  qed
  have f: "(0xf :: uint32) = mask 4" "(0xf :: uint8) = mask 4" by (simp_all add: mask_eq_exp_minus_1)
  have s: "bit sel n \<longleftrightarrow> n = 5 \<or> n = 6 \<or> n = 7 \<or> n = 4 \<and> sel = 0xF0" for n
  proof (cases "n < 8")
    case True
    then have "n \<in> {0, 1, 2, 3, 4, 5, 6, 7}" by auto
    with assms(2) show ?thesis by auto
  qed (use bit_imp_le_length [of sel n] in auto)
  show "dk_lba d = lba"
    unfolding dk_lba_def assms(3-6) f
  proof (rule bit_word_eqI)
    fix n assume "n < LENGTH(32)"
    then consider "n < 8" | "8 \<le> n" "n < 16" | "16 \<le> n" "n < 24" | "24 \<le> n" "n < 28" | "28 \<le> n" by fastforce
    then show "bit (push_bit 24 (ucast ((sel OR ucast (drop_bit 24 lba AND mask 4)) AND mask 4)) OR
        push_bit 16 (ucast (ucast (drop_bit 16 lba) :: uint8)) OR
        push_bit 8 (ucast (ucast (drop_bit 8 lba) :: uint8)) OR ucast (ucast lba :: uint8) :: uint32) n = bit lba n"
      by cases (auto simp: bit_simps s top)
  qed
  show "dk_drive d \<longleftrightarrow> sel = 0xF0"
    unfolding dk_drive_def assms(3) f using s by (auto simp: bit_simps)
qed

text \<open>A command leaves the drive with its sector selected and the transfer begun.\<close>

definition selected :: "disk \<Rightarrow> bool \<Rightarrow> uint32 \<Rightarrow> disk_mode \<Rightarrow> (bool \<Rightarrow> uint32 \<Rightarrow> uint16 list) \<Rightarrow> bool" where
  "selected d drv lba md data \<longleftrightarrow> dk_drive d = drv \<and> dk_lba d = lba \<and> dk_mode d = md \<and> dk_data d = data"

lemma send_command_selects:
  assumes "unat lba < 2 ^ 28" "dk_mode (disk_of io d0 tr) = Idle" "command = 0x20 \<or> command = 0x30"
  shows "selected (disk_of io d0 (send_command io drive lba feature command tr)) (drive \<noteq> ATA_MASTER) lba
    (if command = 0x20 then Reading 0 else Writing []) (dk_data (disk_of io d0 tr))"
proof -
  let ?sel = "if drive = ATA_MASTER then 0xE0 else 0xF0 :: uint8"
  let ?d = "disk_of io d0 (send_command io drive lba feature command tr)"
  have d: "?d = (disk_of io d0 tr)\<lparr>dk_sel := ?sel OR ucast (drop_bit 24 lba AND 0x0f), dk_l0 := ucast lba,
      dk_l1 := ucast (drop_bit 8 lba), dk_l2 := ucast (drop_bit 16 lba),
      dk_mode := (if command = 0x20 then Reading 0 else Writing [])\<rparr>"
    using assms(3) by (auto simp: send_command_def Let_def outportb_def ata_regs)
  have "dk_lba ?d = lba" "dk_drive ?d \<longleftrightarrow> ?sel = 0xF0"
    by (rule lba_registers [OF assms(1), of ?sel]; simp add: d)+
  then show ?thesis by (simp add: selected_def d)
qed

lemma status_reply:
  "ucast (disk_reply io d0 tr (io + ATA_REG_STATUS)) = (if dk_mode (disk_of io d0 tr) = Idle then 0x40 else 0x48 :: uint8)"
  by (simp add: disk_reply_def ata_regs Let_def split: disk_mode.split)

lemma disk_of_InB [simp]: "disk_of io d0 (snd (inportb dev p tr)) = disk_of io d0 tr"
  by (simp add: inportb_def Let_def)

lemma word_through_port [simp]: "ucast (ucast w :: uint32) = w" for w :: uint16
  by (rule bit_word_eqI) (auto simp: bit_simps)

lemma delay_disk [simp]: "disk_of io d0 (ide_400ns_delay dev p tr) = disk_of io d0 tr"
proof -
  have "disk_of io d0 (((\<lambda>t. snd (inportb dev q t)) ^^ n) tr) = disk_of io d0 tr" for n q
    by (induction n) simp_all
  then show ?thesis by (simp add: ide_400ns_delay_def)
qed

lemma ide_poll_ready:
  assumes "dk_mode (disk_of io d0 tr) \<noteq> Idle"
  shows "\<exists>t. ide_poll (disk_reply io d0) io tr = Some (Ret (), t) \<and> disk_of io d0 t = disk_of io d0 tr"
proof -
  have st: "fst (inportb (disk_reply io d0) (io + ATA_REG_STATUS) t) = 0x48"
    if "disk_of io d0 t = disk_of io d0 tr" for t
    using assms that status_reply [of io d0 t] by (simp add: inportb_def)
  let ?t0 = "ide_400ns_delay (disk_reply io d0) io tr"
  let ?t1 = "snd (inportb (disk_reply io d0) (io + ATA_REG_STATUS) ?t0)"
  have "ide_wait_bsy (disk_reply io d0) io ?t0 = Some ?t1"
    by (subst ide_wait_bsy.simps) (simp add: st Let_def ATA_SR_BSY_def)
  moreover have "ide_wait_drq (disk_reply io d0) io ?t1 = Some (Ret (), snd (inportb (disk_reply io d0) (io + ATA_REG_STATUS) ?t1))"
    by (subst ide_wait_drq.simps) (simp add: st Let_def ATA_SR_ERR_def ATA_SR_DRQ_def)
  ultimately show ?thesis by (simp add: ide_poll_def)
qed

section \<open>The words of a sector\<close>

fun put_words :: "addr \<Rightarrow> uint16 list \<Rightarrow> mem \<Rightarrow> mem" where
  "put_words p [] m = m"
| "put_words p (w # ws) m = put_words (p + 2) ws (store16 m p w)"

definition mem_words :: "mem \<Rightarrow> addr \<Rightarrow> nat \<Rightarrow> uint16 list" where
  "mem_words m p n = map (\<lambda>j. load16 m (p + of_nat (2 * j))) [0..<n]"

text \<open>Byte \<open>t\<close> of a sequence of words.\<close>

definition word_byte :: "uint16 list \<Rightarrow> nat \<Rightarrow> uint8" where
  "word_byte ws t = (if even t then ucast (ws ! (t div 2)) else ucast (drop_bit 8 (ws ! (t div 2))))"

lemma put_words_apply:
  "2 * length ws < 4294967296 \<Longrightarrow>
     put_words p ws m x = (if unat (x - p) < 2 * length ws then word_byte ws (unat (x - p)) else m x)"
proof (induction ws arbitrary: p m)
  case (Cons w ws)
  have two: "unat (2 :: addr) = 2" by simp
  have "unat (x - (p + 2)) = unat (x - p - 2)" by (simp add: diff_diff_eq)
  then have u: "unat (x - (p + 2)) = (if 2 \<le> unat (x - p) then unat (x - p) - 2 else 4294967294 + unat (x - p))"
    using unat_sub_word [of "x - p" 2] by (simp only: two) simp
  have IH: "put_words p (w # ws) m x =
      (if unat (x - (p + 2)) < 2 * length ws then word_byte ws (unat (x - (p + 2))) else store16 m p w x)"
    using Cons by simp
  consider "unat (x - p) = 0" | "unat (x - p) = 1" | "2 \<le> unat (x - p)" by linarith
  then show ?case
  proof cases
    case 1
    then have "x = p" by (simp add: unat_eq_0)
    with 1 show ?thesis using IH u Cons.prems by (simp add: store16_def word_byte_def)
  next
    case 2
    then have "x - p = 1" by (metis unat_1 word_unat_eq_iff)
    then have "x = p + 1" by (simp add: diff_eq_eq add.commute)
    with 2 show ?thesis using IH u Cons.prems by (simp add: store16_def word_byte_def)
  next
    case 3
    then have ne: "x \<noteq> p" "x \<noteq> p + 1" by auto
    obtain k where k: "unat (x - p) = Suc (Suc k)" using 3 by (metis add_2_eq_Suc le_Suc_ex)
    show ?thesis using IH u Cons.prems ne k by (simp add: store16_def word_byte_def)
  qed
qed simp

lemma word_byte_mem:
  assumes "t < 2 * n"
  shows "word_byte (mem_words m p n) t = m (p + of_nat t)"
proof -
  have b: "ucast (load16 m a) = m a" "ucast (drop_bit 8 (load16 m a)) = m (a + 1)" for a
    unfolding load16_def by (rule bit_word_eqI, auto simp: bit_simps dest: bit_imp_le_length)+
  have w: "mem_words m p n ! (t div 2) = load16 m (p + of_nat (2 * (t div 2)))"
  proof -
    have "t div 2 < n" using assms by linarith
    then show ?thesis by (simp add: mem_words_def del: of_nat_mult)
  qed
  show ?thesis
  proof (cases "even t")
    case True
    then have "2 * (t div 2) = t" by simp
    then show ?thesis using True b(1) by (simp only: word_byte_def w) simp
  next
    case False
    then have "t = 2 * (t div 2) + 1" by presburger
    then have "p + of_nat t = p + of_nat (2 * (t div 2)) + 1" by (metis add.assoc of_nat_1 of_nat_add)
    then show ?thesis using False b(2) by (simp only: word_byte_def w) simp
  qed
qed

lemma read_words_disk:
  assumes "k + Suc n = 256" "selected (disk_of io d0 (fst s)) drv lba (Reading k) data"
  shows "snd (read_words (disk_reply io d0) io (Suc n) i buf s) =
      put_words (buf + i * 2) (map (\<lambda>j. data drv lba ! j) [k..<256]) (snd s) \<and>
    selected (disk_of io d0 (fst (read_words (disk_reply io d0) io (Suc n) i buf s))) drv lba Idle data"
  using assms
proof (induction n arbitrary: k i s)
  case 0
  then have "k = 255" by simp
  with 0 show ?case
    by (simp add: inportw_def ata_regs selected_def dk_drive_def dk_lba_def disk_reply_def Let_def upt_rec)
next
  case (Suc n)
  let ?r = "inportw (disk_reply io d0) (io + ATA_REG_DATA) (fst s)"
  let ?s = "(snd ?r, store16 (snd s) (buf + i * 2) (fst ?r))"
  have k: "k < 255" using Suc.prems(1) by simp
  have "selected (disk_of io d0 (fst ?s)) drv lba (Reading (Suc k)) data"
    using Suc.prems(2) k by (simp add: Let_def inportw_def ata_regs selected_def dk_drive_def dk_lba_def)
  moreover have "Suc k + Suc n = 256" using Suc.prems(1) by simp
  ultimately have IH: "snd (read_words (disk_reply io d0) io (Suc n) (i + 1) buf ?s) =
      put_words (buf + (i + 1) * 2) (map (\<lambda>j. data drv lba ! j) [Suc k..<256]) (snd ?s) \<and>
    selected (disk_of io d0 (fst (read_words (disk_reply io d0) io (Suc n) (i + 1) buf ?s))) drv lba Idle data"
    using Suc.IH by blast
  have "fst ?r = data drv lba ! k"
    using Suc.prems(2) by (simp add: inportw_def ata_regs selected_def disk_reply_def Let_def)
  moreover have "[k..<256] = k # [Suc k..<256]" using k by (simp add: upt_conv_Cons)
  moreover have "read_words (disk_reply io d0) io (Suc (Suc n)) i buf s = read_words (disk_reply io d0) io (Suc n) (i + 1) buf ?s"
    by (simp only: read_words.simps Let_def)
  moreover have "buf + (i + 1) * 2 = buf + i * 2 + 2" by (simp add: algebra_simps)
  ultimately show ?case using IH by (simp del: read_words.simps add: add.assoc)
qed

lemma write_words_disk:
  assumes "length ws + Suc n = 256" "selected (disk_of io d0 tr) drv lba (Writing ws) data"
  shows "selected (disk_of io d0 (write_words io (Suc n) i buf m tr)) drv lba Idle
     (data(drv := (data drv)(lba := ws @ mem_words m (buf + i * 2) (Suc n))))"
  using assms
proof (induction n arbitrary: ws i tr)
  case 0
  then show ?case
    by (simp add: outportw_def ata_regs selected_def set_sector_def dk_drive_def dk_lba_def mem_words_def fun_eq_iff)
next
  case (Suc n)
  let ?t = "outportw (io + ATA_REG_DATA) (load16 m (buf + i * 2)) tr"
  have "length ws < 255" using Suc.prems(1) by simp
  then have "selected (disk_of io d0 ?t) drv lba (Writing (ws @ [load16 m (buf + i * 2)])) data"
    using Suc.prems(2) by (simp add: outportw_def ata_regs selected_def dk_drive_def dk_lba_def)
  from Suc.IH [OF _ this, of "i + 1"] Suc.prems(1)
  have IH: "selected (disk_of io d0 (write_words io (Suc n) (i + 1) buf m ?t)) drv lba Idle
     (data(drv := (data drv)(lba := (ws @ [load16 m (buf + i * 2)]) @ mem_words m (buf + (i + 1) * 2) (Suc n))))"
    by (simp del: write_words.simps add: fun_upd_def)
  have "mem_words m (buf + i * 2) (Suc (Suc n)) = load16 m (buf + i * 2) # mem_words m (buf + (i + 1) * 2) (Suc n)"
    unfolding mem_words_def by (simp only: upt_conv_Cons map_Suc_upt [symmetric] zero_less_Suc list.map map_map)
      (simp add: algebra_simps)
  with IH show ?case by (simp only: write_words.simps append_assoc append_Cons append_Nil)
qed

section \<open>Sectors\<close>

text \<open>Nothing but the drive, the bytes of memory and the timer changes.\<close>

definition same_devices :: "ata_state \<Rightarrow> ata_state \<Rightarrow> bool" where
  "same_devices s s' \<longleftrightarrow> privs s' = privs s \<and> devs s' = devs s"

lemma same_devices_drive: "same_devices s s' \<Longrightarrow> ata_drive dp s' = ata_drive dp s"
  by (simp add: same_devices_def ata_drive_def)

lemma same_devices_trans: "same_devices s s' \<Longrightarrow> same_devices s' s'' \<Longrightarrow> same_devices s s''"
  by (simp add: same_devices_def)

lemma ata_read_one_disk:
  assumes d: "drive_ports (ata_drive dp s) = Some (io, drive)" and lba: "unat lba < 2 ^ 28"
    and idle: "dk_mode (disk_of io d0 (ports s)) = Idle"
  defines "data \<equiv> dk_data (disk_of io d0 (ports s))"
  shows "\<exists>s'. ata_read_one (disk_reply io d0) buf lba dp s = Some (Ret 1, s') \<and> same_devices s s' \<and>
    dk_mode (disk_of io d0 (ports s')) = Idle \<and> dk_data (disk_of io d0 (ports s')) = data \<and>
    ram (dmm s') = put_words buf (map (\<lambda>j. data (drive \<noteq> ATA_MASTER) lba ! j) [0..<256]) (ram (dmm s))"
proof -
  let ?dev = "disk_reply io d0" and ?drv = "drive \<noteq> ATA_MASTER"
  let ?t0 = "send_command io drive lba 0 ATA_CMD_READ_PIO (ports s)"
  have s0: "selected (disk_of io d0 ?t0) ?drv lba (Reading 0) data"
    using send_command_selects [OF lba idle, of ATA_CMD_READ_PIO drive 0] by (simp add: ATA_CMD_READ_PIO_def data_def)
  then obtain t1 where t1: "ide_poll ?dev io ?t0 = Some (Ret (), t1)" "disk_of io d0 t1 = disk_of io d0 ?t0"
    using ide_poll_ready [of io d0 ?t0] by (auto simp: selected_def)
  obtain tr m where rw: "read_words ?dev io 256 0 buf (t1, ram (dmm s)) = (tr, m)" by (meson surj_pair)
  have "Suc 255 = 256" by simp
  from read_words_disk [of 0 255 io d0 "(t1, ram (dmm s))" ?drv lba data 0 buf, unfolded this rw] s0 t1(2)
  have m: "m = put_words buf (map (\<lambda>j. data ?drv lba ! j) [0..<256]) (ram (dmm s))"
    "selected (disk_of io d0 tr) ?drv lba Idle data" by simp_all
  then show ?thesis
    by (simp add: ata_read_one_def d t1(1) read_sector_def ata_set_task_def rw same_devices_def selected_def)
qed

lemma ata_write_one_disk:
  assumes d: "drive_ports (ata_drive dp s) = Some (io, drive)" and lba: "unat lba < 2 ^ 28"
    and idle: "dk_mode (disk_of io d0 (ports s)) = Idle"
  defines "data \<equiv> dk_data (disk_of io d0 (ports s))"
  shows "\<exists>s'. ata_write_one (disk_reply io d0) buf lba dp s = Some (Ret 1, s') \<and> same_devices s s' \<and>
    dk_mode (disk_of io d0 (ports s')) = Idle \<and> ram (dmm s') = ram (dmm s) \<and>
    dk_data (disk_of io d0 (ports s')) =
      data(drive \<noteq> ATA_MASTER := (data (drive \<noteq> ATA_MASTER))(lba := mem_words (ram (dmm s)) buf 256))"
proof -
  let ?dev = "disk_reply io d0" and ?drv = "drive \<noteq> ATA_MASTER"
  let ?t0 = "send_command io drive lba ATA_WRITE ATA_CMD_WRITE_PIO (ports s)"
  have s0: "selected (disk_of io d0 ?t0) ?drv lba (Writing []) data"
    using send_command_selects [OF lba idle, of ATA_CMD_WRITE_PIO drive ATA_WRITE] by (simp add: ATA_CMD_WRITE_PIO_def data_def)
  then obtain t1 where t1: "ide_poll ?dev io ?t0 = Some (Ret (), t1)" "disk_of io d0 t1 = disk_of io d0 ?t0"
    using ide_poll_ready [of io d0 ?t0] by (auto simp: selected_def)
  have "Suc 255 = 256" by simp
  from write_words_disk [of "[]" 255 io d0 t1 ?drv lba data 0 buf "ram (dmm s)", unfolded this] s0 t1(2)
  have "selected (disk_of io d0 (write_words io 256 0 buf (ram (dmm s)) t1)) ?drv lba Idle
      (data(?drv := (data ?drv)(lba := mem_words (ram (dmm s)) buf 256)))" by simp
  then show ?thesis
    by (simp add: ata_write_one_def d t1(1) ata_set_task_def same_devices_def selected_def)
qed

text \<open>The sectors from \<open>lba\<close> on after a write of \<open>n\<close> sectors from \<open>buf\<close>.\<close>

definition written :: "mem \<Rightarrow> addr \<Rightarrow> nat \<Rightarrow> uint32 \<Rightarrow> (uint32 \<Rightarrow> uint16 list) \<Rightarrow> uint32 \<Rightarrow> uint16 list" where
  "written m buf n lba data a =
     (if unat (a - lba) < n then mem_words m (buf + of_nat (512 * unat (a - lba))) 256 else data a)"

lemma unat_pred:
  fixes a b :: uint32
  assumes "a \<noteq> b" shows "unat (a - (b + 1)) = unat (a - b) - 1"
proof -
  have "a - (b + 1) = a - b - 1" by simp
  with assms show ?thesis using unat_minus_one [of "a - b"] by (metis eq_iff_diff_eq_0)
qed

lemma written_step:
  assumes "Suc n < 4294967296"
  shows "written m (buf + 512) n (lba + 1) (data(lba := mem_words m buf 256)) = written m buf (Suc n) lba data"
proof
  fix a
  show "written m (buf + 512) n (lba + 1) (data(lba := mem_words m buf 256)) a = written m buf (Suc n) lba data a"
  proof (cases "a = lba")
    case True
    have "unat (- 1 :: uint32) = 4294967295" by (simp add: unsigned_minus_1_eq_mask mask_eq_exp_minus_1)
    then show ?thesis using True assms by (simp add: written_def)
  next
    case False
    define k where "k = unat (a - (lba + 1))"
    have "unat (a - lba) \<noteq> 0" using False by (simp add: unat_eq_0)
    then have "unat (a - lba) = Suc k" using unat_pred [OF False] by (simp add: k_def)
    then show ?thesis using False by (simp add: written_def k_def [symmetric] add.assoc)
  qed
qed

lemma ata_write_loop_disk:
  assumes "drive_ports (ata_drive dp s) = Some (io, drive)" "unat lba + n \<le> 2 ^ 28"
    "dk_mode (disk_of io d0 (ports s)) = Idle"
  defines "data \<equiv> dk_data (disk_of io d0 (ports s))"
  shows "\<exists>s'. ata_write_loop (disk_reply io d0) n buf lba dp s = Some (Ret 1, s') \<and> same_devices s s' \<and>
    dk_mode (disk_of io d0 (ports s')) = Idle \<and> ram (dmm s') = ram (dmm s) \<and>
    dk_data (disk_of io d0 (ports s')) =
      data(drive \<noteq> ATA_MASTER := written (ram (dmm s)) buf n lba (data (drive \<noteq> ATA_MASTER)))"
  using assms(1-3) unfolding data_def
proof (induction n arbitrary: buf lba s)
  case 0
  then show ?case by (simp add: same_devices_def written_def fun_upd_idem)
next
  case (Suc n)
  let ?drv = "drive \<noteq> ATA_MASTER"
  have lba: "unat lba < 2 ^ 28" "unat (lba + 1) + n \<le> 2 ^ 28" "Suc n < 4294967296"
    using Suc.prems(2) by (simp_all add: unat_add_small)
  obtain s1 where s1: "ata_write_one (disk_reply io d0) buf lba dp s = Some (Ret 1, s1)" "same_devices s s1"
    "dk_mode (disk_of io d0 (ports s1)) = Idle" "ram (dmm s1) = ram (dmm s)"
    "dk_data (disk_of io d0 (ports s1)) = (dk_data (disk_of io d0 (ports s)))
      (?drv := (dk_data (disk_of io d0 (ports s)) ?drv)(lba := mem_words (ram (dmm s)) buf 256))"
    using ata_write_one_disk [OF Suc.prems(1) lba(1) Suc.prems(3), of buf] by blast
  have "drive_ports (ata_drive dp s1) = Some (io, drive)" using Suc.prems(1) same_devices_drive [OF s1(2)] by simp
  from Suc.IH [OF this lba(2) s1(3), of "buf + 512"] obtain s2 where
    s2: "ata_write_loop (disk_reply io d0) n (buf + 512) (lba + 1) dp s1 = Some (Ret 1, s2)" "same_devices s1 s2"
    "dk_mode (disk_of io d0 (ports s2)) = Idle" "ram (dmm s2) = ram (dmm s1)"
    "dk_data (disk_of io d0 (ports s2)) = (dk_data (disk_of io d0 (ports s1)))
      (?drv := written (ram (dmm s1)) (buf + 512) n (lba + 1) (dk_data (disk_of io d0 (ports s1)) ?drv))" by blast
  have "dk_data (disk_of io d0 (ports s2)) = (dk_data (disk_of io d0 (ports s)))
      (?drv := written (ram (dmm s)) buf (Suc n) lba (dk_data (disk_of io d0 (ports s)) ?drv))"
    unfolding s2(5) s1(4,5) by (simp add: written_step [OF lba(3), symmetric])
  with s1(1,4) s2(1-4) same_devices_trans [OF s1(2) s2(2)] show ?case by (simp add: fun_upd_def)
qed

lemma ata_read_loop_disk:
  assumes "drive_ports (ata_drive dp s) = Some (io, drive)" "unat lba + n \<le> 2 ^ 28" "512 * n \<le> 4294967296"
    "dk_mode (disk_of io d0 (ports s)) = Idle"
  defines "data \<equiv> dk_data (disk_of io d0 (ports s)) (drive \<noteq> ATA_MASTER)"
  shows "\<exists>s'. ata_read_loop (disk_reply io d0) n buf lba dp s = Some (Ret 1, s') \<and> same_devices s s' \<and>
    dk_mode (disk_of io d0 (ports s')) = Idle \<and> dk_data (disk_of io d0 (ports s')) = dk_data (disk_of io d0 (ports s)) \<and>
    (\<forall>x. ram (dmm s') x =
      (if unat (x - buf) < 512 * n
       then word_byte (map (\<lambda>j. data (lba + of_nat (unat (x - buf) div 512)) ! j) [0..<256]) (unat (x - buf) mod 512)
       else ram (dmm s) x))"
  using assms(1-4) unfolding data_def
proof (induction n arbitrary: buf lba s)
  case 0
  then show ?case by (simp add: same_devices_def)
next
  case (Suc n)
  let ?d = "dk_data (disk_of io d0 (ports s)) (drive \<noteq> ATA_MASTER)"
  let ?w = "\<lambda>a. map (\<lambda>j. ?d a ! j) [0..<256]"
  have lba: "unat lba < 2 ^ 28" "unat (lba + 1) + n \<le> 2 ^ 28"
    using Suc.prems(2) by (simp_all add: unat_add_small)
  obtain s1 where s1: "ata_read_one (disk_reply io d0) buf lba dp s = Some (Ret 1, s1)" "same_devices s s1"
    "dk_mode (disk_of io d0 (ports s1)) = Idle" "dk_data (disk_of io d0 (ports s1)) = dk_data (disk_of io d0 (ports s))"
    "ram (dmm s1) = put_words buf (?w lba) (ram (dmm s))"
    using ata_read_one_disk [OF Suc.prems(1) lba(1) Suc.prems(4), of buf] by blast
  have "drive_ports (ata_drive dp s1) = Some (io, drive)" using Suc.prems(1) same_devices_drive [OF s1(2)] by simp
  moreover have "512 * n \<le> 4294967296" using Suc.prems(3) by simp
  ultimately obtain s2 where
    s2: "ata_read_loop (disk_reply io d0) n (buf + 512) (lba + 1) dp s1 = Some (Ret 1, s2)" "same_devices s1 s2"
    "dk_mode (disk_of io d0 (ports s2)) = Idle" "dk_data (disk_of io d0 (ports s2)) = dk_data (disk_of io d0 (ports s))"
    "\<forall>x. ram (dmm s2) x = (if unat (x - (buf + 512)) < 512 * n
       then word_byte (?w (lba + 1 + of_nat (unat (x - (buf + 512)) div 512))) (unat (x - (buf + 512)) mod 512)
       else ram (dmm s1) x)"
    using Suc.IH [OF _ lba(2) _ s1(3), of "buf + 512"] s1(4) by metis
  have "ram (dmm s2) x = (if unat (x - buf) < 512 * Suc n
       then word_byte (?w (lba + of_nat (unat (x - buf) div 512))) (unat (x - buf) mod 512) else ram (dmm s) x)" for x
  proof -
    define t where "t = unat (x - buf)"
    have c: "unat (512 :: addr) = 512" by simp
    have "x - (buf + 512) = x - buf - 512" by simp
    then have u: "unat (x - (buf + 512)) = (if 512 \<le> t then t - 512 else 4294966784 + t)"
      using unat_sub_word [of "x - buf" 512] by (simp only: c t_def) simp
    have one: "ram (dmm s1) x = (if t < 512 then word_byte (?w lba) t else ram (dmm s) x)"
      using put_words_apply [of "?w lba" buf "ram (dmm s)" x] by (simp add: s1(5) t_def)
    show ?thesis
    proof (cases "512 \<le> t")
      case True
      then have "t div 512 = Suc ((t - 512) div 512)" "t mod 512 = (t - 512) mod 512"
        by (simp_all add: le_div_geq le_mod_geq)
      with True u s2(5) one show ?thesis by (simp add: t_def [symmetric] add.assoc) linarith
    next
      case False
      then have "\<not> unat (x - (buf + 512)) < 512 * n" using u Suc.prems(3) by simp
      with False s2(5) one show ?thesis by (simp add: t_def [symmetric])
    qed
  qed
  with s1(1) s2(1-4) same_devices_trans [OF s1(2) s2(2)] show ?case by simp
qed

lemma ata_write_then_read:
  assumes d: "drive_ports (ata_drive dp s) = Some (io, drive)"
    and idle: "dk_mode (disk_of io d0 (ports s)) = Idle"
    and fits: "unat lba + unat n \<le> 2 ^ 28" "512 * unat n \<le> 4294967296"
  shows "\<exists>s1 s2. ata_write (disk_reply io d0) buf lba n dp s = Some (Ret 1, s1) \<and>
    ata_read (disk_reply io d0) buf' lba n dp s1 = Some (Ret 1, s2) \<and>
    (\<forall>i < 512 * unat n. ram (dmm s2) (buf' + of_nat i) = ram (dmm s) (buf + of_nat i))"
proof -
  let ?drv = "drive \<noteq> ATA_MASTER"
  obtain s1 where s1: "ata_write_loop (disk_reply io d0) (unat n) buf lba dp s = Some (Ret 1, s1)" "same_devices s s1"
    "dk_mode (disk_of io d0 (ports s1)) = Idle" "ram (dmm s1) = ram (dmm s)"
    "dk_data (disk_of io d0 (ports s1)) ?drv = written (ram (dmm s)) buf (unat n) lba (dk_data (disk_of io d0 (ports s)) ?drv)"
    using ata_write_loop_disk [OF d fits(1) idle, of buf] by auto
  have "drive_ports (ata_drive dp s1) = Some (io, drive)" using d same_devices_drive [OF s1(2)] by simp
  from ata_read_loop_disk [OF this fits s1(3), of buf'] obtain s2 where
    s2: "ata_read_loop (disk_reply io d0) (unat n) buf' lba dp s1 = Some (Ret 1, s2)"
    "\<And>x. unat (x - buf') < 512 * unat n \<Longrightarrow> ram (dmm s2) x =
       word_byte (map (\<lambda>j. dk_data (disk_of io d0 (ports s1)) ?drv (lba + of_nat (unat (x - buf') div 512)) ! j) [0..<256])
         (unat (x - buf') mod 512)" by auto
  have "ram (dmm s2) (buf' + of_nat i) = ram (dmm s) (buf + of_nat i)" if i: "i < 512 * unat n" for i
  proof -
    have u: "unat (buf' + of_nat i - buf') = i" using i fits(2) by (simp add: unat_of_nat_small)
    have "i div 512 < unat n" using i by (simp add: less_mult_imp_div_less mult.commute)
    moreover from this have "unat (of_nat (i div 512) :: uint32) = i div 512"
      using unat32_lt [of n] by (intro unat_of_nat_small) simp
    ultimately have "written (ram (dmm s)) buf (unat n) lba (dk_data (disk_of io d0 (ports s)) ?drv) (lba + of_nat (i div 512)) =
        mem_words (ram (dmm s)) (buf + of_nat (512 * (i div 512))) 256"
      by (simp add: written_def)
    moreover have "map (\<lambda>j. mem_words m p 256 ! j) [0..<256] = mem_words m p 256" for m p
      using map_nth [of "mem_words m p 256"] by (simp add: mem_words_def)
    moreover have "word_byte (mem_words (ram (dmm s)) (buf + of_nat (512 * (i div 512))) 256) (i mod 512) =
        ram (dmm s) (buf + of_nat (512 * (i div 512)) + of_nat (i mod 512))"
      by (rule word_byte_mem) simp
    moreover have "of_nat (512 * (i div 512)) + of_nat (i mod 512) = (of_nat i :: addr)"
      by (metis mult_div_mod_eq of_nat_add)
    ultimately show ?thesis using s2(2) [of "buf' + of_nat i"] i by (simp only: u s1(5)) (simp add: add.assoc)
  qed
  with s1(1) s2(1) show ?thesis by (auto simp: ata_write_def ata_read_def)
qed


definition sample_disk :: disk where
  "sample_disk = \<lparr>dk_sel = 0, dk_l0 = 0, dk_l1 = 0, dk_l2 = 0, dk_mode = Idle, dk_data = \<lambda>_ _. []\<rparr>"

text \<open>The master of the first bus is the device at 0x100.\<close>

definition sample_ata :: ata_state where
  "sample_ata = \<lparr>dmm = sample_heap\<lparr>ram := (\<lambda>_. 0)(0x1003 := 77)\<rparr>, devs = \<lambda>_. zero_device, devices = 0, lastid = 0, ports = [],
     timer = pit_start, privs = \<lambda>_. 0, ata_pm = 0, ide_buf = 0\<rparr>"


section \<open>Errors\<close>

lemma wait_bsy_clear:
  assumes "\<forall>t. (ucast (dev t (io + ATA_REG_STATUS)) :: uint8) AND ATA_SR_BSY = 0"
  shows "ide_wait_bsy dev io tr = Some (snd (inportb dev (io + ATA_REG_STATUS) tr))"
  by (subst ide_wait_bsy.simps) (simp add: inportb_def assms Let_def)

lemma ata_error_panics_aux:
  assumes "drive_ports (ata_drive dp s) = Some (io, drive)"
    and "\<forall>t. (ucast (dev t (io + ATA_REG_STATUS)) :: uint8) AND ATA_SR_BSY = 0"
    and "\<And>t. (ucast (dev t (io + ATA_REG_STATUS)) :: uint8) AND ATA_SR_ERR \<noteq> 0"
  shows "\<exists>s'. ata_read_one dev buf lba dp s = Some (Panic, s') \<and> dmm s' = dmm s"
    "\<exists>s'. ata_write_one dev buf lba dp s = Some (Panic, s') \<and> dmm s' = dmm s"
proof -
  have drq: "ide_wait_drq dev io t = Some (Panic, snd (inportb dev (io + ATA_REG_STATUS) t))" for t
    by (subst ide_wait_drq.simps) (simp add: inportb_def assms(3) Let_def)
  have poll: "\<exists>t'. ide_poll dev io t = Some (Panic, t')" for t
    by (simp add: ide_poll_def wait_bsy_clear [where dev = dev and io = io, OF assms(2)] drq)
  obtain t1 where "ide_poll dev io (send_command io drive lba 0 ATA_CMD_READ_PIO (ports s)) = Some (Panic, t1)" using poll by blast
  then show "\<exists>s'. ata_read_one dev buf lba dp s = Some (Panic, s') \<and> dmm s' = dmm s"
    by (simp add: ata_read_one_def ata_set_task_def assms(1))
  obtain t2 where "ide_poll dev io (send_command io drive lba ATA_WRITE ATA_CMD_WRITE_PIO (ports s)) = Some (Panic, t2)" using poll by blast
  then show "\<exists>s'. ata_write_one dev buf lba dp s = Some (Panic, s') \<and> dmm s' = dmm s"
    by (simp add: ata_write_one_def ata_set_task_def assms(1))
qed



lemma ide_start_read_hangs: "status AND ATA_SR_ERR = 0 \<Longrightarrow> status AND ATA_SR_DRQ = 0 \<Longrightarrow> ide_start_read status = None"
proof -
  have "\<not> (status AND ATA_SR_ERR = 0 \<and> status AND ATA_SR_DRQ = 0)" if "ide_start_read status = Some y" for y
    by (rule ide_start_read.raw_induct [where P = "\<lambda>st r. \<not> (st AND ATA_SR_ERR = 0 \<and> st AND ATA_SR_DRQ = 0)", OF _ that])
      (auto split: if_splits)
  then show "status AND ATA_SR_ERR = 0 \<Longrightarrow> status AND ATA_SR_DRQ = 0 \<Longrightarrow> ide_start_read status = None"
    by (cases "ide_start_read status") auto
qed

text \<open>A drive that is busy for the first \<open>k\<close> reads after a command and then has data ready.\<close>

definition slow_drive :: "nat \<Rightarrow> device" where
  "slow_drive k t p = (if length (takeWhile (\<lambda>e. case e of InB _ _ \<Rightarrow> True | _ \<Rightarrow> False) t) < k then 0x80 else 0x58)"

text \<open>
  The status that \<open>ide_identify\<close> tests is read once, before it waits for the drive: a drive that
  is still busy then is found only if it is ready at once, otherwise the stale status is tested
  for ever.
\<close>

theorem ide_identify_slow_drive: "(\<exists>s'. ide_identify (slow_drive k) bus drive s = Some (1, s')) \<longleftrightarrow> k = 0"
proof -
  have st: "ide_start_read 0x80 = None" by (rule ide_start_read_hangs) (simp_all add: ATA_SR_ERR_def ATA_SR_DRQ_def)
  have ready: "ide_start_read 0x58 = Some True" by (subst ide_start_read.simps) (simp add: ATA_SR_ERR_def ATA_SR_DRQ_def)
  have "ide_wait_bsy (slow_drive 0) io t = Some (snd (inportb (slow_drive 0) (io + ATA_REG_STATUS) t))" for io t
    by (rule wait_bsy_clear) (simp add: slow_drive_def ATA_SR_BSY_def)
  then have "\<exists>s'. ide_identify (slow_drive 0) bus drive s = Some (1, s')"
    by (simp add: ide_identify_def Let_def inportb_def slow_drive_def ready)
  moreover have "ide_identify (slow_drive k) bus drive s = None" if "0 < k"
    using that by (simp add: ide_identify_def Let_def inportb_def outportb_def slow_drive_def st split: bind_split)
  ultimately show ?thesis by (cases k) auto
qed

end
