(* ===== verification/Checksum.thy ===== *)
theory Checksum
  imports Memory
begin

text \<open>
  \<open>include/net/swap.h\<close> and \<open>src/net/checksum.c\<close>: byte order and the Internet checksum.
\<close>

section \<open>Byte order\<close>

definition net_swap16 :: "uint16 \<Rightarrow> uint16" where
  "net_swap16 x = drop_bit 8 x OR push_bit 8 x"

text \<open>The bytes of the union, then put together the other way.\<close>

definition net_swap32 :: "uint32 \<Rightarrow> uint32" where
  "net_swap32 x =
     (let b = (\<lambda>i :: nat. ucast (drop_bit (8 * i) x) :: uint8)
      in push_bit 24 (ucast (b 0)) OR push_bit 16 (ucast (b 1)) OR push_bit 8 (ucast (b 2)) OR ucast (b 3))"

lemma net_swap16_involution [simp]: "net_swap16 (net_swap16 x) = x"
proof (rule bit_word_eqI)
  fix n assume "n < LENGTH(16)"
  then show "bit (net_swap16 (net_swap16 x)) n = bit x n"
    by (cases "n < 8") (simp_all add: net_swap16_def bit_simps not_less)
qed

lemma bit_swap32: "i < 8 \<Longrightarrow> j \<in> {0, 1, 2, 3} \<Longrightarrow> bit (net_swap32 x) (8 * j + i) = bit x (8 * (3 - j) + i)"
  by (elim insertE emptyE; simp add: net_swap32_def Let_def bit_or_iff bit_push_bit_iff bit_unsigned_iff bit_drop_bit_eq)

lemma net_swap32_involution [simp]: "net_swap32 (net_swap32 x) = x"
proof (rule bit_word_eqI)
  fix n assume "n < LENGTH(32)"
  then obtain i j where n: "n = 8 * j + i" "i < 8" "j \<in> {0, 1, 2, 3 :: nat}"
    using that [of "n div 8" "n mod 8"] by force
  then have "3 - j \<in> {0, 1, 2, 3}" "3 - (3 - j) = j" by auto
  with n show "bit (net_swap32 (net_swap32 x)) n = bit x n" by (simp only: bit_swap32)
qed

section \<open>The checksum\<close>

text \<open>The loop: words while more than one byte is left, then the last byte.\<close>

function checksum_loop :: "mem \<Rightarrow> addr \<Rightarrow> uint32 \<Rightarrow> uint32 \<Rightarrow> uint32" where
  "checksum_loop m p len acc =
     (if 1 < len then checksum_loop m (p + 2) (len - 2) (acc + ucast (load16 m p))
      else if len \<noteq> 0 then acc + ucast (m p) else acc)"
  by auto
termination
proof (relation "measure (\<lambda>(m, p, len, acc). unat len)", simp)
  fix len :: uint32 and m p acc
  assume "1 < len"
  then have "unat (len - 2) < unat len" by unat_arith
  then show "((m, p + 2, len - 2, acc + ucast (load16 m p)), m, p, len, acc) \<in> measure (\<lambda>(m, p, len, acc). unat len)"
    by simp
qed

declare checksum_loop.simps [simp del]

definition net_checksum_acc :: "mem \<Rightarrow> addr \<Rightarrow> addr \<Rightarrow> uint32 \<Rightarrow> uint32" where
  "net_checksum_acc m data end' acc = checksum_loop m data (end' - data) acc"

definition net_checksum_final :: "uint32 \<Rightarrow> uint16" where
  "net_checksum_final acc =
     (let sum1 = (acc AND 0xffff) + drop_bit 16 acc;
          sum2 = sum1 + drop_bit 16 sum1;
          temp = ucast (NOT sum2) :: uint16
      in push_bit 8 (temp AND 0x00ff) OR drop_bit 8 (temp AND 0xff00))"

definition net_checksum :: "mem \<Rightarrow> addr \<Rightarrow> addr \<Rightarrow> uint16" where
  "net_checksum m data end' = net_checksum_final (net_checksum_acc m data end' 0)"

section \<open>Sums of words\<close>

text \<open>The words of \<open>n\<close> pairs of bytes, and their sum.\<close>

definition word_sum :: "mem \<Rightarrow> addr \<Rightarrow> nat \<Rightarrow> nat" where
  "word_sum m p n = (\<Sum>i < n. unat (load16 m (p + of_nat (2 * i))))"

lemma load16_bound: "unat (load16 m p) \<le> 65535"
  using unsigned_less [of "load16 m p", where 'a = nat] by simp

lemma word_sum_bound: "word_sum m p n \<le> n * 65535"
  unfolding word_sum_def using sum_bounded_above [of "{..<n}" "\<lambda>i. unat (load16 m (p + of_nat (2 * i)))" 65535]
  by (simp add: load16_bound)

lemma word_sum_Suc: "word_sum m p (Suc n) = unat (load16 m p) + word_sum m (p + 2) n"
  by (simp add: word_sum_def sum.lessThan_Suc_shift ac_simps del: sum.lessThan_Suc)

lemma checksum_loop_words:
  "unat len = 2 * n \<Longrightarrow> n \<le> 65536 \<Longrightarrow> checksum_loop m p len acc = acc + of_nat (word_sum m p n)"
proof (induction n arbitrary: p len acc)
  case 0
  then have "len = 0" by (simp add: unat_eq_0)
  then show ?case by (subst checksum_loop.simps) (simp add: word_sum_def)
next
  case (Suc n)
  have l: "1 < len" "unat (len - 2) = 2 * n" using Suc.prems by (auto simp: word_less_nat_alt unat_sub_word)
  have "checksum_loop m p len acc = checksum_loop m (p + 2) (len - 2) (acc + ucast (load16 m p))"
    using l(1) by (subst checksum_loop.simps) simp
  also have "\<dots> = acc + ucast (load16 m p) + of_nat (word_sum m (p + 2) n)"
    using Suc.prems(2) by (intro Suc.IH l(2)) simp
  finally show ?case by (simp add: word_sum_Suc)
qed

text \<open>Folding the carries: the ones' complement acc of the words.\<close>

definition ones_sum :: "nat \<Rightarrow> nat" where
  "ones_sum s = (if s = 0 then 0 else (s - 1) mod 65535 + 1)"

lemma fold_carries:
  assumes "lo < 65536" "hi < 65536" and s: "s = 65536 * hi + lo"
  shows "(lo + hi + (lo + hi) div 65536) mod 65536 = ones_sum s"
proof (cases "s = 0")
  case True
  with s show ?thesis by (simp add: ones_sum_def)
next
  case False
  with s have pos: "0 < lo + hi" by linarith
  have "s - 1 = 65535 * hi + (lo + hi - 1)" using s pos by linarith
  then have m: "(s - 1) mod 65535 = (lo + hi - 1) mod 65535" by (metis mod_mult_self4)
  show ?thesis
  proof (cases "lo + hi < 65536")
    case True
    with pos have "(lo + hi - 1) mod 65535 + 1 = lo + hi" by simp
    with True False m show ?thesis by (simp add: ones_sum_def)
  next
    case False
    then obtain k where k: "lo + hi = 65536 + k" using le_Suc_ex not_less by blast
    have "k < 65535" using k assms(1,2) by linarith
    then have "(lo + hi - 1) mod 65535 = k" unfolding k by simp
    moreover have "(lo + hi + (lo + hi) div 65536) mod 65536 = k + 1"
    proof -
      have "(65536 + k) div 65536 = 1" using \<open>k < 65535\<close> by (intro div_nat_eqI) auto
      then have "lo + hi + (lo + hi) div 65536 = Suc k + 65536 * 1" unfolding k by simp
      also have "\<dots> mod 65536 = Suc k mod 65536" by (rule mod_mult_self2)
      finally show ?thesis using \<open>k < 65535\<close> by simp
    qed
    ultimately show ?thesis using m \<open>s \<noteq> 0\<close> by (simp add: ones_sum_def)
  qed
qed

lemma net_checksum_final_fold:
  "net_checksum_final s = net_swap16 (NOT (of_nat (ones_sum (unat s))))"
proof -
  let ?lo = "unat s mod 65536" and ?hi = "unat s div 65536"
  let ?s1 = "(s AND 0xffff) + drop_bit 16 s"
  let ?s2 = "?s1 + drop_bit 16 ?s1"
  have b: "?lo < 65536" "?hi < 65536" using unat32_lt [of s] by auto
  have a: "s AND 0xffff = take_bit 16 s" by (simp add: take_bit_eq_mask mask_eq_exp_minus_1)
  have "unat (drop_bit 16 s) = ?hi" by (simp add: drop_bit_eq_div unat_div)
  moreover have "unat (s AND 0xffff) = ?lo" by (simp add: a unsigned_take_bit_eq take_bit_eq_mod unat_mod)
  ultimately have s1: "unat ?s1 = ?lo + ?hi" using b by (simp add: unat_add_small)
  have d: "unat (drop_bit 16 ?s1) = (?lo + ?hi) div 65536"
    using s1 by (simp add: drop_bit_eq_div unat_div)
  then have s2: "unat ?s2 = ?lo + ?hi + (?lo + ?hi) div 65536"
  proof -
    have "(?lo + ?hi) div 65536 \<le> 1" using b by linarith
    then have "unat ?s1 + unat (drop_bit 16 ?s1) < 4294967296" unfolding s1 d using b by linarith
    from unat_add_small [OF this] show ?thesis by (simp only: s1 d)
  qed
  have e: "unat s = 65536 * ?hi + ?lo" by simp
  have "unat ?s2 mod 65536 = ones_sum (unat s)"
    unfolding s2 using fold_carries [OF b e] .
  then have "ucast ?s2 = (of_nat (ones_sum (unat s)) :: uint16)"
    by (simp add: word_unat_eq_iff unsigned_ucast_eq unsigned_of_nat take_bit_eq_mod)
  moreover have "ucast (NOT w) = (NOT (ucast w) :: uint16)" for w :: uint32
    by (rule bit_word_eqI) (auto simp: bit_simps)
  ultimately have t: "ucast (NOT ?s2) = (NOT (of_nat (ones_sum (unat s))) :: uint16)" by simp
  have "push_bit 8 (t AND 0x00ff) OR drop_bit 8 (t AND 0xff00) = net_swap16 t" for t :: uint16
  proof -
    have "drop_bit 8 (t AND 0xff00) = take_bit 8 (drop_bit 8 t)" by (simp add: drop_bit_and flip: and_ff)
    moreover have "push_bit 8 (take_bit 8 t) = push_bit 8 t" "take_bit 8 (drop_bit 8 t) = drop_bit 8 t"
      by (rule bit_word_eqI, simp add: bit_simps, linarith?)+ (auto dest: bit_imp_le_length)
    ultimately show ?thesis by (simp add: net_swap16_def and_ff Bit_Operations.or.commute)
  qed
  then show ?thesis by (simp add: net_checksum_final_def Let_def t)
qed

lemma ones_sum_complement:
  assumes "s + (65535 - ones_sum s) < 4294967296"
  shows "ones_sum (s + (65535 - ones_sum s)) = 65535"
proof (cases "s = 0")
  case True
  then show ?thesis by (simp add: ones_sum_def)
next
  case False
  let ?r = "(s - 1) mod 65535"
  have r: "?r < 65535" "s - 1 = 65535 * ((s - 1) div 65535) + ?r" by simp_all
  have "s + (65535 - ones_sum s) = s + (65534 - ?r)" using False by (simp add: ones_sum_def)
  moreover have "s + (65534 - ?r) - 1 = 65535 * ((s - 1) div 65535) + 65534" using r False by linarith
  moreover have "(65535 * q + 65534) mod 65535 = (65534 :: nat)" for q by simp
  ultimately show ?thesis using False by (simp add: ones_sum_def)
qed

lemma ones_sum_le: "ones_sum s \<le> 65535"
proof -
  have "(s - 1) mod 65535 < 65535" by simp
  then show ?thesis by (simp add: ones_sum_def) linarith
qed

lemma unat_not16: "unat (NOT w) = 65535 - unat w" for w :: uint16
proof -
  have "NOT w = - 1 - w" by (simp add: not_eq_complement)
  moreover have "unat (- 1 - w) = unat (- 1 :: uint16) - unat w" by (intro unat_sub) simp
  ultimately show ?thesis by (simp add: unsigned_minus_1_eq_mask mask_eq_exp_minus_1)
qed

lemma net_checksum_store:
  assumes len: "unat (end' - data) = 2 * n" "n \<le> 65536" and k: "k < n" and field: "load16 m (data + of_nat (2 * k)) = 0"
  shows "net_checksum (store16 m (data + of_nat (2 * k)) (net_swap16 (net_checksum m data end'))) data end' = 0"
proof -
  let ?f = "data + of_nat (2 * k)"
  let ?S = "word_sum m data n"
  let ?w = "net_swap16 (net_checksum m data end')"
  let ?m = "store16 m ?f ?w"
  have S: "?S \<le> 65535 * n" using word_sum_bound [of m data n] by (simp add: mult.commute)
  have acc: "net_checksum_acc m' data end' 0 = of_nat (word_sum m' data n)" for m'
    unfolding net_checksum_acc_def using checksum_loop_words [OF len] by simp
  have other: "load16 ?m (data + of_nat (2 * i)) = load16 m (data + of_nat (2 * i))" if "i < n" "i \<noteq> k" for i
  proof -
    have d: "data + of_nat a \<noteq> data + of_nat b" if "a < 4294967296" "b < 4294967296" "a \<noteq> b" for a b
      using that by (simp add: of_nat_inj32)
    have "data + of_nat (2 * i) \<noteq> ?f" "data + of_nat (2 * i) \<noteq> data + of_nat (2 * k + 1)"
      "data + of_nat (2 * i + 1) \<noteq> ?f" "data + of_nat (2 * i + 1) \<noteq> data + of_nat (2 * k + 1)"
      using that k len(2) by (intro d; (simp; fail) | presburger)+
    then show ?thesis by (intro load16_cong) (auto simp: store16_def ac_simps)
  qed
  have "word_sum ?m data n = ?S + unat ?w"
  proof -
    have "word_sum m' data n = unat (load16 m' ?f) + (\<Sum>i \<in> {..<n} - {k}. unat (load16 m' (data + of_nat (2 * i))))" for m'
      unfolding word_sum_def using k by (intro sum.remove) auto
    from this [of m] this [of ?m] show ?thesis using other field by simp
  qed
  moreover have "unat ?w = 65535 - ones_sum ?S"
  proof -
    have "?S < 4294967296" using S len(2) by linarith
    then have "?w = NOT (of_nat (ones_sum ?S))"
      by (simp add: net_checksum_def acc net_checksum_final_fold unat_of_nat_small)
    moreover have "unat (of_nat (ones_sum ?S) :: uint16) = ones_sum ?S"
      using ones_sum_le [of ?S] by (simp add: unsigned_of_nat take_bit_nat_eq_self)
    ultimately show ?thesis by (simp add: unat_not16)
  qed
  moreover have "?S + 65535 < 4294967296" using S len(2) by linarith
  ultimately have T: "word_sum ?m data n = ?S + (65535 - ones_sum ?S)" "word_sum ?m data n < 4294967296" by linarith+
  have "net_checksum ?m data end' = net_swap16 (NOT (of_nat (ones_sum (word_sum ?m data n))))"
    unfolding net_checksum_def [of ?m] acc net_checksum_final_fold unat_of_nat_small [OF T(2)] ..
  moreover have "ones_sum (word_sum ?m data n) = 65535"
    using ones_sum_complement [of ?S] T by simp
  ultimately show ?thesis by (simp add: net_swap16_def)
qed

text \<open>
  C22. A header that carries its checksum is accepted: when an even number of bytes, with a 16-bit
  field at an even offset that is 0, gets the checksum of the bytes stored in network order in
  that field, then the checksum of the result is 0.
\<close>

theorem net_checksum_verifies:
  assumes len: "unat (end' - data) = 2 * n" "n \<le> 65536" and k: "k < n" and field: "load16 m (data + of_nat (2 * k)) = 0"
  shows "net_checksum (store16 m (data + of_nat (2 * k)) (net_swap16 (net_checksum m data end'))) data end' = 0"
  by (rule net_checksum_store [OF assms])

theorem net_checksum_verifies_witness:
  "net_checksum (store16 ((\<lambda>_. 0)(0 := 0x45, 3 := 20)) 10 (net_swap16 (net_checksum ((\<lambda>_. 0)(0 := 0x45, 3 := 20)) 0 20))) 0 20 = 0"
  using net_checksum_verifies [of 20 0 10 5 "(\<lambda>_. 0)(0 := 0x45, 3 := 20)"] by (simp add: load16_def)

end
