(* ===== verification/Net_Base.thy ===== *)
theory Net_Base
  imports Ownership Links Addr Checksum Mem_Utils
begin

text \<open>
  The state of the network code and its lower parts: the buffers of \<open>src/net/buf.c\<close>, the
  interfaces of \<open>src/net/intf.c\<close> and the routes of \<open>src/net/route.c\<close>. The structures that the
  code keeps in memory from \<open>malloc\<close> are records at their addresses; the bytes of the packets
  are in the memory of the heap. \<open>'w\<close> is the state of the device behind an interface. In this part
  \<open>None\<close> is a call that never returns: a panic, a lock that is never released, a list that does
  not come back to its head, or a call through a null function pointer.
\<close>

section \<open>The state\<close>

definition NET_BUF_SIZE :: uint32 where "NET_BUF_SIZE = 2048"
definition NET_BUF_START :: uint32 where "NET_BUF_START = 256"

record NetBuf =
  nb_start :: addr
  nb_end :: addr
  nb_refCount :: uint32
  nb_seq :: uint32
  nb_flags :: uint8

text \<open>The functions that the drivers put into the fields of an interface.\<close>

datatype intf_fn = Eth_send_intf | E1000_send | E1000_poll

record NetIntf =
  if_ethAddr :: EthAddr
  if_ipAddr :: IPv4Addr
  if_broadcastAddr :: IPv4Addr
  if_name :: addr
  if_poll :: "intf_fn option"
  if_send :: "intf_fn option"
  if_devSend :: "intf_fn option"

record NetRoute =
  rt_dst :: IPv4Addr
  rt_mask :: IPv4Addr
  rt_gateway :: IPv4Addr
  rt_intf :: addr

record ArpEntry =
  ae_ha :: EthAddr
  ae_pa :: IPv4Addr
  ae_intf :: addr
  ae_etherType :: uint16
  ae_pkt :: addr

text \<open>\<open>s_netFreeBufs\<close>, \<open>g_netIntfList\<close> and \<open>s_routeTable\<close> are the addresses of the list heads.\<close>

record 'w net =
  nmm :: mm_state
  nlinks :: links
  s_netFreeBufs :: addr
  g_netIntfList :: addr
  s_routeTable :: addr
  g_netBufAllocCount :: uint32
  bufs :: "addr \<Rightarrow> NetBuf"
  intfs :: "addr \<Rightarrow> NetIntf"
  routes :: "addr \<Rightarrow> NetRoute"
  arpCache :: "ArpEntry list"
  wire :: 'w

definition nram :: "'w net \<Rightarrow> mem" where "nram s = ram (nmm s)"

definition set_nram :: "mem \<Rightarrow> 'w net \<Rightarrow> 'w net" where
  "set_nram m s = s\<lparr>nmm := (nmm s)\<lparr>ram := m\<rparr>\<rparr>"

definition set_buf :: "addr \<Rightarrow> (NetBuf \<Rightarrow> NetBuf) \<Rightarrow> 'w net \<Rightarrow> 'w net" where
  "set_buf p f s = s\<lparr>bufs := (bufs s)(p := f (bufs s p))\<rparr>"

definition kalloc :: "uint32 \<Rightarrow> 'w net \<Rightarrow> (addr \<times> 'w net) option" where
  "kalloc n s = (case malloc (nmm s) n of
     Some (Ret p, h) \<Rightarrow> Some (p, s\<lparr>nmm := h\<rparr>)
   | _ \<Rightarrow> None)"

section \<open>Buffers (buf.c)\<close>

definition zero_buf :: NetBuf where
  "zero_buf = \<lparr>nb_start = 0, nb_end = 0, nb_refCount = 0, nb_seq = 0, nb_flags = 0\<rparr>"

definition net_alloc_buf :: "'w net \<Rightarrow> (addr \<times> 'w net) option" where
  "net_alloc_buf s = do {
     (buf, s1) \<leftarrow> (if link_list_is_empty (nlinks s) (s_netFreeBufs s)
        then do { (p, s1) \<leftarrow> kalloc NET_BUF_SIZE s; Some (p, set_buf p (\<lambda>_. zero_buf) s1) }
        else let buf = lnk_next (nlinks s (s_netFreeBufs s))
             in Some (buf, s\<lparr>nlinks := link_remove (nlinks s) buf\<rparr>));
     let s2 = s1\<lparr>nlinks := set_lnk_next buf 0 (set_lnk_prev buf 0 (nlinks s1))\<rparr>;
     let s3 = set_buf buf (\<lambda>b. b\<lparr>nb_start := buf + NET_BUF_START, nb_end := buf + NET_BUF_START, nb_refCount := 1\<rparr>) s2;
     Some (buf, s3\<lparr>g_netBufAllocCount := g_netBufAllocCount s3 + 1\<rparr>)
   }"

definition net_release_buf :: "addr \<Rightarrow> 'w net \<Rightarrow> 'w net" where
  "net_release_buf buf s =
     (let s1 = set_buf buf (\<lambda>b. b\<lparr>nb_refCount := nb_refCount b - 1\<rparr>) s
      in if nb_refCount (bufs s1 buf) \<noteq> 0 then s1
         else s1\<lparr>g_netBufAllocCount := g_netBufAllocCount s1 - 1,
                 nlinks := link_after (nlinks s1) (s_netFreeBufs s1) buf,
                 nmm := free (nmm s1) buf\<rparr>)"

section \<open>Interfaces (intf.c)\<close>

definition sizeof_NetIntf :: uint32 where "sizeof_NetIntf = 40"

definition zero_intf :: NetIntf where
  "zero_intf = \<lparr>if_ethAddr = g_nullEthAddr, if_ipAddr = 0, if_broadcastAddr = 0, if_name = 0,
     if_poll = None, if_send = None, if_devSend = None\<rparr>"

definition net_intf_create :: "'w net \<Rightarrow> (addr \<times> 'w net) option" where
  "net_intf_create s = do {
     (intf, s1) \<leftarrow> kalloc sizeof_NetIntf s;
     let s2 = set_nram (memset (nram s1) intf 0 sizeof_NetIntf) (s1\<lparr>intfs := (intfs s1)(intf := zero_intf)\<rparr>);
     Some (intf, s2\<lparr>nlinks := link_init (nlinks s2) intf\<rparr>)
   }"

definition net_intf_add :: "addr \<Rightarrow> 'w net \<Rightarrow> 'w net" where
  "net_intf_add intf s = s\<lparr>nlinks := link_before (nlinks s) (g_netIntfList s) intf\<rparr>"

section \<open>Routes (route.c)\<close>

definition sizeof_NetRoute :: uint32 where "sizeof_NetRoute = 24"

text \<open>The loops over the table, at the element \<open>r\<close>; the link is the first field of a route.\<close>

partial_function (option) route_find_loop :: "IPv4Addr \<Rightarrow> addr \<Rightarrow> 'w net \<Rightarrow> addr option option" where
  "route_find_loop dst r s =
     (if r = s_routeTable s then Some None
      else if dst AND rt_mask (routes s r) = rt_dst (routes s r) then Some (Some r)
      else route_find_loop dst (lnk_next (nlinks s r)) s)"

text \<open>The route found, or none after a message.\<close>

definition net_route_find :: "IPv4Addr \<Rightarrow> 'w net \<Rightarrow> addr option option" where
  "net_route_find dst s = route_find_loop dst (lnk_next (nlinks s (s_routeTable s))) s"

partial_function (option) route_place_loop :: "IPv4Addr \<Rightarrow> addr \<Rightarrow> 'w net \<Rightarrow> addr option" where
  "route_place_loop msk prev s =
     (if prev = s_routeTable s then Some prev
      else if rt_mask (routes s prev) > msk then Some prev
      else route_place_loop msk (lnk_next (nlinks s prev)) s)"

definition net_route_add ::
  "IPv4Addr \<Rightarrow> IPv4Addr \<Rightarrow> IPv4Addr option \<Rightarrow> addr \<Rightarrow> 'w net \<Rightarrow> 'w net option" where
  "net_route_add dst msk gateway intf s = do {
     (route, s1) \<leftarrow> kalloc sizeof_NetRoute s;
     let s2 = s1\<lparr>nlinks := link_init (nlinks s1) route,
        routes := (routes s1)(route := \<lparr>rt_dst = dst, rt_mask = msk,
          rt_gateway = (case gateway of Some g \<Rightarrow> g | None \<Rightarrow> 0), rt_intf = intf\<rparr>)\<rparr>;
     prev \<leftarrow> route_place_loop msk (lnk_next (nlinks s2 (s_routeTable s2))) s2;
     Some (s2\<lparr>nlinks := link_after (nlinks s2) prev route\<rparr>)
   }"

definition net_route_next_addr :: "NetRoute \<Rightarrow> IPv4Addr \<Rightarrow> IPv4Addr" where
  "net_route_next_addr route dstAddr = (if rt_gateway route \<noteq> 0 then rt_gateway route else dstAddr)"

definition net_route_print_table :: "'w net \<Rightarrow> 'w net" where
  "net_route_print_table s = s"

section \<open>The table of routes\<close>

text \<open>\<open>route_list s rs\<close>: the table holds the routes at \<open>rs\<close>, in this order.\<close>

definition route_list :: "'w net \<Rightarrow> addr list \<Rightarrow> bool" where
  "route_list s rs \<longleftrightarrow> link_list (nlinks s) (s_routeTable s) rs"

definition route_matches :: "IPv4Addr \<Rightarrow> NetRoute \<Rightarrow> bool" where
  "route_matches dst r \<longleftrightarrow> dst AND rt_mask r = rt_dst r"

lemma route_find_segment:
  "segment (lnk_nexts (nlinks s)) pv a rs (s_routeTable s) \<Longrightarrow> s_routeTable s \<notin> set rs \<Longrightarrow>
    route_find_loop dst (lnk_next (nlinks s a)) s = Some (find (\<lambda>r. route_matches dst (routes s r)) rs)"
proof (induction rs arbitrary: a)
  case Nil
  then show ?case by (subst route_find_loop.simps) (simp add: lnk_nexts_def)
next
  case (Cons r rs)
  then have "lnk_next (nlinks s a) = r" "r \<noteq> s_routeTable s" by (auto simp: lnk_nexts_def)
  with Cons show ?case by (subst route_find_loop.simps) (simp add: route_matches_def)
qed

lemma route_place_segment:
  "segment (lnk_nexts (nlinks s)) pv a rs (s_routeTable s) \<Longrightarrow> s_routeTable s \<notin> set rs \<Longrightarrow>
    route_place_loop msk (lnk_next (nlinks s a)) s =
      Some (case find (\<lambda>r. msk < rt_mask (routes s r)) rs of None \<Rightarrow> s_routeTable s | Some r \<Rightarrow> r)"
proof (induction rs arbitrary: a)
  case Nil
  then show ?case by (subst route_place_loop.simps) (simp add: lnk_nexts_def)
next
  case (Cons r rs)
  then have "lnk_next (nlinks s a) = r" "r \<noteq> s_routeTable s" by (auto simp: lnk_nexts_def)
  with Cons show ?case by (subst route_place_loop.simps) simp
qed

text \<open>Where a route goes: behind the first with a larger mask, or in front when there is none.\<close>

definition place_route :: "(addr \<Rightarrow> bool) \<Rightarrow> addr \<Rightarrow> addr list \<Rightarrow> addr list" where
  "place_route larger x rs = (case find larger rs of None \<Rightarrow> x # rs
     | Some r \<Rightarrow> takeWhile (\<lambda>y. y \<noteq> r) rs @ r # x # tl (dropWhile (\<lambda>y. y \<noteq> r) rs))"

lemma link_after_element:
  assumes "link_list h a (xs @ r # ys)" "x \<notin> set (a # xs @ r # ys)"
  shows "link_list (link_after h r x) a (xs @ r # x # ys)"
proof -
  have "link_list h r (ys @ a # xs)"
    using assms(1) ring_rotate_to [of "lnk_nexts h" "lnk_prevs h" a xs r ys] by (simp add: link_list_def)
  then have "link_list (link_after h r x) r (x # ys @ a # xs)"
    by (rule link_after_list) (use assms(2) in auto)
  then show ?thesis
    using ring_rotate_to [of "lnk_nexts (link_after h r x)" "lnk_prevs (link_after h r x)" r "x # ys" a xs]
    by (simp add: link_list_def)
qed

text \<open>
  \<open>net_ok s rs A\<close>: the table holds \<open>rs\<close>; its routes and the blocks in \<open>A\<close> are different live
  blocks of the heap, and the heads of the lists are not in the heap.
\<close>

definition net_ok :: "'w net \<Rightarrow> addr list \<Rightarrow> (addr \<times> uint32) list \<Rightarrow> bool" where
  "net_ok s rs A \<longleftrightarrow> route_list s rs \<and> holds (nmm s) (map (\<lambda>r. (r, sizeof_NetRoute)) rs @ A) \<and>
     s_routeTable s < heap_begin (nmm s) \<and> s_netFreeBufs s < heap_begin (nmm s) \<and> g_netIntfList s < heap_begin (nmm s)"

lemma place_route_cases:
  obtains (front) "find larger rs = None" "place_route larger x rs = x # rs"
  | (behind) r ys zs where "find larger rs = Some r" "rs = ys @ r # zs" "place_route larger x rs = ys @ r # x # zs"
proof (cases "find larger rs")
  case None
  then show thesis by (intro front) (simp_all add: place_route_def)
next
  case (Some r)
  then have "r \<in> set rs" by (auto simp: find_Some_iff)
  then obtain ys zs where s: "rs = ys @ r # zs" "r \<notin> set ys" by (metis split_list_first)
  have "takeWhile (\<lambda>y. y \<noteq> r) rs = ys" unfolding s(1) by (subst takeWhile_append2) (use s(2) in auto)
  moreover have "dropWhile (\<lambda>y. y \<noteq> r) rs = r # zs" unfolding s(1) by (subst dropWhile_append2) (use s(2) in auto)
  ultimately show thesis using Some s by (intro behind) (auto simp: place_route_def)
qed

lemma link_init_outside:
  "link_list h a xs \<Longrightarrow> x \<notin> set (a # xs) \<Longrightarrow> link_list (link_init h x) a xs"
proof -
  have "link_init h x = set_lnk_prev x x (set_lnk_next x x h)"
    by (auto simp: link_init_def set_lnk_prev_def set_lnk_next_def)
  then show "link_list h a xs \<Longrightarrow> x \<notin> set (a # xs) \<Longrightarrow> link_list (link_init h x) a xs"
    using link_list_outside [of h a xs x x x] by simp
qed

lemma net_route_add_ok:
  assumes ok: "net_ok s rs A" and m: "malloc (nmm s) sizeof_NetRoute = Some (Ret r, h)"
  shows "\<exists>s'. net_route_add dst msk gw intf s = Some s' \<and> nmm s' = h \<and>
    net_ok s' (place_route (\<lambda>x. msk < rt_mask (routes s x)) r rs) A \<and>
    routes s' = (routes s)(r := \<lparr>rt_dst = dst, rt_mask = msk,
      rt_gateway = (case gw of Some g \<Rightarrow> g | None \<Rightarrow> 0), rt_intf = intf\<rparr>) \<and>
    r \<notin> set rs"
proof -
  let ?head = "s_routeTable s" and ?larger = "\<lambda>x. msk < rt_mask (routes s x)"
  let ?R = "(routes s)(r := \<lparr>rt_dst = dst, rt_mask = msk, rt_gateway = (case gw of Some g \<Rightarrow> g | None \<Rightarrow> 0), rt_intf = intf\<rparr>)"
  define s2 where "s2 = s\<lparr>nmm := h, nlinks := link_init (nlinks s) r, routes := ?R\<rparr>"
  have holds: "holds (nmm s) (map (\<lambda>r. (r, sizeof_NetRoute)) rs @ A)" and list: "link_list (nlinks s) ?head rs"
    and heads: "?head < heap_begin (nmm s)" using ok by (auto simp: net_ok_def route_list_def)
  have sz: "size_ok sizeof_NetRoute" by (simp add: size_ok_def sizeof_NetRoute_def)
  have new: "holds h ((r, sizeof_NetRoute) # map (\<lambda>r. (r, sizeof_NetRoute)) rs @ A)"
    using holds_alloc [OF holds sz m] by blast
  have fresh: "r \<notin> set rs" using holds_head_fresh [OF new, of _ sizeof_NetRoute] by force
  have "heap_begin h = heap_begin (nmm s)" using malloc_begin [OF m] .
  with holds_above_begin [OF new, of r sizeof_NetRoute] heads have "r \<noteq> ?head"
    by (auto simp: word_less_nat_alt)
  with fresh list have list2: "link_list (nlinks s2) ?head rs" "r \<notin> set (?head # rs)"
    using link_init_outside [of "nlinks s" ?head rs r] by (simp_all add: s2_def)
  have "kalloc sizeof_NetRoute s = Some (r, s\<lparr>nmm := h\<rparr>)" by (simp add: kalloc_def m)
  moreover have "route_place_loop msk (lnk_next (nlinks s2 ?head)) s2 =
      Some (case find ?larger rs of None \<Rightarrow> ?head | Some p \<Rightarrow> p)"
  proof -
    have "find (\<lambda>x. msk < rt_mask (routes s2 x)) rs = find ?larger rs"
      by (rule find_cong) (use fresh in \<open>auto simp: s2_def\<close>)
    moreover have "s_routeTable s2 = ?head" by (simp add: s2_def)
    ultimately show ?thesis
      using route_place_segment [of s2 "lnk_prevs (nlinks s2)" ?head rs msk] list2(1)
      by (simp add: link_list_def is_ring_def split: option.split)
  qed
  ultimately have add: "net_route_add dst msk gw intf s =
      Some (s2\<lparr>nlinks := link_after (nlinks s2) (case find ?larger rs of None \<Rightarrow> ?head | Some p \<Rightarrow> p) r\<rparr>)"
    by (simp add: net_route_add_def s2_def Let_def)
  let ?s' = "s2\<lparr>nlinks := link_after (nlinks s2) (case find ?larger rs of None \<Rightarrow> ?head | Some p \<Rightarrow> p) r\<rparr>"
  have "route_list ?s' (place_route ?larger r rs)"
  proof (cases rule: place_route_cases [of ?larger rs r])
    case front
    then show ?thesis using link_after_list [OF list2] by (simp add: route_list_def s2_def)
  next
    case (behind p ys zs)
    then show ?thesis using link_after_element [of "nlinks s2" ?head ys p zs r] list2
      by (simp add: route_list_def s2_def)
  qed
  moreover have "mset (place_route ?larger r rs) = mset (r # rs)"
    by (cases rule: place_route_cases [of ?larger rs r]) auto
  then have "mset (map (\<lambda>r. (r, sizeof_NetRoute)) (place_route ?larger r rs) @ A) =
      mset ((r, sizeof_NetRoute) # map (\<lambda>r. (r, sizeof_NetRoute)) rs @ A)"
    by simp
  then have "holds h (map (\<lambda>r. (r, sizeof_NetRoute)) (place_route ?larger r rs) @ A)"
    by (intro holds_perm [OF new]) simp
  ultimately have "net_ok ?s' (place_route ?larger r rs) A"
    using ok malloc_begin [OF m] by (simp add: net_ok_def s2_def)
  with add fresh show ?thesis by (simp add: s2_def)
qed

text \<open>
  C23. \<open>net_route_find\<close> returns the first route of the table that matches, and reports none when
  no route does; it always comes to the end of the table.
\<close>

theorem net_route_find_first:
  assumes "net_ok s rs A"
  shows "net_route_find dst s = Some (find (\<lambda>r. route_matches dst (routes s r)) rs)"
  using assms route_find_segment [where s = s and pv = "lnk_prevs (nlinks s)" and a = "s_routeTable s" and rs = rs and dst = dst]
  by (simp add: net_ok_def route_list_def link_list_def is_ring_def net_route_find_def)

text \<open>A table that is empty, with room in the heap.\<close>

definition sample_net :: "nat net" where
  "sample_net = \<lparr>nmm = sample_heap,
     nlinks = link_init (link_init (link_init (\<lambda>_. \<lparr>lnk_prev = 0, lnk_next = 0\<rparr>) 0x1000) 0x1100) 0x1200,
     s_netFreeBufs = 0x1000, g_netIntfList = 0x1100, s_routeTable = 0x1200, g_netBufAllocCount = 0,
     bufs = (\<lambda>_. zero_buf), intfs = (\<lambda>_. zero_intf),
     routes = (\<lambda>_. \<lparr>rt_dst = 0, rt_mask = 0, rt_gateway = 0, rt_intf = 0\<rparr>),
     arpCache = replicate 16 \<lparr>ae_ha = g_nullEthAddr, ae_pa = 0, ae_intf = 0, ae_etherType = 0, ae_pkt = 0\<rparr>,
     wire = 0\<rparr>"

lemma sample_net_ok: "net_ok sample_net [] [] \<and> heap_room (nmm sample_net) 10000"
proof -
  have "heap_good sample_heap" using sample_heap_ok by (auto simp: heap_good_def)
  then show ?thesis
    by (auto simp: link_init_empty net_ok_def route_list_def sample_net_def holds_start heap_room_def sample_heap_def)
qed

text \<open>
  The table is not ordered by the length of the masks: when a route with a shorter mask is added
  to a table with a long and a middle one, it lands before the middle one, and a destination that
  matches both gets the less specific route, where it got the middle one before.
\<close>

theorem net_route_add_unordered:
  assumes ok: "net_ok s [r1, r2] A" and m: "malloc (nmm s) sizeof_NetRoute = Some (Ret r3, h)"
    and masks: "msk < rt_mask (routes s r2)" "rt_mask (routes s r2) < rt_mask (routes s r1)"
    and dst: "\<not> route_matches dst (routes s r1)" "route_matches dst (routes s r2)" "dst AND msk = d"
  shows "net_route_find dst s = Some (Some r2) \<and>
    (\<exists>s'. net_route_add d msk gw intf s = Some s' \<and> net_route_find dst s' = Some (Some r3) \<and>
      rt_mask (routes s' r3) < rt_mask (routes s' r2))"
proof -
  have f: "net_route_find x t = Some (find (\<lambda>r. route_matches x (routes t r)) rs)" if "net_ok t rs A"
    for x and t :: "'a net" and rs
    using that route_find_segment [where s = t and pv = "lnk_prevs (nlinks t)" and a = "s_routeTable t" and rs = rs and dst = x]
    by (simp add: net_ok_def route_list_def link_list_def is_ring_def net_route_find_def)
  obtain s' where s': "net_route_add d msk gw intf s = Some s'"
      "net_ok s' (place_route (\<lambda>x. msk < rt_mask (routes s x)) r3 [r1, r2]) A"
      "routes s' = (routes s)(r3 := \<lparr>rt_dst = d, rt_mask = msk,
        rt_gateway = (case gw of Some g \<Rightarrow> g | None \<Rightarrow> 0), rt_intf = intf\<rparr>)" "r3 \<notin> set [r1, r2]"
    using net_route_add_ok [OF ok m, of d msk gw intf] by blast
  have "place_route (\<lambda>x. msk < rt_mask (routes s x)) r3 [r1, r2] = [r1, r3, r2]"
    using masks less_trans [OF masks] by (simp add: place_route_def)
  with f [OF ok] f [of s' "[r1, r3, r2]"] s' masks dst show ?thesis
    by (auto simp: route_matches_def)
qed

theorem net_route_find_first_witness: "net_route_find 7 sample_net = Some None"
  using net_route_find_first [of sample_net "[]" "[]" 7] sample_net_ok by simp

theorem net_route_add_unordered_witness:
  "\<exists>s r2 r3. net_route_find 0x050A (s :: nat net) = Some (Some r2) \<and>
     (\<exists>s'. net_route_add 0x0A 0xFF None 0 s = Some s' \<and> net_route_find 0x050A s' = Some (Some r3) \<and>
       rt_mask (routes s' r3) < rt_mask (routes s' r2))"
proof -
  have sz: "size_ok sizeof_NetRoute" "unat sizeof_NetRoute = 24" by (simp_all add: size_ok_def sizeof_NetRoute_def)
  note room = malloc_heap_room [OF _ sz(1), unfolded sz(2)]
  have "heap_room (nmm sample_net) (24 + 12 + 5000)" using sample_net_ok by (auto simp: heap_room_def)
  from room [OF this] obtain r1 h1 where h1: "malloc (nmm sample_net) sizeof_NetRoute = Some (Ret r1, h1)" "heap_room h1 5000" by blast
  obtain s1 :: "nat net" where s1: "nmm s1 = h1" "net_ok s1 [r1] []" "rt_mask (routes s1 r1) = 0xFFFFFF" "rt_dst (routes s1 r1) = 0x01020A"
    using net_route_add_ok [OF conjunct1 [OF sample_net_ok] h1(1), of "0x01020A" "0xFFFFFF" None 0]
    by (auto simp: place_route_def)
  have "heap_room (nmm s1) (24 + 12 + 4000)" using s1 h1 by (auto simp: heap_room_def)
  from room [OF this] obtain r2 h2 where h2: "malloc (nmm s1) sizeof_NetRoute = Some (Ret r2, h2)" "heap_room h2 4000" by blast
  obtain s2 :: "nat net" where s2: "nmm s2 = h2" "net_ok s2 [r1, r2] []" "rt_mask (routes s2 r2) = 0xFFFF" "rt_dst (routes s2 r2) = 0x050A"
      "routes s2 r1 = routes s1 r1"
    using net_route_add_ok [OF s1(2) h2(1), of "0x050A" "0xFFFF" None 0] s1(3) by (auto simp: place_route_def)
  have "heap_room (nmm s2) (24 + 12 + 3000)" using s2 h2 by (auto simp: heap_room_def)
  from room [OF this] obtain r3 h3 where h3: "malloc (nmm s2) sizeof_NetRoute = Some (Ret r3, h3)" by blast
  show ?thesis
    using net_route_add_unordered [OF s2(2) h3, of "0xFF" "0x050A" "0x0A" None 0] s1 s2
    by (auto simp: route_matches_def)
qed

end
