(* ===== verification/Net_Stack.thy ===== *)
theory Net_Stack
  imports Net_Base
begin

text \<open>
  The protocols: \<open>src/net/arp.c\<close>, \<open>src/net/eth.c\<close>, \<open>src/net/ipv4.c\<close> and \<open>src/net/icmp.c\<close>. The
  headers are read from and written to the bytes of the packet. A function that gets a pointer
  to an address gets its value here. \<open>dev\<close> is what the driver of an interface does with a packet
  (\<open>devSend\<close>); \<open>sched\<close> and \<open>m_memcpy\<close> are what \<open>memcpy\<close> takes. As in the part below, \<open>None\<close> is a
  call that never returns. Messages and the functions that only print are left out; the
  \<open>*_print\<close> functions of packets return before they print anything.
\<close>

type_synonym 'w dev = "addr \<Rightarrow> addr \<Rightarrow> 'w net \<Rightarrow> 'w net option"

definition read_bytes :: "mem \<Rightarrow> addr \<Rightarrow> nat \<Rightarrow> uint8 list" where
  "read_bytes m p n = map (\<lambda>i. m (p + of_nat i)) [0..<n]"

text \<open>An IPv4 address, four bytes in memory, and a value of 16 bits in network order.\<close>

definition read_ipv4 :: "mem \<Rightarrow> addr \<Rightarrow> IPv4Addr" where "read_ipv4 m p = load32 m p"

definition ipv4_bytes :: "IPv4Addr \<Rightarrow> uint8 list" where
  "ipv4_bytes x = map (ipv4_n x) [0..<4]"

definition put_bytes :: "addr \<Rightarrow> uint8 list \<Rightarrow> 'w net \<Rightarrow> 'w net" where
  "put_bytes p bs s = set_nram (write_bytes (nram s) p bs) s"

definition hi8 :: "uint16 \<Rightarrow> uint8" where "hi8 x = ucast (drop_bit 8 x AND 0xff)"
definition lo8 :: "uint16 \<Rightarrow> uint8" where "lo8 x = ucast (x AND 0xff)"

definition ET_IPV4 :: uint16 where "ET_IPV4 = 0x0800"
definition ET_ARP :: uint16 where "ET_ARP = 0x0806"
definition ET_IPV6 :: uint16 where "ET_IPV6 = 0x86DD"
definition IP_PROTO_ICMP :: uint8 where "IP_PROTO_ICMP = 1"
definition ARP_HTYPE_ETH :: uint16 where "ARP_HTYPE_ETH = 0x01"
definition ARP_OP_REQUEST :: uint16 where "ARP_OP_REQUEST = 0x01"
definition ARP_OP_REPLY :: uint16 where "ARP_OP_REPLY = 0x02"
definition ARP_CACHE_SIZE :: nat where "ARP_CACHE_SIZE = 16"
definition ICMP_TYPE_ECHO_REPLY :: uint8 where "ICMP_TYPE_ECHO_REPLY = 0"
definition ICMP_TYPE_ECHO_REQUEST :: uint8 where "ICMP_TYPE_ECHO_REQUEST = 8"

section \<open>Ethernet frames (eth.c)\<close>

definition sizeof_EthHeader :: uint32 where "sizeof_EthHeader = 14"

record EthPacket =
  ep_hdr :: addr
  ep_etherType :: uint16
  ep_hdrLen :: uint16

definition eth_decode :: "NetBuf \<Rightarrow> mem \<Rightarrow> EthPacket option" where
  "eth_decode pkt m =
     (if nb_start pkt + sizeof_EthHeader > nb_end pkt then None
      else let data = nb_start pkt; n = net_swap16 (load16 m (data + 12))
        in if n \<le> 1500 \<and> nb_start pkt + 22 \<le> nb_end pkt
           then (let dsap = m (data + 14); ssap = m (data + 15)
                 in if dsap \<noteq> 0xaa \<or> ssap \<noteq> 0xaa then None
                    else Some \<lparr>ep_hdr = data,
                      ep_etherType = push_bit 8 (ucast (m (data + 20))) OR ucast (m (data + 21)), ep_hdrLen = 22\<rparr>)
           else Some \<lparr>ep_hdr = data, ep_etherType = n, ep_hdrLen = 14\<rparr>)"

definition eth_print :: "addr \<Rightarrow> 'w net \<Rightarrow> 'w net" where "eth_print pkt s = s"

text \<open>The end of \<open>eth_send_intf\<close>: the header goes in front of the packet, then the driver gets it.\<close>

definition eth_send_frame :: "'w dev \<Rightarrow> addr \<Rightarrow> EthAddr \<Rightarrow> uint16 \<Rightarrow> addr \<Rightarrow> 'w net \<Rightarrow> 'w net option" where
  "eth_send_frame dev intf dst etherType pkt s =
     (let s1 = set_buf pkt (\<lambda>b. b\<lparr>nb_start := nb_start b - sizeof_EthHeader\<rparr>) s;
          hdr = nb_start (bufs s1 pkt);
          s2 = put_bytes hdr (take 6 dst) s1;
          s3 = put_bytes (hdr + 6) (take 6 (if_ethAddr (intfs s2 intf))) s2;
          s4 = set_nram (store16 (nram s3) (hdr + 12) (net_swap16 etherType)) s3;
          s5 = eth_print pkt s4
      in case if_devSend (intfs s5 intf) of None \<Rightarrow> None | Some f \<Rightarrow> dev intf pkt s5)"

section \<open>Address resolution (arp.c)\<close>

definition arp_print :: "addr \<Rightarrow> 'w net \<Rightarrow> 'w net" where "arp_print pkt s = s"

text \<open>
  The send function of an interface is \<open>eth_send_intf\<close>, which the driver stores there. \<open>arp_send\<close>
  calls it with the type \<open>ET_ARP\<close> and the address \<open>tha\<close>, for which it is \<open>eth_send_frame\<close>: see
  \<open>eth_send_intf_arp\<close> below.
\<close>

definition arp_send :: "'w dev \<Rightarrow> addr \<Rightarrow> uint16 \<Rightarrow> EthAddr \<Rightarrow> IPv4Addr \<Rightarrow> 'w net \<Rightarrow> 'w net option" where
  "arp_send dev intf op tha tpa s = do {
     (pkt, s1) \<leftarrow> net_alloc_buf s;
     let data = nb_start (bufs s1 pkt);
     let s2 = put_bytes data [hi8 ARP_HTYPE_ETH, lo8 ARP_HTYPE_ETH, hi8 ET_IPV4, lo8 ET_IPV4, 6, 4, hi8 op, lo8 op] s1;
     let s3 = put_bytes (data + 8) (take 6 (if_ethAddr (intfs s2 intf))) s2;
     let s4 = put_bytes (data + 14) (ipv4_bytes (if_ipAddr (intfs s3 intf))) s3;
     let s5 = put_bytes (data + 18) (take 6 (if op = ARP_OP_REQUEST then g_nullEthAddr else tha)) s4;
     let s6 = put_bytes (data + 24) (ipv4_bytes tpa) s5;
     let s7 = arp_print pkt (set_buf pkt (\<lambda>b. b\<lparr>nb_end := nb_end b + 28\<rparr>) s6);
     case if_send (intfs s7 intf) of None \<Rightarrow> None | Some f \<Rightarrow> eth_send_frame dev intf tha ET_ARP pkt s7
   }"

text \<open>The searches give the index of an entry of \<open>arpCache\<close>.\<close>

function cache_search :: "(ArpEntry \<Rightarrow> bool) \<Rightarrow> ArpEntry list \<Rightarrow> nat \<Rightarrow> nat option" where
  "cache_search P c i =
     (if i \<ge> ARP_CACHE_SIZE then None else if P (c ! i) then Some i else cache_search P c (i + 1))"
  by auto
termination by (relation "measure (\<lambda>(P, c, i). ARP_CACHE_SIZE - i)") auto

declare cache_search.simps [simp del]

definition arp_lookup :: "IPv4Addr \<Rightarrow> 'w net \<Rightarrow> nat option" where
  "arp_lookup pa s = cache_search (\<lambda>e. addr_ipv4_eq (ae_pa e) pa) (arpCache s) 0"

definition set_entry :: "nat \<Rightarrow> (ArpEntry \<Rightarrow> ArpEntry) \<Rightarrow> 'w net \<Rightarrow> 'w net" where
  "set_entry i f s = s\<lparr>arpCache := (arpCache s)[i := f (arpCache s ! i)]\<rparr>"

definition arp_add :: "EthAddr \<Rightarrow> IPv4Addr \<Rightarrow> 'w net \<Rightarrow> nat option \<times> 'w net" where
  "arp_add ha pa s =
     (case cache_search (\<lambda>e. ae_pa e = 0) (arpCache s) 0 of
        None \<Rightarrow> (None, s)
      | Some i \<Rightarrow> (Some i, set_entry i (\<lambda>e. e\<lparr>ae_ha := ha, ae_pa := pa\<rparr>) s))"

definition arp_request :: "'w dev \<Rightarrow> addr \<Rightarrow> IPv4Addr \<Rightarrow> uint16 \<Rightarrow> addr \<Rightarrow> 'w net \<Rightarrow> 'w net option" where
  "arp_request dev intf tpa etherType pkt s =
     (let (entry, s1) = (case arp_lookup tpa s of Some i \<Rightarrow> (Some i, s) | None \<Rightarrow> arp_add g_nullEthAddr tpa s)
      in case entry of
        None \<Rightarrow> Some s1
      | Some i \<Rightarrow>
          let old = ae_pkt (arpCache s1 ! i);
              s2 = (if old \<noteq> 0 then net_release_buf old s1 else s1);
              s3 = set_entry i (\<lambda>e. e\<lparr>ae_intf := intf, ae_etherType := etherType, ae_pkt := pkt\<rparr>) s2
          in arp_send dev intf ARP_OP_REQUEST g_broadcastEthAddr tpa s3)"

definition arp_reply :: "'w dev \<Rightarrow> addr \<Rightarrow> EthAddr \<Rightarrow> IPv4Addr \<Rightarrow> 'w net \<Rightarrow> 'w net option" where
  "arp_reply dev intf tha tpa s = arp_send dev intf ARP_OP_REPLY tha tpa s"

text \<open>The loop clears the two addresses of every entry and leaves the other fields.\<close>

definition arp_init :: "'w net \<Rightarrow> 'w net" where
  "arp_init s = s\<lparr>arpCache := map (\<lambda>e. e\<lparr>ae_ha := g_nullEthAddr, ae_pa := 0\<rparr>) (arpCache s)\<rparr>"

definition arp_lookup_eth_addr :: "IPv4Addr \<Rightarrow> 'w net \<Rightarrow> EthAddr option" where
  "arp_lookup_eth_addr pa s = map_option (\<lambda>i. ae_ha (arpCache s ! i)) (arp_lookup pa s)"

section \<open>Sending frames (eth.c)\<close>

datatype net_addr = Eth EthAddr | IPv4 IPv4Addr

text \<open>
  \<open>dst\<close> is the address that \<open>dstAddr\<close> points to, of the kind that goes with \<open>etherType\<close>; a
  pointer of the wrong kind is never passed.
\<close>

definition eth_send_intf :: "'w dev \<Rightarrow> addr \<Rightarrow> net_addr \<Rightarrow> uint16 \<Rightarrow> addr \<Rightarrow> 'w net \<Rightarrow> 'w net option" where
  "eth_send_intf dev intf dst etherType pkt s =
     (case dst of
        Eth a \<Rightarrow> if etherType = ET_ARP then eth_send_frame dev intf a etherType pkt s else Some s
      | IPv4 a \<Rightarrow>
          if etherType = ET_IPV4 then
            (if addr_ipv4_eq a (if_broadcastAddr (intfs s intf))
             then eth_send_frame dev intf g_broadcastEthAddr etherType pkt s
             else case arp_lookup_eth_addr a s of
               None \<Rightarrow> arp_request dev intf a etherType pkt s
             | Some ha \<Rightarrow> eth_send_frame dev intf ha etherType pkt s)
          else Some s)"

lemma eth_send_intf_arp: "eth_send_intf dev intf (Eth a) ET_ARP pkt s = eth_send_frame dev intf a ET_ARP pkt s"
  by (simp add: eth_send_intf_def)

section \<open>Receiving ARP packets (arp.c)\<close>

definition arp_recv :: "'w dev \<Rightarrow> addr \<Rightarrow> addr \<Rightarrow> 'w net \<Rightarrow> 'w net option" where
  "arp_recv dev intf pkt s0 =
     (let s = arp_print pkt s0; b = bufs s pkt; m = nram s
      in if nb_start b + 8 > nb_end b then Some s
         else let data = nb_start b;
              htype = net_swap16 (load16 m data);
              ptype = net_swap16 (load16 m (data + 2));
              op = net_swap16 (load16 m (data + 6))
           in if htype \<noteq> ARP_HTYPE_ETH \<or> ptype \<noteq> ET_IPV4 \<or> nb_start b + 28 > nb_end b then Some s
              else let sha = read_bytes m (data + 8) 6;
                   spa = read_ipv4 m (data + 14);
                   tpa = read_ipv4 m (data + 24)
                in do {
                  (merge, s1) \<leftarrow> (case arp_lookup spa s of
                      None \<Rightarrow> Some (False, s)
                    | Some i \<Rightarrow>
                        (let s1 = set_entry i (\<lambda>e. e\<lparr>ae_ha := sha\<rparr>) s; e = arpCache s1 ! i
                         in if ae_pkt e \<noteq> 0 then do {
                              s2 \<leftarrow> eth_send_intf dev (ae_intf e) (IPv4 spa) (ae_etherType e) (ae_pkt e) s1;
                              Some (True, set_entry i (\<lambda>e. e\<lparr>ae_intf := 0, ae_etherType := 0, ae_pkt := 0\<rparr>) s2) }
                            else Some (True, s1)));
                  if addr_ipv4_eq tpa (if_ipAddr (intfs s1 intf)) then
                    (let s2 = (if merge then s1 else snd (arp_add sha spa s1))
                     in if op = ARP_OP_REQUEST then arp_reply dev intf sha spa s2 else Some s2)
                  else Some s1
                })"

section \<open>IPv4 and ICMP (ipv4.c, icmp.c)\<close>

definition sizeof_Ipv4Header :: uint32 where "sizeof_Ipv4Header = 20"

definition ipv4_print :: "addr \<Rightarrow> 'w net \<Rightarrow> 'w net" where "ipv4_print pkt s = s"

text \<open>
  The header in front of the packet; the first byte holds \<open>ihl\<close> in its low and \<open>version\<close> in its
  high half. The length is the difference of two pointers, cut to 16 bits.
\<close>

definition ipv4_header :: "uint32 \<Rightarrow> uint8 \<Rightarrow> IPv4Addr \<Rightarrow> IPv4Addr \<Rightarrow> uint8 list" where
  "ipv4_header len protocol src dst =
     [0x45, 0, hi8 (ucast len), lo8 (ucast len), 0, 0, 0, 0, 64, protocol, 0, 0] @ ipv4_bytes src @ ipv4_bytes dst"

definition ipv4_send_intf ::
  "'w dev \<Rightarrow> addr \<Rightarrow> IPv4Addr \<Rightarrow> IPv4Addr \<Rightarrow> uint8 \<Rightarrow> addr \<Rightarrow> 'w net \<Rightarrow> 'w net option" where
  "ipv4_send_intf dev intf nextAddr dstAddr protocol pkt s =
     (let s1 = set_buf pkt (\<lambda>b. b\<lparr>nb_start := nb_start b - sizeof_Ipv4Header\<rparr>) s;
          b = bufs s1 pkt; hdr = nb_start b;
          s2 = put_bytes hdr (ipv4_header (nb_end b - nb_start b) protocol (if_ipAddr (intfs s1 intf)) dstAddr) s1;
          checksum = net_checksum (nram s2) hdr (hdr + sizeof_Ipv4Header);
          s3 = ipv4_print pkt (set_nram (store16 (nram s2) (hdr + 10) (net_swap16 checksum)) s2)
      in case if_send (intfs s3 intf) of None \<Rightarrow> None
         | Some f \<Rightarrow> eth_send_intf dev intf (IPv4 nextAddr) ET_IPV4 pkt s3)"

definition ipv4_send :: "'w dev \<Rightarrow> IPv4Addr \<Rightarrow> uint8 \<Rightarrow> addr \<Rightarrow> 'w net \<Rightarrow> 'w net option" where
  "ipv4_send dev dstAddr protocol pkt s = do {
     route \<leftarrow> net_route_find dstAddr s;
     case route of
       None \<Rightarrow> Some s
     | Some r \<Rightarrow> ipv4_send_intf dev (rt_intf (routes s r)) (net_route_next_addr (routes s r) dstAddr) dstAddr protocol pkt s
   }"

definition icmp_print :: "addr \<Rightarrow> 'w net \<Rightarrow> 'w net" where "icmp_print pkt s = s"

text \<open>The two senders of echo messages differ in the type only.\<close>

definition icmp_echo ::
  "(mem \<Rightarrow> mem) \<Rightarrow> addr \<Rightarrow> 'w dev \<Rightarrow> uint8 \<Rightarrow> IPv4Addr \<Rightarrow> uint16 \<Rightarrow> uint16 \<Rightarrow> addr \<Rightarrow> addr \<Rightarrow> 'w net \<Rightarrow> 'w net option" where
  "icmp_echo sched m_memcpy dev type dstAddr id' sequence echoData echoEnd s = do {
     let echoLen = echoEnd - echoData;
     (pkt, s1) \<leftarrow> net_alloc_buf s;
     let data = nb_start (bufs s1 pkt);
     let s2 = put_bytes data [type, 0, 0, 0, hi8 id', lo8 id', hi8 sequence, lo8 sequence] s1;
     m3 \<leftarrow> memcpy sched m_memcpy (nram s2) (data + 8) data echoLen;
     let s4 = set_buf pkt (\<lambda>b. b\<lparr>nb_end := nb_end b + (9 + echoLen)\<rparr>) (set_nram m3 s2);
     let checksum = net_checksum (nram s4) (nb_start (bufs s4 pkt)) (nb_end (bufs s4 pkt));
     let s5 = put_bytes (data + 2) [hi8 checksum, lo8 checksum] s4;
     ipv4_send dev dstAddr IP_PROTO_ICMP pkt (icmp_print pkt s5)
   }"

definition icmp_echo_reply ::
  "(mem \<Rightarrow> mem) \<Rightarrow> addr \<Rightarrow> 'w dev \<Rightarrow> IPv4Addr \<Rightarrow> uint16 \<Rightarrow> uint16 \<Rightarrow> addr \<Rightarrow> addr \<Rightarrow> 'w net \<Rightarrow> 'w net option" where
  "icmp_echo_reply sched m_memcpy dev = icmp_echo sched m_memcpy dev ICMP_TYPE_ECHO_REPLY"

definition icmp_echo_request ::
  "(mem \<Rightarrow> mem) \<Rightarrow> addr \<Rightarrow> 'w dev \<Rightarrow> IPv4Addr \<Rightarrow> uint16 \<Rightarrow> uint16 \<Rightarrow> addr \<Rightarrow> addr \<Rightarrow> 'w net \<Rightarrow> 'w net option" where
  "icmp_echo_request sched m_memcpy dev = icmp_echo sched m_memcpy dev ICMP_TYPE_ECHO_REQUEST"

text \<open>
  Of the data that is to be echoed only the length is used: the bytes that are sent are those in front
  of the place they are sent from, so a reply does not carry what the request did.
\<close>

theorem icmp_echo_ignores_data:
  assumes "echoEnd - echoData = echoEnd' - echoData'"
  shows "icmp_echo_reply sched lk dev dst id' sq echoData echoEnd s = icmp_echo_reply sched lk dev dst id' sq echoData' echoEnd' s"
  using assms by (simp add: icmp_echo_reply_def icmp_echo_def Let_def)

text \<open>\<open>src\<close> is the source address in the IP header. An echo reply is only reported.\<close>

definition icmp_recv ::
  "(mem \<Rightarrow> mem) \<Rightarrow> addr \<Rightarrow> 'w dev \<Rightarrow> addr \<Rightarrow> IPv4Addr \<Rightarrow> addr \<Rightarrow> 'w net \<Rightarrow> 'w net option" where
  "icmp_recv sched m_memcpy dev intf src pkt s0 =
     (let s = icmp_print pkt s0; b = bufs s pkt; m = nram s
      in if nb_start b + 8 > nb_end b then Some s
         else let data = nb_start b; type = m data;
              id' = push_bit 8 (ucast (m (data + 4))) OR ucast (m (data + 5));
              sequence = push_bit 8 (ucast (m (data + 6))) OR ucast (m (data + 7))
           in if type = ICMP_TYPE_ECHO_REQUEST
              then icmp_echo_reply sched m_memcpy dev src id' sequence (data + 8) (nb_end b) s
              else Some s)"

definition ipv4_recv :: "(mem \<Rightarrow> mem) \<Rightarrow> addr \<Rightarrow> 'w dev \<Rightarrow> addr \<Rightarrow> addr \<Rightarrow> 'w net \<Rightarrow> 'w net option" where
  "ipv4_recv sched m_memcpy dev intf pkt s0 =
     (let s = ipv4_print pkt s0; b = bufs s pkt; m = nram s; hdr = nb_start b
      in if nb_start b + sizeof_Ipv4Header > nb_end b then Some s
         else if drop_bit 4 (m hdr) \<noteq> 4 then Some s
         else if net_swap16 (load16 m (hdr + 6)) AND 0x1fff \<noteq> 0 then Some s
         else let ihl = m hdr AND 0xf; ipEnd = nb_start b + ucast (net_swap16 (load16 m (hdr + 2)))
           in if ipEnd > nb_end b then Some s
              else let s1 = set_buf pkt (\<lambda>b. b\<lparr>nb_start := nb_start b + push_bit 2 (ucast ihl), nb_end := ipEnd\<rparr>) s
                in if m (hdr + 9) = IP_PROTO_ICMP
                   then icmp_recv sched m_memcpy dev intf (read_ipv4 m (hdr + 12)) pkt s1
                   else Some s1)"

section \<open>Receiving frames (eth.c)\<close>

definition eth_recv :: "(mem \<Rightarrow> mem) \<Rightarrow> addr \<Rightarrow> 'w dev \<Rightarrow> addr \<Rightarrow> addr \<Rightarrow> 'w net \<Rightarrow> 'w net option" where
  "eth_recv sched m_memcpy dev intf pkt s0 =
     (let s = eth_print pkt s0
      in case eth_decode (bufs s pkt) (nram s) of
        None \<Rightarrow> Some s
      | Some ep \<Rightarrow>
          let s1 = set_buf pkt (\<lambda>b. b\<lparr>nb_start := nb_start b + ucast (ep_hdrLen ep)\<rparr>) s
          in if ep_etherType ep = ET_ARP then arp_recv dev intf pkt s1
             else if ep_etherType ep = ET_IPV4 then ipv4_recv sched m_memcpy dev intf pkt s1
             else Some s1)"

section \<open>Packets in memory\<close>

lemma put_bytes_fields [simp]:
  "bufs (put_bytes p bs s) = bufs s" "intfs (put_bytes p bs s) = intfs s" "routes (put_bytes p bs s) = routes s"
  "arpCache (put_bytes p bs s) = arpCache s" "nlinks (put_bytes p bs s) = nlinks s" "wire (put_bytes p bs s) = wire s"
  "s_routeTable (put_bytes p bs s) = s_routeTable s"
  "nram (put_bytes p bs s) = write_bytes (nram s) p bs"
  by (simp_all add: put_bytes_def set_nram_def nram_def)

lemma set_nram_fields [simp]:
  "bufs (set_nram m s) = bufs s" "intfs (set_nram m s) = intfs s" "routes (set_nram m s) = routes s"
  "arpCache (set_nram m s) = arpCache s" "nlinks (set_nram m s) = nlinks s" "wire (set_nram m s) = wire s"
  "s_routeTable (set_nram m s) = s_routeTable s" "nram (set_nram m s) = m"
  by (simp_all add: set_nram_def nram_def)

lemma set_buf_fields [simp]:
  "bufs (set_buf p f s) = (bufs s)(p := f (bufs s p))" "intfs (set_buf p f s) = intfs s"
  "routes (set_buf p f s) = routes s" "arpCache (set_buf p f s) = arpCache s" "nlinks (set_buf p f s) = nlinks s"
  "wire (set_buf p f s) = wire s" "s_routeTable (set_buf p f s) = s_routeTable s" "nram (set_buf p f s) = nram s"
  by (simp_all add: set_buf_def nram_def)

lemmas prints = eth_print_def arp_print_def ipv4_print_def icmp_print_def

lemma six_bytes:
  assumes "length xs = 6" obtains a b c d e f where "xs = [a, b, c, d, e, f]"
  using assms by (auto simp: numeral_eq_Suc length_Suc_conv)

lemma read_bytes_six: "read_bytes m p 6 = [m p, m (p + 1), m (p + 2), m (p + 3), m (p + 4), m (p + 5)]"
  by (simp add: read_bytes_def numeral_eq_Suc upt_conv_Cons)

text \<open>
  C19. What \<open>eth_send_intf\<close> hands to the driver decodes to what was sent: for a protocol with an
  ethertype above 1500 the frame begins 14 bytes before the packet, with the destination, the
  address of the interface and the ethertype, and \<open>eth_decode\<close> finds the header and its length.
\<close>

theorem eth_frame_decodes:
  assumes "1500 < et" "length dst = 6" "length (if_ethAddr (intfs s intf)) = 6"
    and "nb_start (bufs s pkt) \<le> nb_end (bufs s pkt)" "if_devSend (intfs s intf) \<noteq> None"
  shows "\<exists>s'. eth_send_frame dev intf dst et pkt s = dev intf pkt s' \<and>
    nb_start (bufs s' pkt) = nb_start (bufs s pkt) - 14 \<and> nb_end (bufs s' pkt) = nb_end (bufs s pkt) \<and>
    eth_decode (bufs s' pkt) (nram s') =
      Some \<lparr>ep_hdr = nb_start (bufs s pkt) - 14, ep_etherType = et, ep_hdrLen = 14\<rparr> \<and>
    read_bytes (nram s') (nb_start (bufs s' pkt)) 6 = dst \<and>
    read_bytes (nram s') (nb_start (bufs s' pkt) + 6) 6 = if_ethAddr (intfs s intf) \<and>
    (\<forall>x. \<not> in_range (nb_start (bufs s pkt) - 14) 14 x \<longrightarrow> nram s' x = nram s x)"
proof -
  let ?h = "nb_start (bufs s pkt) - 14"
  obtain a b c d e f where dst: "dst = [a, b, c, d, e, f]" using six_bytes [OF assms(2)] .
  obtain a' b' c' d' e' f' where src: "if_ethAddr (intfs s intf) = [a', b', c', d', e', f']" using six_bytes [OF assms(3)] .
  define m where "m = store16 (write_bytes (write_bytes (nram s) ?h dst) (?h + 6) (if_ethAddr (intfs s intf))) (?h + 12) (net_swap16 et)"
  define s' where "s' = set_nram m (put_bytes (?h + 6) (if_ethAddr (intfs s intf))
     (put_bytes ?h dst (set_buf pkt (\<lambda>b. b\<lparr>nb_start := nb_start b - 14\<rparr>) s)))"
  have "eth_send_frame dev intf dst et pkt s = dev intf pkt s'"
    using assms(2,3,5) by (auto simp: eth_send_frame_def Let_def sizeof_EthHeader_def prints s'_def m_def)
  moreover have b: "bufs s' pkt = (bufs s pkt)\<lparr>nb_start := ?h\<rparr>" "nram s' = m" by (simp_all add: s'_def)
  moreover have "load16 m (?h + 12) = net_swap16 et" by (simp add: m_def)
  moreover have "read_bytes m ?h 6 = dst" "read_bytes m (?h + 6) 6 = if_ethAddr (intfs s intf)"
    by (simp_all add: read_bytes_six m_def dst src store16_def)
  moreover have "m x = nram s x" if "\<not> in_range ?h 14 x" for x
  proof -
    have "x \<notin> (\<lambda>k. ?h + k) ` {0, 1, 2, 3, 4, 5, 6, 7, 8, 9, 10, 11, 12, 13}" using that by (auto simp: in_range_def)
    then show ?thesis by (simp add: m_def dst src store16_def)
  qed
  moreover have "\<not> et \<le> 1500" using assms(1) by (simp add: not_le)
  ultimately show ?thesis
    using assms(4) by (intro exI [of _ s']) (simp add: eth_decode_def sizeof_EthHeader_def Let_def not_less)
qed

definition sample_intf :: NetIntf where
  "sample_intf = zero_intf\<lparr>if_ethAddr := [2, 0, 0, 0, 0, 1], if_ipAddr := ipv4_of_n 10 0 0 1,
     if_send := Some Eth_send_intf, if_devSend := Some E1000_send\<rparr>"

text \<open>An interface at 0x5000 and a buffer at 0x210000 with an empty packet.\<close>

definition sample_stack :: "nat net" where
  "sample_stack = sample_net\<lparr>intfs := (intfs sample_net)(0x5000 := sample_intf),
     bufs := (bufs sample_net)(0x210000 := \<lparr>nb_start = 0x210100, nb_end = 0x210100, nb_refCount = 1, nb_seq = 0, nb_flags = 0\<rparr>)\<rparr>"

text \<open>A driver that counts the packets.\<close>

definition count_dev :: "nat dev" where "count_dev intf pkt s = Some (s\<lparr>wire := wire s + 1\<rparr>)"

theorem eth_frame_decodes_witness:
  "\<exists>s'. eth_send_frame count_dev 0x5000 [1, 2, 3, 4, 5, 6] ET_ARP 0x210000 sample_stack = Some s' \<and>
    read_bytes (nram s') 0x2100F2 6 = [1, 2, 3, 4, 5, 6]"
proof -
  have i: "intfs sample_stack 0x5000 = sample_intf" "nb_start (bufs sample_stack 0x210000) = 0x210100"
    "nb_end (bufs sample_stack 0x210000) = 0x210100" by (simp_all add: sample_stack_def)
  obtain s' where s': "eth_send_frame count_dev 0x5000 [1, 2, 3, 4, 5, 6] ET_ARP 0x210000 sample_stack = count_dev 0x5000 0x210000 s'"
    "read_bytes (nram s') 0x2100F2 6 = [1, 2, 3, 4, 5, 6]"
    using eth_frame_decodes [where et = ET_ARP and dst = "[1, 2, 3, 4, 5, 6]" and s = sample_stack and intf = "0x5000"
        and pkt = "0x210000" and dev = count_dev] i
    by (auto simp: sample_intf_def ET_ARP_def)
  then show ?thesis by (simp add: count_dev_def nram_def)
qed

lemma ipv4_bytes_list: "ipv4_bytes x = [ipv4_n x 0, ipv4_n x 1, ipv4_n x 2, ipv4_n x 3]"
  by (simp add: ipv4_bytes_def numeral_eq_Suc upt_conv_Cons)

lemma read_ipv4_bytes:
  "m p = ipv4_n x 0 \<Longrightarrow> m (p + 1) = ipv4_n x 1 \<Longrightarrow> m (p + 2) = ipv4_n x 2 \<Longrightarrow> m (p + 3) = ipv4_n x 3 \<Longrightarrow>
    read_ipv4 m p = x"
  using ipv4_of_n_bytes [of x] by (simp add: read_ipv4_def load32_def ipv4_of_n_def)

lemma load16_net: "m p = hi8 x \<Longrightarrow> m (p + 1) = lo8 x \<Longrightarrow> load16 m p = net_swap16 x"
proof -
  assume a: "m p = hi8 x" "m (p + 1) = lo8 x"
  show ?thesis
  proof (rule bit_word_eqI)
    fix n assume "n < LENGTH(16)"
    then show "bit (load16 m p) n = bit (net_swap16 x) n"
      by (cases "n < 8") (auto simp: load16_def net_swap16_def a hi8_def lo8_def and_ff bit_simps not_less
          dest: bit_imp_le_length)
  qed
qed

text \<open>
  C18. \<open>ipv4_send_intf\<close> puts a header in front of the packet that every receiver accepts: version 4,
  five words, no fragment, the length of header and packet, and the right checksum; the packet and
  the memory around the header are as before.
\<close>

theorem ipv4_header_valid:
  assumes "if_send (intfs s intf) \<noteq> None" and len: "unat (nb_end (bufs s pkt) - nb_start (bufs s pkt)) + 20 < 65536"
  shows "\<exists>s'. ipv4_send_intf dev intf hop dst proto pkt s = eth_send_intf dev intf (IPv4 hop) ET_IPV4 pkt s' \<and>
    (let hdr = nb_start (bufs s pkt) - 20; m = nram s' in
      bufs s' = (bufs s)(pkt := (bufs s pkt)\<lparr>nb_start := hdr\<rparr>) \<and> intfs s' = intfs s \<and>
      m hdr = 0x45 \<and> net_swap16 (load16 m (hdr + 6)) AND 0x1fff = 0 \<and>
      hdr + ucast (net_swap16 (load16 m (hdr + 2))) = nb_end (bufs s pkt) \<and>
      m (hdr + 9) = proto \<and> read_ipv4 m (hdr + 12) = if_ipAddr (intfs s intf) \<and> read_ipv4 m (hdr + 16) = dst \<and>
      net_checksum m hdr (hdr + 20) = 0 \<and> (\<forall>x. \<not> in_range hdr 20 x \<longrightarrow> m x = nram s x))"
proof -
  let ?hdr = "nb_start (bufs s pkt) - 20"
  let ?len = "nb_end (bufs s pkt) - ?hdr"
  define w where "w = write_bytes (nram s) ?hdr (ipv4_header ?len proto (if_ipAddr (intfs s intf)) dst)"
  define m where "m = store16 w (?hdr + 10) (net_swap16 (net_checksum w ?hdr (?hdr + 20)))"
  define s' where "s' = set_nram m (put_bytes ?hdr (ipv4_header ?len proto (if_ipAddr (intfs s intf)) dst)
    (set_buf pkt (\<lambda>b. b\<lparr>nb_start := nb_start b - 20\<rparr>) s))"
  have "ipv4_send_intf dev intf hop dst proto pkt s = eth_send_intf dev intf (IPv4 hop) ET_IPV4 pkt s'"
    using assms(1) by (auto simp: ipv4_send_intf_def Let_def sizeof_Ipv4Header_def prints s'_def m_def w_def)
  moreover have "bufs s' = (bufs s)(pkt := (bufs s pkt)\<lparr>nb_start := ?hdr\<rparr>)" "intfs s' = intfs s" "nram s' = m"
    by (simp_all add: s'_def)
  moreover have c: "net_checksum m ?hdr (?hdr + 20) = 0"
    using net_checksum_store [of "?hdr + 20" ?hdr 10 5 w]
    by (simp add: m_def w_def ipv4_header_def ipv4_bytes_list load16_def)
  moreover have "m ?hdr = 0x45" "load16 m (?hdr + 6) = 0" "m (?hdr + 9) = proto"
    by (simp_all add: m_def store16_def w_def ipv4_header_def ipv4_bytes_list load16_def)
  moreover have "load16 m (?hdr + 2) = net_swap16 (ucast ?len)"
    by (rule load16_net) (simp_all add: m_def store16_def w_def ipv4_header_def ipv4_bytes_list)
  moreover have "read_ipv4 m (?hdr + 12) = if_ipAddr (intfs s intf)"
    by (rule read_ipv4_bytes) (simp_all add: m_def store16_def w_def ipv4_header_def ipv4_bytes_list)
  moreover have "read_ipv4 m (?hdr + 16) = dst"
    by (rule read_ipv4_bytes) (simp_all add: m_def store16_def w_def ipv4_header_def ipv4_bytes_list)
  moreover have "?hdr + ucast (ucast ?len :: uint16) = nb_end (bufs s pkt)"
  proof -
    have l: "?len = (nb_end (bufs s pkt) - nb_start (bufs s pkt)) + 20" by simp
    have "unat ?len < 65536" unfolding l using len by (simp add: unat_add_small)
    then have "ucast (ucast ?len :: uint16) = ?len"
      by (simp add: word_unat_eq_iff unsigned_ucast_eq unsigned_take_bit_eq take_bit_nat_eq_self)
    then show ?thesis by simp
  qed
  moreover have "m x = nram s x" if "\<not> in_range ?hdr 20 x" for x
  proof -
    have "x \<notin> (\<lambda>k. ?hdr + k) ` {0, 1, 2, 3, 4, 5, 6, 7, 8, 9, 10, 11, 12, 13, 14, 15, 16, 17, 18, 19}"
      using that by (auto simp: in_range_def)
    then show ?thesis by (simp add: m_def store16_def w_def ipv4_header_def ipv4_bytes_list)
  qed
  moreover have "net_swap16 0 = 0" by (simp add: net_swap16_def)
  ultimately show ?thesis by (intro exI [of _ s']) (simp add: Let_def)
qed

theorem ipv4_header_valid_witness:
  "\<exists>s'. ipv4_send_intf count_dev 0x5000 (ipv4_of_n 10 0 0 255) 99 1 0x210000 sample_stack =
      eth_send_intf count_dev 0x5000 (IPv4 (ipv4_of_n 10 0 0 255)) ET_IPV4 0x210000 s' \<and>
    net_checksum (nram s') 0x2100EC 0x210100 = 0"
proof -
  have i: "intfs sample_stack 0x5000 = sample_intf" "nb_start (bufs sample_stack 0x210000) = 0x210100"
    "nb_end (bufs sample_stack 0x210000) = 0x210100" by (simp_all add: sample_stack_def)
  then show ?thesis
    using ipv4_header_valid [where s = sample_stack and intf = "0x5000" and pkt = "0x210000" and dev = count_dev
        and hop = "ipv4_of_n 10 0 0 255" and dst = 99 and proto = 1]
    by (auto simp: sample_intf_def Let_def)
qed

section \<open>The address cache\<close>

lemma cache_search_find:
  "length c = ARP_CACHE_SIZE \<Longrightarrow> i \<le> ARP_CACHE_SIZE \<Longrightarrow>
    (case cache_search P c i of
       None \<Rightarrow> \<forall>j. i \<le> j \<and> j < ARP_CACHE_SIZE \<longrightarrow> \<not> P (c ! j)
     | Some k \<Rightarrow> i \<le> k \<and> k < ARP_CACHE_SIZE \<and> P (c ! k) \<and> (\<forall>j. i \<le> j \<and> j < k \<longrightarrow> \<not> P (c ! j)))"
proof (induction P c i rule: cache_search.induct)
  case (1 P c i)
  show ?case
  proof (cases "i < ARP_CACHE_SIZE \<and> \<not> P (c ! i)")
    case True
    with 1 have IH: "case cache_search P c (i + 1) of
       None \<Rightarrow> \<forall>j. i + 1 \<le> j \<and> j < ARP_CACHE_SIZE \<longrightarrow> \<not> P (c ! j)
     | Some k \<Rightarrow> i + 1 \<le> k \<and> k < ARP_CACHE_SIZE \<and> P (c ! k) \<and> (\<forall>j. i + 1 \<le> j \<and> j < k \<longrightarrow> \<not> P (c ! j))"
      by simp
    have "cache_search P c i = cache_search P c (i + 1)" using True by (subst cache_search.simps) simp
    with IH True show ?thesis by (auto split: option.splits) (metis Suc_leI nat_less_le)+
  next
    case False
    with 1 show ?thesis by (subst cache_search.simps) auto
  qed
qed

lemma cache_search_Some: "length c = ARP_CACHE_SIZE \<Longrightarrow> cache_search P c 0 = Some k \<Longrightarrow>
    k < length c \<and> P (c ! k) \<and> (\<forall>j < k. \<not> P (c ! j))"
  using cache_search_find [of c 0 P] by simp

lemma cache_search_None: "length c = ARP_CACHE_SIZE \<Longrightarrow> cache_search P c 0 = None \<longleftrightarrow> (\<forall>e \<in> set c. \<not> P e)"
  using cache_search_find [of c 0 P] by (fastforce simp: in_set_conv_nth split: option.splits)

lemma cache_search_eq:
  "length c = ARP_CACHE_SIZE \<Longrightarrow> cache_search P c 0 = Some k \<longleftrightarrow>
    k < ARP_CACHE_SIZE \<and> P (c ! k) \<and> (\<forall>j < k. \<not> P (c ! j))"
  using cache_search_find [of c 0 P]
  by (auto split: option.splits) (metis nat_neq_iff)

lemma cache_search_cong:
  assumes "length c = ARP_CACHE_SIZE" "length c' = ARP_CACHE_SIZE" "\<And>j. j < ARP_CACHE_SIZE \<Longrightarrow> P (c ! j) = Q (c' ! j)"
  shows "cache_search P c 0 = cache_search Q c' 0"
proof (cases "cache_search P c 0")
  case None
  then have "\<not> P (c ! j)" if "j < ARP_CACHE_SIZE" for j
    using that assms(1) cache_search_None [OF assms(1), of P] nth_mem [of j c] by auto
  then have "\<forall>e \<in> set c'. \<not> Q e" using assms(2,3) by (auto simp: in_set_conv_nth)
  then have "cache_search Q c' 0 = None" using cache_search_None [OF assms(2), of Q] by simp
  with None show ?thesis by simp
next
  case (Some k)
  then have "cache_search Q c' 0 = Some k"
    using assms by (auto simp: cache_search_eq)
  with Some show ?thesis by simp
qed

text \<open>The three ways an entry changes.\<close>

lemma lookup_set_ha:
  assumes len: "length (arpCache s) = ARP_CACHE_SIZE" and i: "arp_lookup pa s = Some i"
    and f: "\<And>e. ae_pa (f e) = ae_pa e" "ae_ha (f (arpCache s ! i)) = ha"
  shows "arp_lookup_eth_addr pa (set_entry i f s) = Some ha"
    and "pa' \<noteq> pa \<Longrightarrow> arp_lookup_eth_addr pa' (set_entry i f s) = arp_lookup_eth_addr pa' s"
proof -
  have il: "i < ARP_CACHE_SIZE" "ae_pa (arpCache s ! i) = pa"
    using i len by (auto simp: arp_lookup_def cache_search_eq addr_ipv4_eq_def)
  have same: "arp_lookup q (set_entry i f s) = arp_lookup q s" for q
    unfolding arp_lookup_def
    by (rule cache_search_cong) (use len il f(1) in \<open>auto simp: set_entry_def nth_list_update addr_ipv4_eq_def\<close>)
  show "arp_lookup_eth_addr pa (set_entry i f s) = Some ha"
    unfolding arp_lookup_eth_addr_def same i using il f(2) len by (simp add: set_entry_def)
  assume "pa' \<noteq> pa"
  then have "k \<noteq> i" if "arp_lookup pa' s = Some k" for k
    using that il len by (auto simp: arp_lookup_def cache_search_eq addr_ipv4_eq_def)
  then show "arp_lookup_eth_addr pa' (set_entry i f s) = arp_lookup_eth_addr pa' s"
    unfolding arp_lookup_eth_addr_def same by (cases "arp_lookup pa' s") (simp_all add: set_entry_def)
qed

lemma lookup_add:
  assumes len: "length (arpCache s) = ARP_CACHE_SIZE" and no: "arp_lookup pa s = None" "pa \<noteq> 0"
    and a: "arp_add ha pa s = (Some i, s')"
  shows "arp_lookup pa s' = Some i" "arp_lookup_eth_addr pa s' = Some ha" "length (arpCache s') = ARP_CACHE_SIZE"
    and "pa' \<noteq> pa \<Longrightarrow> pa' \<noteq> 0 \<Longrightarrow> arp_lookup_eth_addr pa' s' = arp_lookup_eth_addr pa' s"
    and "ae_pkt (arpCache s' ! i) = ae_pkt (arpCache s ! i)" "i < ARP_CACHE_SIZE" "ae_pa (arpCache s ! i) = 0"
proof -
  from a have i: "i < ARP_CACHE_SIZE" "ae_pa (arpCache s ! i) = 0"
    and s': "s' = set_entry i (\<lambda>e. e\<lparr>ae_ha := ha, ae_pa := pa\<rparr>) s"
    using len by (auto simp: arp_add_def cache_search_eq split: option.splits)
  have n: "ae_pa (arpCache s ! j) \<noteq> pa" if "j < ARP_CACHE_SIZE" for j
    using no(1) that len cache_search_None [OF len, of "\<lambda>e. addr_ipv4_eq (ae_pa e) pa"] nth_mem [of j "arpCache s"]
    by (auto simp: arp_lookup_def addr_ipv4_eq_def)
  show l: "arp_lookup pa s' = Some i"
    using i n len by (auto simp: arp_lookup_def cache_search_eq s' set_entry_def addr_ipv4_eq_def nth_list_update)
  show "arp_lookup_eth_addr pa s' = Some ha" using i len by (simp add: arp_lookup_eth_addr_def l) (simp add: s' set_entry_def)
  show "length (arpCache s') = ARP_CACHE_SIZE" "ae_pkt (arpCache s' ! i) = ae_pkt (arpCache s ! i)"
    using i len by (simp_all add: s' set_entry_def)
  show "i < ARP_CACHE_SIZE" "ae_pa (arpCache s ! i) = 0" using i by simp_all
  assume p: "pa' \<noteq> pa" "pa' \<noteq> 0"
  have same: "arp_lookup pa' s' = arp_lookup pa' s"
    unfolding arp_lookup_def
    by (rule cache_search_cong) (use len i p in \<open>auto simp: s' set_entry_def nth_list_update addr_ipv4_eq_def\<close>)
  have "k \<noteq> i" if "arp_lookup pa' s = Some k" for k
    using that i p len by (auto simp: arp_lookup_def cache_search_eq addr_ipv4_eq_def)
  then show "arp_lookup_eth_addr pa' s' = arp_lookup_eth_addr pa' s"
    unfolding arp_lookup_eth_addr_def same by (cases "arp_lookup pa' s") (simp_all add: s' set_entry_def)
qed

text \<open>A well-formed ARP packet, with the addresses of its sender and its target.\<close>

definition arp_packet :: "NetBuf \<Rightarrow> mem \<Rightarrow> uint16 \<Rightarrow> EthAddr \<Rightarrow> IPv4Addr \<Rightarrow> IPv4Addr \<Rightarrow> bool" where
  "arp_packet b m op sha spa tpa \<longleftrightarrow>
     (let data = nb_start b in data + 8 \<le> nb_end b \<and> data + 28 \<le> nb_end b \<and>
       net_swap16 (load16 m data) = ARP_HTYPE_ETH \<and> net_swap16 (load16 m (data + 2)) = ET_IPV4 \<and>
       net_swap16 (load16 m (data + 6)) = op \<and> read_bytes m (data + 8) 6 = sha \<and>
       read_ipv4 m (data + 14) = spa \<and> read_ipv4 m (data + 24) = tpa)"

lemma arp_recv_packet:
  assumes "arp_packet (bufs s pkt) (nram s) op sha spa tpa"
  shows "arp_recv dev intf pkt s = do {
     (merge, s1) \<leftarrow> (case arp_lookup spa s of
         None \<Rightarrow> Some (False, s)
       | Some i \<Rightarrow>
           (let s1 = set_entry i (\<lambda>e. e\<lparr>ae_ha := sha\<rparr>) s; e = arpCache s1 ! i
            in if ae_pkt e \<noteq> 0 then do {
                 s2 \<leftarrow> eth_send_intf dev (ae_intf e) (IPv4 spa) (ae_etherType e) (ae_pkt e) s1;
                 Some (True, set_entry i (\<lambda>e. e\<lparr>ae_intf := 0, ae_etherType := 0, ae_pkt := 0\<rparr>) s2) }
               else Some (True, s1)));
     if addr_ipv4_eq tpa (if_ipAddr (intfs s1 intf)) then
       (let s2 = (if merge then s1 else snd (arp_add sha spa s1))
        in if op = ARP_OP_REQUEST then arp_reply dev intf sha spa s2 else Some s2)
     else Some s1
   }"
proof -
  have "\<not> nb_start (bufs s pkt) + 8 > nb_end (bufs s pkt)" "\<not> nb_start (bufs s pkt) + 28 > nb_end (bufs s pkt)"
    using assms by (simp_all add: arp_packet_def Let_def not_less)
  moreover have op: "op = net_swap16 (load16 (nram s) (nb_start (bufs s pkt) + 6))"
    using assms by (simp add: arp_packet_def Let_def)
  ultimately show ?thesis
    unfolding op using assms by (simp add: arp_recv_def arp_packet_def prints Let_def del: not_less linorder_not_less)
qed


definition arp_bytes :: "uint16 \<Rightarrow> EthAddr \<Rightarrow> IPv4Addr \<Rightarrow> EthAddr \<Rightarrow> IPv4Addr \<Rightarrow> uint8 list" where
  "arp_bytes op sha spa tha tpa = [0, 1, 8, 0, 6, 4, hi8 op, lo8 op] @ sha @ ipv4_bytes spa @ tha @ ipv4_bytes tpa"

lemma write_bytes_append:
  "write_bytes m p (xs @ ys) = write_bytes (write_bytes m p xs) (p + of_nat (length xs)) ys"
  by (induction m p xs rule: write_bytes.induct) (simp_all add: ac_simps del: fun_upd_apply)

lemma arp_bytes_packet:
  assumes "length sha = 6" "length tha = 6" "unat p + 28 < 4294967296"
    and "nb_start b = p" "nb_end b = p + 28" "m = write_bytes m0 p (arp_bytes op sha spa tha tpa)"
  shows "arp_packet b m op sha spa tpa"
proof -
  obtain a b c d e f where sha: "sha = [a, b, c, d, e, f]" using six_bytes [OF assms(1)] .
  obtain a' b' c' d' e' f' where tha: "tha = [a', b', c', d', e', f']" using six_bytes [OF assms(2)] .
  note bytes = assms(6) arp_bytes_def ipv4_bytes_list sha tha
  have "load16 m p = net_swap16 ARP_HTYPE_ETH" "load16 m (p + 2) = net_swap16 ET_IPV4" "load16 m (p + 6) = net_swap16 op"
    by (rule load16_net; simp add: bytes ARP_HTYPE_ETH_def ET_IPV4_def hi8_def lo8_def)+
  moreover have "read_bytes m (p + 8) 6 = sha" by (simp add: read_bytes_six bytes)
  moreover have "read_ipv4 m (p + 14) = spa" "read_ipv4 m (p + 24) = tpa"
    by (rule read_ipv4_bytes; simp add: bytes)+
  moreover have "p + 8 \<le> p + 28" using assms(3) by (simp add: word_le_nat_alt unat_add_small)
  ultimately show ?thesis using assms(4,5) by (simp add: arp_packet_def Let_def)
qed

lemma net_alloc_buf_header:
  assumes "net_alloc_buf s = Some (pkt, s1)"
  shows "nb_start (bufs s1 pkt) = pkt + 256" "nb_end (bufs s1 pkt) = pkt + 256" "nb_refCount (bufs s1 pkt) = 1"
    "intfs s1 = intfs s" "arpCache s1 = arpCache s" "routes s1 = routes s" "s_routeTable s1 = s_routeTable s"
  using assms by (auto simp: net_alloc_buf_def kalloc_def set_buf_def Let_def NET_BUF_START_def
      split: if_splits bind_splits option.splits prod.splits outcome.splits)


lemma sample_stack_fields:
  "nmm sample_stack = sample_heap" "arpCache sample_stack = arpCache sample_net" "nlinks sample_stack = nlinks sample_net"
  "s_netFreeBufs sample_stack = 0x1000" "intfs sample_stack 0x5000 = sample_intf"
  "nb_start (bufs sample_stack 0x210000) = 0x210100" "nb_end (bufs sample_stack 0x210000) = 0x210100"
  by (simp_all add: sample_stack_def sample_net_def)

lemma sample_stack_alloc: "\<exists>s1. net_alloc_buf sample_stack = Some (0x200008, s1)"
proof -
  have "size_ok 2048" by (simp add: size_ok_def)
  then have "malloc sample_heap 2048 = Some (malloc_new sample_heap 2048)"
    using malloc_cases [OF sample_heap_ok] by simp
  moreover obtain h where "malloc_new sample_heap 2048 = (Ret 0x200008, h)"
    by (simp add: malloc_new_def sample_heap_def Let_def)
  moreover have "link_list_is_empty (nlinks sample_net) 0x1000"
    by (simp add: link_list_is_empty_def sample_net_def link_init_def set_lnk_next_def set_lnk_prev_def)
  ultimately show ?thesis
    by (simp add: net_alloc_buf_def kalloc_def sample_stack_fields NET_BUF_SIZE_def Let_def)
qed


definition sample_reply :: "nat net" where
  "sample_reply = put_bytes 0x210100 (arp_bytes ARP_OP_REPLY [1, 2, 3, 4, 5, 6] (ipv4_of_n 10 0 0 2) [2, 0, 0, 0, 0, 1] (ipv4_of_n 10 0 0 1))
     (set_buf 0x210000 (\<lambda>b. b\<lparr>nb_end := 0x21011C\<rparr>) sample_stack)"


text \<open>
  An entry that waits for its reply counts as an answer: the first packet to an unknown
  address is kept and a request goes out, but from then on, until the reply arrives, every further
  packet to that address is sent at once, to the hardware address 00:00:00:00:00:00.
\<close>

theorem arp_pending_is_resolved:
  assumes len: "length (arpCache s) = ARP_CACHE_SIZE" and a: "a \<noteq> 0" "a \<noteq> if_broadcastAddr (intfs s intf)"
    and unknown: "arp_lookup a s = None" and free: "\<exists>e \<in> set (arpCache s). ae_pa e = 0 \<and> ae_pkt e = 0"
    and clean: "\<forall>e \<in> set (arpCache s). ae_pa e = 0 \<longrightarrow> ae_pkt e = 0"
  shows "\<exists>s1. eth_send_intf dev intf (IPv4 a) ET_IPV4 pkt s = arp_send dev intf ARP_OP_REQUEST g_broadcastEthAddr a s1 \<and>
    intfs s1 = intfs s \<and>
    (\<forall>s2 pkt2. arpCache s2 = arpCache s1 \<and> intfs s2 = intfs s1 \<longrightarrow>
      eth_send_intf dev intf (IPv4 a) ET_IPV4 pkt2 s2 = eth_send_frame dev intf g_nullEthAddr ET_IPV4 pkt2 s2)"
proof -
  obtain i s0 where add: "arp_add g_nullEthAddr a s = (Some i, s0)"
    using free len cache_search_None [of "arpCache s" "\<lambda>e. ae_pa e = 0"]
    by (auto simp: arp_add_def split: option.splits)
  note l = lookup_add [OF len unknown a(1) add]
  have "ae_pkt (arpCache s ! i) = 0" using clean l(6,7) len by simp
  then have z: "ae_pkt (arpCache s0 ! i) = 0" using l(5) by simp
  have i0: "intfs s0 = intfs s" using add by (auto simp: arp_add_def set_entry_def split: option.splits)
  let ?f = "\<lambda>e. e\<lparr>ae_intf := intf, ae_etherType := ET_IPV4, ae_pkt := pkt\<rparr>"
  let ?s1 = "set_entry i ?f s0"
  have "eth_send_intf dev intf (IPv4 a) ET_IPV4 pkt s = arp_send dev intf ARP_OP_REQUEST g_broadcastEthAddr a ?s1"
    using a(2) unknown add z
    by (simp add: eth_send_intf_def arp_request_def arp_lookup_eth_addr_def addr_ipv4_eq_def)
  moreover have "arp_lookup_eth_addr a ?s1 = Some g_nullEthAddr"
  proof -
    have "ae_ha (arpCache s0 ! i) = g_nullEthAddr" using l(1,2) by (simp add: arp_lookup_eth_addr_def)
    then show ?thesis by (intro lookup_set_ha(1) [OF l(3,1)]) simp_all
  qed
  then have "arp_lookup_eth_addr a s2 = Some g_nullEthAddr" if "arpCache s2 = arpCache ?s1" for s2 :: "'a net"
    using that by (simp add: arp_lookup_eth_addr_def arp_lookup_def)
  then have "eth_send_intf dev intf (IPv4 a) ET_IPV4 pkt2 s2 = eth_send_frame dev intf g_nullEthAddr ET_IPV4 pkt2 s2"
    if "arpCache s2 = arpCache ?s1" "intfs s2 = intfs ?s1" for pkt2 s2
    using that a(2) i0 by (simp add: eth_send_intf_def addr_ipv4_eq_def set_entry_def)
  moreover have "intfs ?s1 = intfs s" using i0 by (simp add: set_entry_def)
  ultimately show ?thesis by blast
qed

theorem arp_pending_is_resolved_witness:
  "\<exists>s1. eth_send_intf count_dev 0x5000 (IPv4 7) ET_IPV4 0x210000 sample_stack =
      arp_send count_dev 0x5000 ARP_OP_REQUEST g_broadcastEthAddr 7 s1 \<and>
    eth_send_intf count_dev 0x5000 (IPv4 7) ET_IPV4 0x210000 s1 = eth_send_frame count_dev 0x5000 g_nullEthAddr ET_IPV4 0x210000 s1"
proof -
  have c: "arpCache sample_stack = replicate 16 \<lparr>ae_ha = g_nullEthAddr, ae_pa = 0, ae_intf = 0, ae_etherType = 0, ae_pkt = 0\<rparr>"
    by (simp add: sample_stack_fields sample_net_def)
  have n: "arp_lookup 7 sample_stack = None"
    using c by (auto simp: arp_lookup_def cache_search_None ARP_CACHE_SIZE_def addr_ipv4_eq_def)
  show ?thesis
    using arp_pending_is_resolved [of sample_stack 7 "0x5000" count_dev "0x210000"] n
    by (auto simp: c ARP_CACHE_SIZE_def sample_stack_fields sample_intf_def zero_intf_def)
qed

end
