(* ===== verification/Pci.thy ===== *)
theory Pci
  imports Ports
begin

text \<open>
  Access to the configuration space of PCI devices, \<open>src/drivers/pci.c\<close>: a register is selected
  through the address port and read or written through the data port. \<open>dev\<close> answers the reads.
\<close>

section \<open>The code\<close>

definition PCI_CONFIG_ADDR :: uint16 where "PCI_CONFIG_ADDR = 0xCF8"
definition PCI_CONFIG_DATA :: uint16 where "PCI_CONFIG_DATA = 0xCFC"
definition PCI_TYPE_MULTIFUNC :: uint8 where "PCI_TYPE_MULTIFUNC = 0x80"
definition PCI_CONFIG_VENDOR_ID :: uint32 where "PCI_CONFIG_VENDOR_ID = 0x00"
definition PCI_CONFIG_DEVICE_ID :: uint32 where "PCI_CONFIG_DEVICE_ID = 0x02"
definition PCI_CONFIG_COMMAND :: uint32 where "PCI_CONFIG_COMMAND = 0x04"
definition PCI_CONFIG_PROG_INTF :: uint32 where "PCI_CONFIG_PROG_INTF = 0x09"
definition PCI_CONFIG_SUBCLASS :: uint32 where "PCI_CONFIG_SUBCLASS = 0x0a"
definition PCI_CONFIG_CLASS_CODE :: uint32 where "PCI_CONFIG_CLASS_CODE = 0x0b"
definition PCI_CONFIG_HEADER_TYPE :: uint32 where "PCI_CONFIG_HEADER_TYPE = 0x0e"
definition PCI_CONFIG_BAR0 :: uint32 where "PCI_CONFIG_BAR0 = 0x10"
definition PCI_CONFIG_INTERRUPT_LINE :: uint32 where "PCI_CONFIG_INTERRUPT_LINE = 0x3c"
definition PCI_BAR_IO :: uint32 where "PCI_BAR_IO = 0x01"
definition PCI_BAR_64 :: uint32 where "PCI_BAR_64 = 0x04"

lemmas pci_registers = PCI_CONFIG_VENDOR_ID_def PCI_CONFIG_DEVICE_ID_def PCI_CONFIG_COMMAND_def PCI_CONFIG_PROG_INTF_def
  PCI_CONFIG_SUBCLASS_def PCI_CONFIG_CLASS_CODE_def PCI_CONFIG_HEADER_TYPE_def PCI_CONFIG_BAR0_def
  PCI_CONFIG_INTERRUPT_LINE_def

text \<open>The arguments are 16 bits wide and promoted to \<open>int\<close>.\<close>

definition PCI_MAKE_ID :: "uint32 \<Rightarrow> uint32 \<Rightarrow> uint32 \<Rightarrow> uint32" where
  "PCI_MAKE_ID bus dv func = push_bit 16 bus OR push_bit 11 dv OR push_bit 8 func"

text \<open>The union of \<open>PciBar\<close>: an address or a port.\<close>

datatype bar_u = Bar_address addr | Bar_port uint16

record PciBar =
  bar_u :: bar_u
  bar_size :: uint64
  bar_flags :: uint32

record PciDeviceInfo =
  pi_vendorId :: uint16
  pi_deviceId :: uint16
  pi_classCode :: uint8
  pi_subclass :: uint8
  pi_progIntf :: uint8

definition pci_address :: "uint32 \<Rightarrow> uint32 \<Rightarrow> uint32" where
  "pci_address i reg = 0x80000000 OR i OR (reg AND 0xfc)"

definition pci_read8 :: "device \<Rightarrow> uint32 \<Rightarrow> uint32 \<Rightarrow> trace \<Rightarrow> uint8 \<times> trace" where
  "pci_read8 dev i reg tr =
     inportb dev (PCI_CONFIG_DATA + ucast (reg AND 0x03)) (outportl PCI_CONFIG_ADDR (pci_address i reg) tr)"

definition pci_read16 :: "device \<Rightarrow> uint32 \<Rightarrow> uint32 \<Rightarrow> trace \<Rightarrow> uint16 \<times> trace" where
  "pci_read16 dev i reg tr =
     inportw dev (PCI_CONFIG_DATA + ucast (reg AND 0x02)) (outportl PCI_CONFIG_ADDR (pci_address i reg) tr)"

definition pci_read32 :: "device \<Rightarrow> uint32 \<Rightarrow> uint32 \<Rightarrow> trace \<Rightarrow> uint32 \<times> trace" where
  "pci_read32 dev i reg tr = inportl dev PCI_CONFIG_DATA (outportl PCI_CONFIG_ADDR (pci_address i reg) tr)"

text \<open>All three writes end with a write of 16 bits.\<close>

definition pci_write8 :: "uint32 \<Rightarrow> uint32 \<Rightarrow> uint8 \<Rightarrow> trace \<Rightarrow> trace" where
  "pci_write8 i reg data tr =
     outportw (PCI_CONFIG_DATA + ucast (reg AND 0x03)) (ucast data) (outportl PCI_CONFIG_ADDR (pci_address i reg) tr)"

definition pci_write16 :: "uint32 \<Rightarrow> uint32 \<Rightarrow> uint16 \<Rightarrow> trace \<Rightarrow> trace" where
  "pci_write16 i reg data tr =
     outportw (PCI_CONFIG_DATA + ucast (reg AND 0x02)) data (outportl PCI_CONFIG_ADDR (pci_address i reg) tr)"

definition pci_write32 :: "uint32 \<Rightarrow> uint32 \<Rightarrow> uint32 \<Rightarrow> trace \<Rightarrow> trace" where
  "pci_write32 i reg data tr =
     outportw PCI_CONFIG_DATA (ucast data) (outportl PCI_CONFIG_ADDR (pci_address i reg) tr)"

text \<open>The address and the mask.\<close>

definition pci_read_bar :: "device \<Rightarrow> uint32 \<Rightarrow> uint32 \<Rightarrow> trace \<Rightarrow> (uint32 \<times> uint32) \<times> trace" where
  "pci_read_bar dev i index tr =
     (let reg = PCI_CONFIG_BAR0 + index * 4;
          (address, t1) = pci_read32 dev i reg tr;
          t2 = pci_write32 i reg 0xffffffff t1;
          (msk, t3) = pci_read32 dev i reg t2
      in ((address, msk), pci_write32 i reg address t3))"

definition pci_get_bar :: "device \<Rightarrow> uint32 \<Rightarrow> uint32 \<Rightarrow> trace \<Rightarrow> PciBar \<times> trace" where
  "pci_get_bar dev i index tr =
     (let ((addressLow, maskLow), t1) = pci_read_bar dev i index tr
      in if addressLow AND PCI_BAR_64 \<noteq> 0
         then (let ((addressHigh, maskHigh), t2) = pci_read_bar dev i (index + 1) t1
               in (\<lparr>bar_u = Bar_address (ucast (push_bit 32 (ucast addressHigh) OR ucast (addressLow AND NOT 0xf) :: uint64)),
                    bar_size = NOT (push_bit 32 (ucast maskHigh) OR ucast (maskLow AND NOT 0xf)) + 1,
                    bar_flags = addressLow AND 0xf\<rparr>, t2))
         else if addressLow AND PCI_BAR_IO \<noteq> 0
         then (\<lparr>bar_u = Bar_port (ucast (addressLow AND NOT 0x3)),
                bar_size = ucast (ucast (NOT (maskLow AND NOT 0x3) + 1) :: uint16),
                bar_flags = addressLow AND 0x3\<rparr>, t1)
         else (\<lparr>bar_u = Bar_address (addressLow AND NOT 0xf),
                bar_size = ucast (NOT (maskLow AND NOT 0xf) + 1),
                bar_flags = addressLow AND 0xf\<rparr>, t1))"

definition pci_get_interrupt_line :: "device \<Rightarrow> uint32 \<Rightarrow> trace \<Rightarrow> uint8 \<times> trace" where
  "pci_get_interrupt_line dev i tr = pci_read8 dev i PCI_CONFIG_INTERRUPT_LINE tr"

section \<open>Addresses\<close>

text \<open>
  The address port tells all registers of all functions apart: it has a field for each of
  the bus, the device, the function and the word of the register.
\<close>

theorem pci_address_fields:
  assumes "bus < 256" "dv < 32" "func < 8"
  shows "bit (pci_address (PCI_MAKE_ID bus dv func) reg) 31 \<and>
    drop_bit 16 (pci_address (PCI_MAKE_ID bus dv func) reg) AND 0xff = bus \<and>
    drop_bit 11 (pci_address (PCI_MAKE_ID bus dv func) reg) AND 0x1f = dv \<and>
    drop_bit 8 (pci_address (PCI_MAKE_ID bus dv func) reg) AND 0x7 = func \<and>
    pci_address (PCI_MAKE_ID bus dv func) reg AND 0xff = reg AND 0xfc"
proof -
  have w: "take_bit 8 bus = bus" "take_bit 5 dv = dv" "take_bit 3 func = func"
    using assms by (simp_all add: word_unat_eq_iff word_less_nat_alt unsigned_take_bit_eq take_bit_nat_eq_self)
  have b: "8 \<le> n \<Longrightarrow> \<not> bit bus n" "5 \<le> n \<Longrightarrow> \<not> bit dv n" "3 \<le> n \<Longrightarrow> \<not> bit func n" for n
    using bit_take_bit_iff [of 8 bus n] bit_take_bit_iff [of 5 dv n] bit_take_bit_iff [of 3 func n] unfolding w by linarith+
  have m: "(0xff :: uint32) = mask 8" "(0x1f :: uint32) = mask 5" "(0x7 :: uint32) = mask 3" "(0xfc :: uint32) = push_bit 2 (mask 6)"
    "(0x80000000 :: uint32) = push_bit 31 1"
    by (simp_all add: mask_eq_exp_minus_1)
  note bits = bit_or_iff bit_and_iff bit_push_bit_iff bit_drop_bit_eq bit_mask_iff bit_1_iff
  let ?a = "pci_address (PCI_MAKE_ID bus dv func) reg"
  have a: "bit ?a n \<longleftrightarrow> n = 31 \<or> 16 \<le> n \<and> bit bus (n - 16) \<or> 11 \<le> n \<and> bit dv (n - 11) \<or> 8 \<le> n \<and> bit func (n - 8) \<or>
      2 \<le> n \<and> n < 8 \<and> bit reg n" if "n < 32" for n
  proof -
    have "bit (0x80000000 :: uint32) n \<longleftrightarrow> n = 31"
      using that unfolding m by (simp only: bits possible_bit_word) auto
    moreover have "bit (0xfc :: uint32) n \<longleftrightarrow> 2 \<le> n \<and> n < 8"
      using that unfolding m by (simp only: bits possible_bit_word) auto
    ultimately show ?thesis
      using that unfolding pci_address_def PCI_MAKE_ID_def by (auto simp: bits)
  qed
  have "drop_bit 16 ?a AND 0xff = bus"
    unfolding m
    by (rule bit_word_eqI, case_tac "n < 8") (auto simp: bits a b)
  moreover have "drop_bit 11 ?a AND 0x1f = dv"
    unfolding m
    by (rule bit_word_eqI, case_tac "n < 5") (auto simp: bits a b)
  moreover have "drop_bit 8 ?a AND 0x7 = func"
    unfolding m
    by (rule bit_word_eqI, case_tac "n < 3") (auto simp: bits a b)
  moreover have "?a AND 0xff = reg AND 0xfc"
    unfolding m
    by (rule bit_word_eqI, case_tac "n < 8") (auto simp: bits a b)
  ultimately show ?thesis using a [of 31] by simp
qed

theorem pci_address_fields_witness:
  "drop_bit 11 (pci_address (PCI_MAKE_ID 1 2 3) 0x10) AND 0x1f = 2"
  using pci_address_fields [of 1 2 3 "0x10"] by simp

section \<open>The size of a region\<close>

text \<open>
  A memory region of 128 KB at 0xFEBC0000: the writable bits of its register are 17 and up. Words
  written to the data port replace the lower half of the register.
\<close>

definition bar_event :: "io_event \<Rightarrow> uint32 \<Rightarrow> uint32" where
  "bar_event e v = (case e of
       OutL p x \<Rightarrow> if p = PCI_CONFIG_DATA then x AND 0xFFFE0000 else v
     | OutW p x \<Rightarrow> if p = PCI_CONFIG_DATA then ((v AND 0xFFFF0000) OR ucast x) AND 0xFFFE0000 else v
     | _ \<Rightarrow> v)"

definition bar_device :: device where
  "bar_device tr p = foldr bar_event tr 0xFEBC0000"

text \<open>
  The size that \<open>pci_get_bar\<close> computes for it is 20 MB: since \<open>pci_write32\<close> writes 16 bits only,
  the mask that is read back still holds the upper half of the address.
\<close>

theorem pci_bar_size_wrong:
  "fst (pci_get_bar bar_device 0 0 []) = \<lparr>bar_u = Bar_address 0xFEBC0000, bar_size = 0x1440000, bar_flags = 0\<rparr>"
  by (simp add: pci_get_bar_def pci_read_bar_def pci_read32_def pci_write32_def inportl_def outportl_def outportw_def
      bar_device_def bar_event_def PCI_CONFIG_DATA_def PCI_CONFIG_ADDR_def PCI_BAR_64_def PCI_BAR_IO_def Let_def)

end
