(* ===== verification/E1000.thy ===== *)
theory E1000
  imports Net_Stack Interrupts Pci
begin

text \<open>
  The network card, \<open>src/drivers/intel_e1000.c\<close>. What the card does is given by parameters: \<open>nic\<close>
  answers a read of a register from the accesses made before it, \<open>hw\<close> is what the card and the
  interrupts do to memory before a descriptor is looked at again, and \<open>sleep\<close> is \<open>_sleep(1)\<close>, in
  which the card works as well (\<open>None\<close> when it never returns). The driver's own state is the state
  behind the interface. Messages are left out, and so is the text of the hardware address, which
  is only printed.
\<close>

section \<open>The code\<close>

definition RX_DESC_COUNT :: nat where "RX_DESC_COUNT = 32"
definition TX_DESC_COUNT :: nat where "TX_DESC_COUNT = 8"
definition RSTA_DD :: uint8 where "RSTA_DD = 1"
definition CMD_EOP :: uint8 where "CMD_EOP = 1"
definition CMD_IFCS :: uint8 where "CMD_IFCS = 2"
definition CMD_RS :: uint8 where "CMD_RS = 8"
definition TSTA_DD :: uint8 where "TSTA_DD = 1"

definition REG_CTRL :: addr where "REG_CTRL = 0x0000"
definition REG_EERD :: addr where "REG_EERD = 0x0014"
definition REG_ICR :: addr where "REG_ICR = 0x00c0"
definition REG_IMS :: addr where "REG_IMS = 0x00d0"
definition REG_RCTL :: addr where "REG_RCTL = 0x0100"
definition REG_TCTL :: addr where "REG_TCTL = 0x0400"
definition REG_RDBAL :: addr where "REG_RDBAL = 0x2800"
definition REG_RDBAH :: addr where "REG_RDBAH = 0x2804"
definition REG_RDLEN :: addr where "REG_RDLEN = 0x2808"
definition REG_RDH :: addr where "REG_RDH = 0x2810"
definition REG_RDT :: addr where "REG_RDT = 0x2818"
definition REG_TDBAL :: addr where "REG_TDBAL = 0x3800"
definition REG_TDBAH :: addr where "REG_TDBAH = 0x3804"
definition REG_TDLEN :: addr where "REG_TDLEN = 0x3808"
definition REG_TDH :: addr where "REG_TDH = 0x3810"
definition REG_TDT :: addr where "REG_TDT = 0x3818"
definition REG_MTA :: addr where "REG_MTA = 0x5200"
definition REG_RAL :: addr where "REG_RAL = 0x5400"
definition REG_RAH :: addr where "REG_RAH = 0x5404"
definition CTRL_SLU :: uint32 where "CTRL_SLU = 0x40"
definition EERD_START :: uint32 where "EERD_START = 0x0001"
definition EERD_DONE :: uint32 where "EERD_DONE = 0x0010"

text \<open>The flags of \<open>RCTL\<close> and \<open>TCTL\<close> that the driver sets; those that are 0 are left out.\<close>

definition RCTL_FLAGS :: uint32 where
  "RCTL_FLAGS = push_bit 1 1 OR push_bit 2 1 OR push_bit 3 1 OR push_bit 4 1 OR push_bit 15 1 OR push_bit 26 1"

definition TCTL_FLAGS :: uint32 where
  "TCTL_FLAGS = push_bit 1 1 OR push_bit 3 1 OR push_bit 4 15 OR push_bit 12 64 OR push_bit 24 1"

text \<open>The accesses to the registers, newest first.\<close>

datatype mmio_event = MRead addr uint32 | MWrite addr uint32

type_synonym nic = "mmio_event list \<Rightarrow> addr \<Rightarrow> uint32"

text \<open>\<open>s_device\<close> and \<open>intf\<close>, with the accesses to the card and to the ports and the routines of the interrupts.\<close>

record e1000 =
  mmioAddr :: addr
  rxRead :: uint32
  txWrite :: uint32
  rxDescs :: addr
  txDescs :: addr
  rxBufs :: "nat \<Rightarrow> addr"
  txBufs :: "nat \<Rightarrow> addr"
  intf :: addr
  regs :: "mmio_event list"
  pci_ports :: trace
  irq_routines :: irq_table

type_synonym enet = "e1000 net"

definition upd_dev :: "(e1000 \<Rightarrow> e1000) \<Rightarrow> enet \<Rightarrow> enet" where
  "upd_dev f s = s\<lparr>wire := f (wire s)\<rparr>"

definition reg_write :: "addr \<Rightarrow> uint32 \<Rightarrow> enet \<Rightarrow> enet" where
  "reg_write a v s = upd_dev (\<lambda>d. d\<lparr>regs := MWrite a v # regs d\<rparr>) s"

definition reg_read :: "nic \<Rightarrow> addr \<Rightarrow> enet \<Rightarrow> uint32 \<times> enet" where
  "reg_read nic a s = (let v = nic (regs (wire s)) a in (v, upd_dev (\<lambda>d. d\<lparr>regs := MRead a v # regs d\<rparr>) s))"

text \<open>The fields of a descriptor, which has 16 bytes, packed.\<close>

definition rx_desc :: "enet \<Rightarrow> addr" where "rx_desc s = rxDescs (wire s) + 16 * rxRead (wire s)"
definition tx_desc :: "enet \<Rightarrow> addr" where "tx_desc s = txDescs (wire s) + 16 * txWrite (wire s)"

definition DESC_LEN :: addr where "DESC_LEN = 8"
definition TX_CMD :: addr where "TX_CMD = 11"
definition DESC_STATUS :: addr where "DESC_STATUS = 12"
definition RX_ERRORS :: addr where "RX_ERRORS = 13"

definition put8 :: "addr \<Rightarrow> uint8 \<Rightarrow> enet \<Rightarrow> enet" where
  "put8 a v s = set_nram ((nram s)(a := v)) s"

definition put_addr :: "addr \<Rightarrow> addr \<Rightarrow> enet \<Rightarrow> enet" where
  "put_addr a v s = set_nram (store64 (nram s) a (ucast v)) s"

partial_function (option) eeprom_wait :: "nic \<Rightarrow> addr \<Rightarrow> enet \<Rightarrow> (uint32 \<times> enet) option" where
  "eeprom_wait nic base s =
     (let (val, s1) = reg_read nic (base + REG_EERD) s
      in if NOT val AND EERD_DONE \<noteq> 0 then eeprom_wait nic base s1 else Some (val, s1))"

definition eepromRead :: "nic \<Rightarrow> addr \<Rightarrow> uint8 \<Rightarrow> enet \<Rightarrow> (uint16 \<times> enet) option" where
  "eepromRead nic base eepromAddr s = do {
     (val, s1) \<leftarrow> eeprom_wait nic base (reg_write (base + REG_EERD) (EERD_START OR push_bit 8 (ucast eepromAddr)) s);
     Some (ucast (drop_bit 16 val), s1)
   }"

section \<open>Sending\<close>

partial_function (option) tx_wait :: "(enet \<Rightarrow> enet option) \<Rightarrow> addr \<Rightarrow> enet \<Rightarrow> enet option" where
  "tx_wait sleep desc s =
     (if nram s (desc + DESC_STATUS) AND 0xf = 0 then do { s1 \<leftarrow> sleep s; tx_wait sleep desc s1 } else Some s)"

text \<open>\<open>desc\<close> and \<open>oldBuf\<close> are read before the wait, \<open>s_device.txWrite\<close> again after it.\<close>

definition eth_intel_send :: "(enet \<Rightarrow> enet option) \<Rightarrow> addr \<Rightarrow> enet \<Rightarrow> enet option" where
  "eth_intel_send sleep buf s =
     (let desc = tx_desc s; oldBuf = txBufs (wire s) (unat (txWrite (wire s)))
      in do {
        s1 \<leftarrow> tx_wait sleep desc s;
        let s2 = (if oldBuf \<noteq> 0 then net_release_buf oldBuf s1 else s1);
        let s3 = put_addr desc (nb_start (bufs s2 buf)) s2;
        let s4 = set_nram (store16 (nram s3) (desc + DESC_LEN) (ucast (nb_end (bufs s3 buf) - nb_start (bufs s3 buf)))) s3;
        let s5 = put8 (desc + DESC_STATUS) 0 (put8 (desc + TX_CMD) (CMD_EOP OR CMD_IFCS OR CMD_RS) s4);
        let s6 = upd_dev (\<lambda>d. d\<lparr>txBufs := (txBufs d)(unat (txWrite d) := buf)\<rparr>) s5;
        let s7 = upd_dev (\<lambda>d. d\<lparr>txWrite := (txWrite d + 1) AND of_nat (TX_DESC_COUNT - 1)\<rparr>) s6;
        Some (reg_write (mmioAddr (wire s7) + REG_TDT) (txWrite (wire s7)) s7)
      })"

text \<open>The driver as the protocols see it: its \<open>devSend\<close> gets the packet only.\<close>

definition e1000_dev :: "(enet \<Rightarrow> enet option) \<Rightarrow> e1000 dev" where
  "e1000_dev sleep i pkt s = eth_intel_send sleep pkt s"

section \<open>Receiving\<close>

text \<open>
  One pass of the loop, for the descriptor \<open>desc\<close> with \<open>RSTA_DD\<close> set. \<open>s_device.rxRead\<close> is read
  again behind the protocols.
\<close>

definition rx_packet ::
  "(mem \<Rightarrow> mem) \<Rightarrow> addr \<Rightarrow> (enet \<Rightarrow> enet option) \<Rightarrow> addr \<Rightarrow> addr \<Rightarrow> enet \<Rightarrow> enet option" where
  "rx_packet sched m_memcpy sleep i desc s =
     (let buf = rxBufs (wire s) (unat (rxRead (wire s)));
          s1 = set_buf buf (\<lambda>b. b\<lparr>nb_end := nb_start b + ucast (load16 (nram s) (desc + DESC_LEN))\<rparr>) s
      in do {
        s2 \<leftarrow> eth_recv sched m_memcpy (e1000_dev sleep) i buf s1;
        (buf', s3) \<leftarrow> net_alloc_buf (net_release_buf buf s2);
        Some (put_addr desc (nb_start (bufs s3 buf')) s3)
      })"

definition rx_done :: "addr \<Rightarrow> enet \<Rightarrow> enet" where
  "rx_done desc s =
     (let s1 = put8 (desc + DESC_STATUS) 0 s;
          s2 = reg_write (mmioAddr (wire s1) + REG_RDT) (rxRead (wire s1)) s1
      in upd_dev (\<lambda>d. d\<lparr>rxRead := (rxRead d + 1) AND of_nat (RX_DESC_COUNT - 1)\<rparr>) s2)"

partial_function (option) poll_loop ::
  "(enet \<Rightarrow> enet) \<Rightarrow> (mem \<Rightarrow> mem) \<Rightarrow> addr \<Rightarrow> (enet \<Rightarrow> enet option) \<Rightarrow> addr \<Rightarrow> addr \<Rightarrow> enet \<Rightarrow> enet option" where
  "poll_loop hw sched m_memcpy sleep i desc s0 =
     (let s = hw s0
      in if nram s (desc + DESC_STATUS) AND RSTA_DD = 0 then Some s
         else do {
           s1 \<leftarrow> (if nram s (desc + RX_ERRORS) \<noteq> 0 then Some s else rx_packet sched m_memcpy sleep i desc s);
           let s2 = rx_done desc s1;
           poll_loop hw sched m_memcpy sleep i (rx_desc s2) s2
         })"

definition eth_intel_poll ::
  "(enet \<Rightarrow> enet) \<Rightarrow> (mem \<Rightarrow> mem) \<Rightarrow> addr \<Rightarrow> (enet \<Rightarrow> enet option) \<Rightarrow> addr \<Rightarrow> enet \<Rightarrow> enet option" where
  "eth_intel_poll hw sched m_memcpy sleep i s = poll_loop hw sched m_memcpy sleep i (rx_desc s) s"

definition eth_intel_irq ::
  "nic \<Rightarrow> (enet \<Rightarrow> enet) \<Rightarrow> (mem \<Rightarrow> mem) \<Rightarrow> addr \<Rightarrow> (enet \<Rightarrow> enet option) \<Rightarrow> uint32 \<Rightarrow> enet \<Rightarrow> enet option" where
  "eth_intel_irq nic hw sched m_memcpy sleep int_no s =
     (let (cause, s1) = reg_read nic (mmioAddr (wire s) + REG_ICR) s
      in do {
        s2 \<leftarrow> (if cause AND 0x80 \<noteq> 0 then eth_intel_poll hw sched m_memcpy sleep (intf (wire s1)) s1 else Some s1);
        let s3 = reg_write (mmioAddr (wire s2) + 0xc8) 0 s2;
        Some (upd_dev (\<lambda>d. d\<lparr>pci_ports := send_eoi (ucast (int_no - 32)) (pci_ports d)\<rparr>) s3)
      })"

section \<open>Initialisation\<close>

text \<open>The hardware address, from the registers or from the EEPROM.\<close>

definition read_mac :: "nic \<Rightarrow> addr \<Rightarrow> enet \<Rightarrow> (EthAddr \<times> enet) option" where
  "read_mac nic base s =
     (let (ral, s1) = reg_read nic (base + REG_RAL) s
      in if ral \<noteq> 0 then
           (let (rah, s2) = reg_read nic (base + REG_RAH) s1
            in Some ([ucast ral, ucast (drop_bit 8 ral), ucast (drop_bit 16 ral), ucast (drop_bit 24 ral),
                      ucast rah, ucast (drop_bit 8 rah)], s2))
         else do {
           (mac01, s2) \<leftarrow> eepromRead nic base 0 s1;
           (mac23, s3) \<leftarrow> eepromRead nic base 1 s2;
           (mac45, s4) \<leftarrow> eepromRead nic base 2 s3;
           Some ([ucast mac01, ucast (drop_bit 8 mac01), ucast (drop_bit 16 mac23), ucast (drop_bit 24 mac23),
                  ucast mac45, ucast (drop_bit 8 mac45)], s4)
         })"

definition clear_mta :: "addr \<Rightarrow> enet \<Rightarrow> enet" where
  "clear_mta base s = fold (\<lambda>i. reg_write (base + REG_MTA + of_nat (i * 4)) 0) [0..<128] s"

definition free_descs :: "addr \<Rightarrow> enet \<Rightarrow> enet" where
  "free_descs p s = (if p \<noteq> 0 then s\<lparr>nmm := pfree (nmm s) p\<rparr> else s)"

definition alloc_descs :: "nat \<Rightarrow> enet \<Rightarrow> addr \<times> enet" where
  "alloc_descs n s = (let (p, h) = pmalloc (nmm s) (of_nat (n * 16)) in (p, s\<lparr>nmm := h\<rparr>))"

text \<open>The loop over the receive descriptors, at descriptor \<open>i\<close>.\<close>

function rx_setup :: "addr \<Rightarrow> nat \<Rightarrow> enet \<Rightarrow> enet option" where
  "rx_setup descs i s =
     (if i \<ge> RX_DESC_COUNT then Some s
      else do {
        (buf, s1) \<leftarrow> net_alloc_buf s;
        let s2 = upd_dev (\<lambda>d. d\<lparr>rxBufs := (rxBufs d)(i := buf)\<rparr>) s1;
        let desc = descs + of_nat (i * 16);
        let s3 = put8 (desc + DESC_STATUS) 0 (put_addr desc (nb_start (bufs s2 buf)) s2);
        rx_setup descs (i + 1) s3
      })"
  by auto
termination by (relation "measure (\<lambda>(descs, i, s). RX_DESC_COUNT - i)") auto

declare rx_setup.simps [simp del]

definition tx_setup :: "addr \<Rightarrow> enet \<Rightarrow> enet" where
  "tx_setup descs s =
     fold (\<lambda>i. put8 (descs + of_nat (i * 16) + DESC_STATUS) TSTA_DD) [0..<TX_DESC_COUNT]
       (set_nram (memset (nram s) descs 0 (of_nat (TX_DESC_COUNT * 16))) s)"

definition rx_start :: "addr \<Rightarrow> addr \<Rightarrow> enet \<Rightarrow> enet" where
  "rx_start base descs s =
     fold (\<lambda>(r, v). reg_write (base + r) v)
       [(REG_RDBAL, descs), (REG_RDBAH, 0), (REG_RDLEN, of_nat (RX_DESC_COUNT * 16)), (REG_RDH, 0),
        (REG_RDT, of_nat (RX_DESC_COUNT - 1)), (REG_RCTL, RCTL_FLAGS)]
       (upd_dev (\<lambda>d. d\<lparr>rxRead := 0\<rparr>) s)"

definition tx_start :: "addr \<Rightarrow> addr \<Rightarrow> enet \<Rightarrow> enet" where
  "tx_start base descs s =
     fold (\<lambda>(r, v). reg_write (base + r) v)
       [(REG_TDBAL, descs), (REG_TDBAH, 0), (REG_TDLEN, of_nat (TX_DESC_COUNT * 16)), (REG_TDH, 0),
        (REG_TDT, 0), (REG_TCTL, TCTL_FLAGS)]
       (upd_dev (\<lambda>d. d\<lparr>txWrite := 0\<rparr>) s)"

definition create_intf :: "addr \<Rightarrow> EthAddr \<Rightarrow> enet \<Rightarrow> enet option" where
  "create_intf eth_name localAddr s = do {
     (i, s1) \<leftarrow> net_intf_create s;
     let s2 = upd_dev (\<lambda>d. d\<lparr>intf := i\<rparr>) s1;
     let s3 = s2\<lparr>intfs := (intfs s2)(i := (intfs s2 i)\<lparr>if_ethAddr := localAddr, if_ipAddr := 0x7b02a8c0, if_name := eth_name,
        if_poll := Some E1000_poll, if_send := Some Eth_send_intf, if_devSend := Some E1000_send\<rparr>)\<rparr>;
     Some (net_intf_add i s3)
   }"

text \<open>The interrupts are switched on and those that are pending read away.\<close>

definition enable_irqs :: "nic \<Rightarrow> device \<Rightarrow> addr \<Rightarrow> uint32 \<Rightarrow> enet \<Rightarrow> enet" where
  "enable_irqs nic dev irq_addr i s =
     (let (line, tr) = pci_get_interrupt_line dev i (pci_ports (wire s));
          s1 = upd_dev (\<lambda>d. d\<lparr>pci_ports := tr, irq_routines := irq_setroutine (irq_routines d) line irq_addr\<rparr>) s;
          base = mmioAddr (wire s1);
          s2 = reg_write (base + REG_IMS) (0xff AND NOT 4) (reg_write (base + REG_IMS) 0x1fffff s1);
          (_, s3) = reg_read nic (base + 0xc0) s2;
          (_, s4) = reg_read nic (base + REG_ICR) s3
      in s4)"

text \<open>
  \<open>irq_addr\<close> is the address of \<open>eth_intel_irq\<close>, \<open>eth_name\<close> that of the string \<open>"eth"\<close>. The union
  holds an address in the branch that goes on, since \<open>bar.flags\<close> has \<open>PCI_BAR_IO\<close> clear.
\<close>

definition eth_intel_init ::
  "nic \<Rightarrow> device \<Rightarrow> addr \<Rightarrow> addr \<Rightarrow> uint32 \<Rightarrow> PciDeviceInfo \<Rightarrow> enet \<Rightarrow> enet option" where
  "eth_intel_init nic dev irq_addr eth_name i info s =
     (if pi_vendorId info \<noteq> 0x8086 then Some s
      else if pi_deviceId info \<noteq> 0x100e \<and> pi_deviceId info \<noteq> 0x1503 then Some s
      else let (bar, tr) = pci_get_bar dev i 0 (pci_ports (wire s));
               s1 = upd_dev (\<lambda>d. d\<lparr>pci_ports := tr\<rparr>) s
        in if bar_flags bar AND PCI_BAR_IO \<noteq> 0 then Some s1
           else let base = (case bar_u bar of Bar_address a \<Rightarrow> a | Bar_port p \<Rightarrow> ucast p);
                    (cmd, tr2) = pci_read16 dev i PCI_CONFIG_COMMAND tr;
                    tr3 = pci_write16 i PCI_CONFIG_COMMAND (cmd OR 4) tr2;
                    s2 = enable_irqs nic dev irq_addr i (upd_dev (\<lambda>d. d\<lparr>mmioAddr := base, pci_ports := tr3\<rparr>) s1)
             in do {
               (localAddr, s3) \<leftarrow> read_mac nic base s2;
               let (ctrl, s4) = reg_read nic (base + REG_CTRL) s3;
               let s5 = clear_mta base (reg_write (base + REG_CTRL) (ctrl OR CTRL_SLU) s4);
               let s6 = free_descs (rxDescs (wire s5)) s5;
               let s7 = free_descs (txDescs (wire s6)) s6;
               let (rx, s8) = alloc_descs RX_DESC_COUNT s7;
               let (tx, s9) = alloc_descs TX_DESC_COUNT s8;
               let s10 = upd_dev (\<lambda>d. d\<lparr>rxDescs := rx, txDescs := tx\<rparr>) s9;
               s11 \<leftarrow> rx_setup rx 0 s10;
               let s12 = tx_setup tx (rx_start base rx s11);
               create_intf eth_name localAddr (tx_start base tx s12)
             })"

section \<open>Finding the card (pci.c)\<close>

text \<open>The packet that is sent at the start; it lies at the address \<open>pkgbuf\<close> in memory.\<close>

definition pkgbuf_bytes :: "uint8 list" where
  "pkgbuf_bytes =
    [0xff, 0xff, 0xff, 0xff, 0xff, 0xff, 0x52, 0x54, 0x00, 0x12, 0x34, 0x56, 0x08, 0x06,
     0x00, 0x01, 0x08, 0x00, 0x06, 0x04, 0x00, 0x01, 0x52, 0x54, 0x00, 0x12, 0x34, 0x56, 0xc0, 0xa8, 0x02, 0x7b,
     0x00, 0x00, 0x00, 0x00, 0x00, 0x00, 0xc0, 0xa8, 0x02, 0x01,
     0x00, 0x00, 0x00, 0x00, 0x00, 0x00, 0x00, 0x00, 0x00, 0x00, 0x00, 0x00, 0x00, 0x00, 0x00, 0x00]"

record pci_env =
  e_nic :: nic
  e_dev :: device
  e_irq_addr :: addr
  e_eth_name :: addr
  e_pkgbuf :: addr
  e_m_memcpy :: addr
  e_sched :: "mem \<Rightarrow> mem"
  e_sleep :: "enet \<Rightarrow> enet option"

definition pci_first_packet :: "pci_env \<Rightarrow> enet \<Rightarrow> enet option" where
  "pci_first_packet e s = do {
     (b, s1) \<leftarrow> net_alloc_buf s;
     m \<leftarrow> memcpy (e_sched e) (e_m_memcpy e) (nram s1) (nb_start (bufs s1 b)) (e_pkgbuf e) 58;
     let s2 = set_buf b (\<lambda>x. x\<lparr>nb_end := nb_end x + 58\<rparr>) (set_nram m s1);
     eth_intel_send (e_sleep e) b s2
   }"

definition port_step :: "(trace \<Rightarrow> 'a \<times> trace) \<Rightarrow> enet \<Rightarrow> 'a \<times> enet" where
  "port_step f s = (let (v, tr) = f (pci_ports (wire s)) in (v, upd_dev (\<lambda>d. d\<lparr>pci_ports := tr\<rparr>) s))"

definition pci_visit :: "pci_env \<Rightarrow> uint32 \<Rightarrow> uint32 \<Rightarrow> uint32 \<Rightarrow> enet \<Rightarrow> enet option" where
  "pci_visit e bus dv func s =
     (let i = PCI_MAKE_ID bus dv func;
          (vendor, s1) = port_step (pci_read16 (e_dev e) i PCI_CONFIG_VENDOR_ID) s
      in if vendor = 0xffff then Some s1
         else let (dvid, s2) = port_step (pci_read16 (e_dev e) i PCI_CONFIG_DEVICE_ID) s1;
                  (prog, s3) = port_step (pci_read8 (e_dev e) i PCI_CONFIG_PROG_INTF) s2;
                  (subc, s4) = port_step (pci_read8 (e_dev e) i PCI_CONFIG_SUBCLASS) s3;
                  (cls, s5) = port_step (pci_read8 (e_dev e) i PCI_CONFIG_CLASS_CODE) s4;
                  info = \<lparr>pi_vendorId = vendor, pi_deviceId = dvid, pi_classCode = cls, pi_subclass = subc, pi_progIntf = prog\<rparr>
           in if vendor = 0x8086 \<and> dvid = 0x100e then do {
                s6 \<leftarrow> eth_intel_init (e_nic e) (e_dev e) (e_irq_addr e) (e_eth_name e) i info s5;
                pci_first_packet e (arp_init s6)
              } else Some s5)"

text \<open>The loop over the functions of a device, then over the devices of all buses.\<close>

definition pci_functions :: "pci_env \<Rightarrow> uint32 \<Rightarrow> uint32 \<Rightarrow> nat \<Rightarrow> enet \<Rightarrow> enet option" where
  "pci_functions e bus dv n s =
     fold (\<lambda>func r. Option.bind r (pci_visit e bus dv (of_nat func))) [0..<n] (Some s)"

definition pci_device :: "pci_env \<Rightarrow> uint32 \<Rightarrow> uint32 \<Rightarrow> enet \<Rightarrow> enet option" where
  "pci_device e bus dv s =
     (let (headerType, s1) = port_step (pci_read8 (e_dev e) (PCI_MAKE_ID bus dv 0) PCI_CONFIG_HEADER_TYPE) s
      in pci_functions e bus dv (if headerType AND PCI_TYPE_MULTIFUNC \<noteq> 0 then 8 else 1) s1)"

text \<open>The process ends with \<open>_kill()\<close> when the scan is done, which is left to its caller here.\<close>

definition pci_init :: "pci_env \<Rightarrow> enet \<Rightarrow> enet option" where
  "pci_init e s =
     fold (\<lambda>bus r. fold (\<lambda>dv r. Option.bind r (pci_device e (of_nat bus) (of_nat dv))) [0..<32] r) [0..<256] (Some s)"

section \<open>Sending\<close>

lemma pkgbuf_length: "length pkgbuf_bytes = 58" by (simp add: pkgbuf_bytes_def)

lemma enet_fields [simp]:
  "nram (upd_dev f s) = nram s" "bufs (upd_dev f s) = bufs s" "wire (upd_dev f s) = f (wire s)" "nmm (upd_dev f s) = nmm s"
  "nlinks (upd_dev f s) = nlinks s" "intfs (upd_dev f s) = intfs s" "arpCache (upd_dev f s) = arpCache s"
  "s_netFreeBufs (upd_dev f s) = s_netFreeBufs s"
  by (simp_all add: upd_dev_def nram_def)

lemma put_fields [simp]:
  "nram (put8 a v s) = (nram s)(a := v)" "wire (put8 a v s) = wire s" "bufs (put8 a v s) = bufs s"
  "nram (put_addr a w s) = store64 (nram s) a (ucast w)" "wire (put_addr a w s) = wire s" "bufs (put_addr a w s) = bufs s"
  by (simp_all add: put8_def put_addr_def)

lemma reg_write_fields [simp]:
  "nram (reg_write a v s) = nram s" "bufs (reg_write a v s) = bufs s"
  "wire (reg_write a v s) = (wire s)\<lparr>regs := MWrite a v # regs (wire s)\<rparr>"
  by (simp_all add: reg_write_def)

text \<open>A descriptor is free when the card has set one of the low four bits of its status.\<close>

definition desc_done :: "addr \<Rightarrow> enet \<Rightarrow> bool" where
  "desc_done desc s \<longleftrightarrow> nram s (desc + DESC_STATUS) AND 0xf \<noteq> 0"

text \<open>\<open>n\<close> calls of \<open>_sleep\<close>.\<close>

primrec sleeps :: "(enet \<Rightarrow> enet option) \<Rightarrow> nat \<Rightarrow> enet \<Rightarrow> enet option" where
  "sleeps sleep 0 s = Some s"
| "sleeps sleep (Suc n) s = Option.bind (sleep s) (sleeps sleep n)"

lemma tx_wait_sleeps:
  "sleeps sleep n s = Some t \<Longrightarrow> desc_done desc t \<Longrightarrow>
    (\<And>k u. k < n \<Longrightarrow> sleeps sleep k s = Some u \<Longrightarrow> \<not> desc_done desc u) \<Longrightarrow> tx_wait sleep desc s = Some t"
proof (induction n arbitrary: s)
  case 0
  then show ?case by (subst tx_wait.simps) (simp add: desc_done_def)
next
  case (Suc n)
  obtain s1 where s1: "sleep s = Some s1" "sleeps sleep n s1 = Some t"
    using Suc.prems(1) by (auto simp: bind_eq_Some_conv)
  have "\<not> desc_done desc u" if "k < n" "sleeps sleep k s1 = Some u" for k u
    using Suc.prems(3) [of "Suc k" u] that s1(1) by simp
  then have "tx_wait sleep desc s1 = Some t" by (intro Suc.IH s1(2) Suc.prems(2)) blast
  moreover have "\<not> desc_done desc s" using Suc.prems(3) [of 0 s] by simp
  ultimately show ?case using s1(1) by (subst tx_wait.simps) (simp add: desc_done_def)
qed

lemma ring_step:
  assumes "k \<le> 32"
  shows "unat (((i :: uint32) + 1) AND mask k) = (unat i + 1) mod 2 ^ k"
proof -
  have d: "(2 :: nat) ^ k dvd 2 ^ 32" using assms by (rule le_imp_power_dvd)
  have "unat ((i + 1) AND mask k) = unat (i + 1) mod 2 ^ k"
    by (simp only: take_bit_eq_mask [symmetric] unsigned_take_bit_eq) (simp only: take_bit_eq_mod)
  also have "\<dots> = (unat i + 1) mod 2 ^ 32 mod 2 ^ k" by (simp add: unat_word_ariths)
  also have "\<dots> = (unat i + 1) mod 2 ^ k" using d by (rule mod_mod_cancel)
  finally show ?thesis .
qed

lemma ring_steps:
  "unat ((i :: uint32) + 1 AND 7) = (unat i + 1) mod 8" "unat ((i :: uint32) + 1 AND 31) = (unat i + 1) mod 32"
  using ring_step [of 3 i] ring_step [of 5 i] by (simp_all add: mask_eq_exp_minus_1)

text \<open>The parts of a descriptor for sending.\<close>

definition tx_posted :: "mem \<Rightarrow> addr \<Rightarrow> addr \<Rightarrow> uint16 \<Rightarrow> bool" where
  "tx_posted m desc p n \<longleftrightarrow> load64 m desc = ucast p \<and> load16 m (desc + 8) = n \<and> m (desc + 11) = 0x0b \<and> m (desc + 12) = 0"

lemma descriptor_bytes:
  "tx_posted ((store16 (store64 m d (ucast p)) (d + 8) n)(d + 11 := 0x0b, d + 12 := 0)) d p n"
  "\<not> in_range d 16 x \<Longrightarrow> ((store16 (store64 m d (ucast p)) (d + 8) n)(d + 11 := 0x0b, d + 12 := 0)) x = m x"
proof -
  let ?m = "(store16 (store64 m d (ucast p)) (d + 8) n)(d + 11 := 0x0b, d + 12 := 0)"
  have "load64 ?m d = load64 (store64 m d (ucast p)) d"
    by (simp add: load64_def load32_def store16_def)
  moreover have "load16 ?m (d + 8) = load16 (store16 (store64 m d (ucast p)) (d + 8) n) (d + 8)"
    by (simp add: load16_def)
  ultimately show "tx_posted ?m d p n" by (simp add: tx_posted_def load64_store64)
  assume "\<not> in_range d 16 x"
  then have "x \<notin> (\<lambda>k. d + k) ` {0, 1, 2, 3, 4, 5, 6, 7, 8, 9, 10, 11, 12}" by (auto simp: in_range_def)
  then show "?m x = m x" by (simp add: store16_def store64_def store32_def add.assoc)
qed

text \<open>
  C38. \<open>eth_intel_send\<close> waits until the card is done with the next descriptor of the ring, gives back
  the buffer sent with it before, writes the address and the length of the packet, the command and a
  status of 0 to it, moves \<open>txWrite\<close> to the next of the 8 descriptors and tells it to the card; nothing
  else in memory changes.
\<close>

theorem eth_intel_send_posts:
  assumes wait: "sleeps sleep n s = Some t" "desc_done (tx_desc s) t"
    "\<And>k u. k < n \<Longrightarrow> sleeps sleep k s = Some u \<Longrightarrow> \<not> desc_done (tx_desc s) u"
    and w: "wire t = wire s" "txWrite (wire s) < 8"
    and old: "old = txBufs (wire s) (unat (txWrite (wire s)))"
    and t2: "t2 = (if old \<noteq> 0 then net_release_buf old t else t)"
  shows "\<exists>s'. eth_intel_send sleep buf s = Some s' \<and>
    tx_posted (nram s') (tx_desc s) (nb_start (bufs t buf)) (ucast (nb_end (bufs t buf) - nb_start (bufs t buf))) \<and>
    (\<forall>x. \<not> in_range (tx_desc s) 16 x \<longrightarrow> nram s' x = nram t2 x) \<and>
    txBufs (wire s') = (txBufs (wire s))(unat (txWrite (wire s)) := buf) \<and>
    unat (txWrite (wire s')) = (unat (txWrite (wire s)) + 1) mod 8 \<and>
    regs (wire s') = MWrite (mmioAddr (wire s) + REG_TDT) (txWrite (wire s')) # regs (wire s)"
proof -
  let ?d = "tx_desc s"
  have t: "tx_wait sleep ?d s = Some t" by (rule tx_wait_sleeps [OF wait])
  have b: "nb_start (bufs t2 buf) = nb_start (bufs t buf)" "nb_end (bufs t2 buf) = nb_end (bufs t buf)" "wire t2 = wire s"
    using w(1) by (auto simp: t2 net_release_buf_def Let_def)
  let ?p = "nb_start (bufs t buf)" and ?n = "ucast (nb_end (bufs t buf) - nb_start (bufs t buf)) :: uint16"
  let ?m = "(store16 (store64 (nram t2) ?d (ucast ?p)) (?d + 8) ?n)(?d + 11 := 0x0b, ?d + 12 := 0)"
  have tw: "unat ((txWrite (wire s) + 1) AND of_nat (TX_DESC_COUNT - 1)) = (unat (txWrite (wire s)) + 1) mod 8"
    by (simp add: TX_DESC_COUNT_def ring_steps)
  define s' where "s' = (let s5 = put8 (?d + 12) 0 (put8 (?d + 11) 0x0b (set_nram (store16 (store64 (nram t2) ?d (ucast ?p)) (?d + 8) ?n)
      (put_addr ?d ?p t2)));
    s6 = upd_dev (\<lambda>d. d\<lparr>txBufs := (txBufs d)(unat (txWrite d) := buf)\<rparr>) s5;
    s7 = upd_dev (\<lambda>d. d\<lparr>txWrite := (txWrite d + 1) AND of_nat (TX_DESC_COUNT - 1)\<rparr>) s6
    in reg_write (mmioAddr (wire s7) + REG_TDT) (txWrite (wire s7)) s7)"
  have "eth_intel_send sleep buf s = Some s'"
    by (simp add: s'_def eth_intel_send_def t b t2 [symmetric] old [symmetric] Let_def DESC_LEN_def TX_CMD_def DESC_STATUS_def
        CMD_EOP_def CMD_IFCS_def CMD_RS_def)
  moreover have "nram s' = ?m" by (simp add: s'_def Let_def)
  moreover have "wire s' = (wire s)\<lparr>txBufs := (txBufs (wire s))(unat (txWrite (wire s)) := buf),
      txWrite := (txWrite (wire s) + 1) AND of_nat (TX_DESC_COUNT - 1),
      regs := MWrite (mmioAddr (wire s) + REG_TDT) ((txWrite (wire s) + 1) AND of_nat (TX_DESC_COUNT - 1)) # regs (wire s)\<rparr>"
    by (simp add: s'_def Let_def b)
  ultimately show ?thesis
    using tw descriptor_bytes [where m = "nram t2" and d = ?d and p = ?p and n = ?n] by (intro exI [of _ s']) simp
qed

text \<open>A card at 0xFEBC0000 with its descriptors at 0x7000 and 0x8000 and no packet on the way.\<close>

definition sample_card :: e1000 where
  "sample_card = \<lparr>mmioAddr = 0xFEBC0000, rxRead = 31, txWrite = 7, rxDescs = 0x7000, txDescs = 0x8000,
     rxBufs = (\<lambda>_. 0x210000), txBufs = (\<lambda>_. 0), intf = 0x5000, regs = [], pci_ports = [], irq_routines = (\<lambda>_. 0)\<rparr>"

definition sample_enet :: enet where
  "sample_enet = \<lparr>nmm = sample_heap, nlinks = nlinks sample_net, s_netFreeBufs = 0x1000, g_netIntfList = 0x1100,
     s_routeTable = 0x1200, g_netBufAllocCount = 1,
     bufs = (\<lambda>_. \<lparr>nb_start = 0x210100, nb_end = 0x21013C, nb_refCount = 1, nb_seq = 0, nb_flags = 0\<rparr>),
     intfs = (\<lambda>_. sample_intf), routes = routes sample_net, arpCache = arpCache sample_net, wire = sample_card\<rparr>"

text \<open>A card that is done with the last descriptor after the first sleep.\<close>

definition sample_sleep :: "enet \<Rightarrow> enet option" where "sample_sleep s = Some (put8 0x807C 1 s)"

theorem eth_intel_send_posts_witness:
  "\<exists>s'. eth_intel_send sample_sleep 0x210000 sample_enet = Some s' \<and> txWrite (wire s') = 0 \<and>
    tx_posted (nram s') 0x8070 0x210100 60"
proof -
  let ?t = "put8 0x807C 1 sample_enet"
  have f: "wire sample_enet = sample_card" "tx_desc sample_enet = 0x8070" "ram sample_heap 0x807C = 0"
    "bufs sample_enet 0x210000 = \<lparr>nb_start = 0x210100, nb_end = 0x21013C, nb_refCount = 1, nb_seq = 0, nb_flags = 0\<rparr>"
    by (simp_all add: sample_enet_def tx_desc_def sample_card_def sample_heap_def store32_def)
  have n: "nram sample_enet = ram sample_heap" by (simp add: sample_enet_def nram_def)
  have "\<not> desc_done (tx_desc sample_enet) sample_enet" unfolding desc_done_def n f by (simp add: DESC_STATUS_def f)
  moreover have "desc_done (tx_desc sample_enet) ?t" unfolding desc_done_def f by (simp add: DESC_STATUS_def)
  ultimately have "\<exists>s'. eth_intel_send sample_sleep 0x210000 sample_enet = Some s' \<and>
      tx_posted (nram s') (tx_desc sample_enet) 0x210100 60 \<and> unat (txWrite (wire s')) = 0"
    using eth_intel_send_posts [OF _ _ _ _ _ refl refl, where s = sample_enet and sleep = sample_sleep and n = 1 and t = ?t and buf = "0x210000"]
    by (auto simp: sample_sleep_def f sample_card_def)
  then show ?thesis by (auto simp: f unat_eq_0)
qed

section \<open>The hardware address\<close>

text \<open>\<open>eeprom_answers nic base w\<close>: the card answers a request for a word of the EEPROM \<open>w\<close> at once.\<close>

definition eeprom_answers :: "nic \<Rightarrow> addr \<Rightarrow> (uint8 \<Rightarrow> uint16) \<Rightarrow> bool" where
  "eeprom_answers nic base w \<longleftrightarrow>
     (\<forall>tr a. nic (MWrite (base + REG_EERD) (EERD_START OR push_bit 8 (ucast a)) # tr) (base + REG_EERD) =
        push_bit 16 (ucast (w a)) OR EERD_DONE)"

lemma eeprom_word:
  "NOT (push_bit 16 (ucast x) OR EERD_DONE) AND EERD_DONE = 0"
  "ucast (drop_bit 16 (push_bit 16 (ucast (x :: uint16)) OR EERD_DONE :: uint32)) = x"
proof -
  have d: "EERD_DONE = push_bit 4 1" by (simp add: EERD_DONE_def)
  show "NOT (push_bit 16 (ucast x) OR EERD_DONE) AND EERD_DONE = 0"
    by (rule bit_word_eqI) (auto simp: bit_simps)
  show "ucast (drop_bit 16 (push_bit 16 (ucast x) OR EERD_DONE :: uint32)) = x"
    unfolding d by (rule bit_word_eqI) (auto simp: bit_simps simp del: push_bit_of_1)
qed

lemma eepromRead_answer:
  assumes "eeprom_answers nic base w"
  shows "\<exists>s'. eepromRead nic base a s = Some (w a, s')"
proof -
  let ?s1 = "reg_write (base + REG_EERD) (EERD_START OR push_bit 8 (ucast a)) s"
  have "fst (reg_read nic (base + REG_EERD) ?s1) = push_bit 16 (ucast (w a)) OR EERD_DONE"
    using assms by (simp add: reg_read_def eeprom_answers_def Let_def)
  then have "\<exists>s2. eeprom_wait nic base ?s1 = Some (push_bit 16 (ucast (w a)) OR EERD_DONE, s2)"
    by (subst eeprom_wait.simps) (use eeprom_word(1) [of "w a"] in \<open>simp add: case_prod_beta\<close>)
  then show ?thesis using eeprom_word(2) [of "w a"] by (auto simp: eepromRead_def)
qed

lemma read_mac_result:
  assumes "eeprom_answers nic base w" "ral = nic (regs (wire s)) (base + REG_RAL)"
    and "rah = nic (MRead (base + REG_RAL) ral # regs (wire s)) (base + REG_RAH)"
  shows "\<exists>s'. read_mac nic base s = Some
    (if ral \<noteq> 0 then [ucast ral, ucast (drop_bit 8 ral), ucast (drop_bit 16 ral), ucast (drop_bit 24 ral), ucast rah, ucast (drop_bit 8 rah)]
     else [ucast (w 0), ucast (drop_bit 8 (w 0)), 0, 0, ucast (w 2), ucast (drop_bit 8 (w 2))], s')"
proof -
  have z: "drop_bit 16 x = 0" "drop_bit 24 x = 0" for x :: uint16
    by (rule bit_word_eqI; simp add: bit_simps bit_imp_le_length)+
  define s1 where "s1 = snd (reg_read nic (base + REG_RAL) s)"
  obtain s2 s3 s4 where e: "eepromRead nic base 0 s1 = Some (w 0, s2)" "eepromRead nic base 1 s2 = Some (w 1, s3)"
    "eepromRead nic base 2 s3 = Some (w 2, s4)" using eepromRead_answer [OF assms(1)] by metis
  obtain s5 where r: "reg_read nic (base + REG_RAL) s = (ral, s1)" "reg_read nic (base + REG_RAH) s1 = (rah, s5)"
    using assms(2,3) by (simp add: s1_def reg_read_def Let_def)
  show ?thesis by (auto simp: read_mac_def r e z split_def)
qed

lemma read_mac_returns: "eeprom_answers nic base w \<Longrightarrow> \<exists>ha s'. read_mac nic base s = Some (ha, s')"
  using read_mac_result [OF _ refl refl] by blast

text \<open>
  The hardware address is taken from the address registers when the low one is not 0. Otherwise
  it is read from the EEPROM, which always comes to an end with a card that answers, but the third and
  fourth byte are then 0 whatever the EEPROM holds: a value of 16 bits is shifted by 16 and by 24.
\<close>

theorem read_mac_outcome:
  assumes "eeprom_answers nic base w" "ral = nic (regs (wire s)) (base + REG_RAL)"
    and "rah = nic (MRead (base + REG_RAL) ral # regs (wire s)) (base + REG_RAH)"
  shows "\<exists>s'. read_mac nic base s = Some
    (if ral \<noteq> 0 then [ucast ral, ucast (drop_bit 8 ral), ucast (drop_bit 16 ral), ucast (drop_bit 24 ral), ucast rah, ucast (drop_bit 8 rah)]
     else [ucast (w 0), ucast (drop_bit 8 (w 0)), 0, 0, ucast (w 2), ucast (drop_bit 8 (w 2))], s')"
  by (rule read_mac_result [OF assms])

text \<open>An EEPROM with the address 52:54:00:12:34:56 behind a card without an address.\<close>

definition sample_eeprom :: "uint8 \<Rightarrow> uint16" where
  "sample_eeprom a = (if a = 0 then 0x5452 else if a = 1 then 0x1200 else 0x5634)"

definition sample_nic :: nic where
  "sample_nic tr a = (case tr of
     MWrite b v # _ \<Rightarrow> if a = b then push_bit 16 (ucast (sample_eeprom (ucast (drop_bit 8 v)))) OR EERD_DONE else 0
   | _ \<Rightarrow> 0)"

lemma sample_nic_answers: "eeprom_answers sample_nic base sample_eeprom"
proof -
  have "ucast (drop_bit 8 (EERD_START OR push_bit 8 (ucast a) :: uint32)) = a" for a :: uint8
    unfolding EERD_START_def by (rule bit_word_eqI) (auto simp: bit_simps)
  then show ?thesis by (simp add: eeprom_answers_def sample_nic_def)
qed

theorem read_mac_outcome_witness:
  "\<exists>s'. read_mac sample_nic 0xFEBC0000 sample_enet = Some ([0x52, 0x54, 0, 0, 0x34, 0x56], s')"
proof -
  have "sample_nic (regs (wire sample_enet)) (0xFEBC0000 + REG_RAL) = 0"
    by (simp add: sample_nic_def sample_enet_def sample_card_def)
  moreover have "[ucast (sample_eeprom 0), ucast (drop_bit 8 (sample_eeprom 0)), 0, 0, ucast (sample_eeprom 2), ucast (drop_bit 8 (sample_eeprom 2))]
      = ([0x52, 0x54, 0, 0, 0x34, 0x56] :: uint8 list)" by (simp add: sample_eeprom_def)
  ultimately show ?thesis
    using read_mac_outcome [OF sample_nic_answers refl refl, of "0xFEBC0000" sample_enet] by simp
qed

section \<open>The packet at the start\<close>

lemma read_bytes_nth: "i < n \<Longrightarrow> read_bytes m p n ! i = m (p + of_nat i)"
  by (simp add: read_bytes_def)

lemma pkgbuf_frame:
  assumes "read_bytes m p 58 = pkgbuf_bytes" "unat p + 58 < 2 ^ 32" "nb_start b = p" "nb_end b = p + 58"
  shows "eth_decode b m = Some \<lparr>ep_hdr = p, ep_etherType = ET_ARP, ep_hdrLen = 14\<rparr>"
    "read_bytes m p 6 = g_broadcastEthAddr" "read_bytes m (p + 6) 6 = [0x52, 0x54, 0, 0x12, 0x34, 0x56]"
    "arp_packet (b\<lparr>nb_start := p + 14\<rparr>) m ARP_OP_REQUEST [0x52, 0x54, 0, 0x12, 0x34, 0x56] (ipv4_of_n 192 168 2 123) (ipv4_of_n 192 168 2 1)"
proof -
  have b: "m (p + of_nat i) = pkgbuf_bytes ! i" if "i < 58" for i
    using read_bytes_nth [of i 58 m p] that assms(1) by simp
  have bytes: "m p = 0xff" "m (p + 1) = 0xff" "m (p + 2) = 0xff" "m (p + 3) = 0xff" "m (p + 4) = 0xff" "m (p + 5) = 0xff"
    "m (p + 6) = 0x52" "m (p + 7) = 0x54" "m (p + 8) = 0" "m (p + 9) = 0x12" "m (p + 10) = 0x34" "m (p + 11) = 0x56"
    "m (p + 12) = 8" "m (p + 13) = 6" "m (p + 14) = 0" "m (p + 15) = 1" "m (p + 16) = 8" "m (p + 17) = 0"
    "m (p + 20) = 0" "m (p + 21) = 1" "m (p + 22) = 0x52" "m (p + 23) = 0x54" "m (p + 24) = 0" "m (p + 25) = 0x12" "m (p + 26) = 0x34" "m (p + 27) = 0x56"
    "m (p + 28) = 192" "m (p + 29) = 168" "m (p + 30) = 2" "m (p + 31) = 123"
    "m (p + 38) = 192" "m (p + 39) = 168" "m (p + 40) = 2" "m (p + 41) = 1"
    using b [of 0] b [of 1] b [of 2] b [of 3] b [of 4] b [of 5] b [of 6] b [of 7] b [of 8] b [of 9] b [of 10] b [of 11]
      b [of 12] b [of 13] b [of 14] b [of 15] b [of 16] b [of 17] b [of 20] b [of 21] b [of 22] b [of 23] b [of 24]
      b [of 25] b [of 26] b [of 27] b [of 28] b [of 29] b [of 30] b [of 31] b [of 38] b [of 39] b [of 40] b [of 41]
    by (simp_all add: pkgbuf_bytes_def)
  have le: "p + 14 \<le> p + 58" "p + 14 + 8 \<le> p + 58" "p + 14 + 28 \<le> p + 58"
    using assms(2) by (simp_all add: word_le_nat_alt unat_add_small)
  have "net_swap16 (load16 m (p + 12)) = ET_ARP"
    by (simp add: load16_def bytes net_swap16_def ET_ARP_def add.assoc)
  then show "eth_decode b m = Some \<lparr>ep_hdr = p, ep_etherType = ET_ARP, ep_hdrLen = 14\<rparr>"
    using le assms(3,4) by (simp add: eth_decode_def Let_def sizeof_EthHeader_def ET_ARP_def not_less)
  show "read_bytes m p 6 = g_broadcastEthAddr" "read_bytes m (p + 6) 6 = [0x52, 0x54, 0, 0x12, 0x34, 0x56]"
    by (simp_all add: read_bytes_six bytes g_broadcastEthAddr_def add.assoc)
  show "arp_packet (b\<lparr>nb_start := p + 14\<rparr>) m ARP_OP_REQUEST [0x52, 0x54, 0, 0x12, 0x34, 0x56] (ipv4_of_n 192 168 2 123) (ipv4_of_n 192 168 2 1)"
    using le assms(4)
    by (simp add: arp_packet_def Let_def read_bytes_six bytes load16_def net_swap16_def read_ipv4_def load32_def
        ARP_HTYPE_ETH_def ET_IPV4_def ARP_OP_REQUEST_def ipv4_of_n_def add.assoc)
qed

text \<open>
  The packet with which \<open>pci_visit\<close> tries the card is a broadcast frame with a well-formed ARP
  request of 52:54:00:12:34:56 and 192.168.2.123 for 192.168.2.1.
\<close>

theorem pci_first_packet_is_request:
  assumes alloc: "net_alloc_buf s = Some (b, s1)" "unat b + 314 < 2 ^ 32"
    and lit: "read_bytes (nram s1) (e_pkgbuf e) 58 = pkgbuf_bytes" "58 \<le> b + 256 - e_pkgbuf e"
    and lock: "e_sched e = (\<lambda>m. m)" "nram s1 (e_m_memcpy e) = 0" "mutex_pad_clear (e_m_memcpy e) (nram s1)"
      "\<not> in_range (b + 256) 58 (e_m_memcpy e)" "\<not> in_range (e_pkgbuf e) 58 (e_m_memcpy e)"
  shows "\<exists>s2. pci_first_packet e s = eth_intel_send (e_sleep e) b s2 \<and>
    eth_decode (bufs s2 b) (nram s2) = Some \<lparr>ep_hdr = b + 256, ep_etherType = ET_ARP, ep_hdrLen = 14\<rparr> \<and>
    read_bytes (nram s2) (b + 256) 6 = g_broadcastEthAddr \<and>
    arp_packet ((bufs s2 b)\<lparr>nb_start := b + 270\<rparr>) (nram s2) ARP_OP_REQUEST [0x52, 0x54, 0, 0x12, 0x34, 0x56]
      (ipv4_of_n 192 168 2 123) (ipv4_of_n 192 168 2 1)"
proof -
  note h = net_alloc_buf_header [OF alloc(1)]
  define m where "m = (\<lambda>x. if in_range (b + 256) 58 x then nram s1 (e_pkgbuf e + (x - (b + 256))) else nram s1 x)"
  have c: "memcpy (e_sched e) (e_m_memcpy e) (nram s1) (b + 256) (e_pkgbuf e) 58 = Some m"
    using memcpy_alone [of "nram s1" "e_m_memcpy e" "b + 256" 58 "e_pkgbuf e"] lock lit(2) by (simp add: m_def)
  have "in_range (b + 256) 58 (b + 256 + of_nat i)" if "i < 58" for i
    using that by (simp add: in_range_def word_less_nat_alt unat_of_nat)
  then have "read_bytes m (b + 256) 58 = read_bytes (nram s1) (e_pkgbuf e) 58"
    by (simp add: read_bytes_def m_def)
  with lit(1) have r: "read_bytes m (b + 256) 58 = pkgbuf_bytes" by simp
  define s2 where "s2 = set_buf b (\<lambda>x. x\<lparr>nb_end := nb_end x + 58\<rparr>) (set_nram m s1)"
  have "unat (b + 256) + 58 < 2 ^ 32" using alloc(2) by (simp add: unat_add_small)
  from pkgbuf_frame [OF r this, of "bufs s2 b"] have
    "eth_decode (bufs s2 b) m = Some \<lparr>ep_hdr = b + 256, ep_etherType = ET_ARP, ep_hdrLen = 14\<rparr>"
    "read_bytes m (b + 256) 6 = g_broadcastEthAddr"
    "arp_packet ((bufs s2 b)\<lparr>nb_start := b + 270\<rparr>) m ARP_OP_REQUEST [0x52, 0x54, 0, 0x12, 0x34, 0x56]
      (ipv4_of_n 192 168 2 123) (ipv4_of_n 192 168 2 1)"
    by (simp_all add: s2_def h ac_simps)
  moreover have "nram s2 = m" by (simp add: s2_def)
  moreover have "pci_first_packet e s = eth_intel_send (e_sleep e) b s2"
    by (simp add: pci_first_packet_def alloc(1) c h s2_def)
  ultimately show ?thesis by (intro exI [of _ s2]) simp
qed

text \<open>The memory holds the packet at 0x6000, and a buffer is on the free list.\<close>

definition sample_start :: enet where
  "sample_start = put_bytes 0x6000 pkgbuf_bytes (sample_enet\<lparr>nlinks := link_after (nlinks sample_net) 0x1000 0x210000\<rparr>)"

definition sample_env :: pci_env where
  "sample_env = \<lparr>e_nic = sample_nic, e_dev = bar_device, e_irq_addr = 0x101000, e_eth_name = 0x102000, e_pkgbuf = 0x6000,
     e_m_memcpy = 0x9000, e_sched = (\<lambda>m. m), e_sleep = sample_sleep\<rparr>"

lemma sample_start_alloc: "\<exists>s1. net_alloc_buf sample_start = Some (0x210000, s1) \<and> nram s1 = write_bytes (\<lambda>_. 0) 0x6000 pkgbuf_bytes"
proof -
  have l: "s_netFreeBufs sample_start = 0x1000" "nlinks sample_start = link_after (nlinks sample_net) 0x1000 0x210000"
    by (simp_all add: sample_start_def sample_enet_def put_bytes_def set_nram_def)
  have "\<not> link_list_is_empty (nlinks sample_start) 0x1000" "lnk_next (nlinks sample_start 0x1000) = 0x210000"
    unfolding l by (simp_all add: link_list_is_empty_def link_after_def set_lnk_next_def set_lnk_prev_def Let_def
        sample_net_def link_init_def)
  moreover have "nram sample_start = write_bytes (\<lambda>_. 0) 0x6000 pkgbuf_bytes"
  proof -
    have "nram (sample_enet\<lparr>nlinks := l\<rparr>) = (\<lambda>_. 0)" for l by (simp add: sample_enet_def nram_def sample_heap_def)
    then show ?thesis by (simp add: sample_start_def)
  qed
  ultimately show ?thesis by (simp add: net_alloc_buf_def l Let_def nram_def set_buf_def)
qed

theorem pci_first_packet_is_request_witness:
  "\<exists>s2. pci_first_packet sample_env sample_start = eth_intel_send sample_sleep 0x210000 s2 \<and>
    eth_decode (bufs s2 0x210000) (nram s2) = Some \<lparr>ep_hdr = 0x210100, ep_etherType = ET_ARP, ep_hdrLen = 14\<rparr>"
proof -
  obtain s1 where s1: "net_alloc_buf sample_start = Some (0x210000, s1)" "nram s1 = write_bytes (\<lambda>_. 0) 0x6000 pkgbuf_bytes"
    using sample_start_alloc by blast
  have "read_bytes (nram s1) 0x6000 58 = pkgbuf_bytes"
    unfolding s1(2) by (simp add: read_bytes_def pkgbuf_bytes_def upt_conv_Cons)
  moreover have "nram s1 0x9000 = 0" "mutex_pad_clear 0x9000 (nram s1)"
    unfolding s1(2) by (simp_all add: pkgbuf_bytes_def mutex_pad_clear_def)
  ultimately show ?thesis
    using pci_first_packet_is_request [OF s1(1), of sample_env] by (auto simp: sample_env_def in_range_def)
qed

section \<open>Buffers that are given back\<close>

text \<open>
  A buffer that is given back with its last reference is the next one that \<open>net_alloc_buf\<close> hands
  out, reset; the list of free buffers is as before. But its memory has been freed as well and stays
  free: the buffer, which for a received packet goes on as the buffer of its descriptor, is no live
  block of the heap any more, so that \<open>malloc\<close> may give its memory to somebody else.
\<close>

theorem released_buffer_reused:
  assumes free_list: "link_list (nlinks s) (s_netFreeBufs s) fs" "buf \<notin> set (s_netFreeBufs s # fs)"
    and heap: "holds (nmm s) ((buf, NET_BUF_SIZE) # A)" and ref: "nb_refCount (bufs s buf) = 1"
  shows "\<exists>s'. net_alloc_buf (net_release_buf buf s) = Some (buf, s') \<and>
    nb_start (bufs s' buf) = buf + 256 \<and> nb_end (bufs s' buf) = buf + 256 \<and> nb_refCount (bufs s' buf) = 1 \<and>
    link_list (nlinks s') (s_netFreeBufs s') fs \<and> g_netBufAllocCount s' = g_netBufAllocCount s \<and>
    holds (nmm s') A \<and> (\<forall>n. (buf, n) \<notin> heap_live (nmm s'))"
proof -
  let ?a = "s_netFreeBufs s"
  let ?r = "net_release_buf buf s"
  have f: "holds (free (nmm s) buf) A" "heap_live (free (nmm s) buf) = {b \<in> heap_live (nmm s). fst b \<noteq> buf}"
    using holds_free [OF heap] by blast+
  have r: "nlinks ?r = link_after (nlinks s) ?a buf" "s_netFreeBufs ?r = ?a" "nmm ?r = free (nmm s) buf"
    "g_netBufAllocCount ?r = g_netBufAllocCount s - 1"
    using ref by (simp_all add: net_release_buf_def set_buf_def Let_def)
  have l: "link_list (nlinks ?r) ?a (buf # fs)" unfolding r by (rule link_after_list [OF free_list])
  then have n: "lnk_next (nlinks ?r ?a) = buf" "\<not> link_list_is_empty (nlinks ?r) ?a"
    using link_list_empty_iff [OF l] by (auto simp: link_list_def is_ring_def lnk_nexts_def)
  obtain s' where s': "net_alloc_buf ?r = Some (buf, s')" "nmm s' = nmm ?r" "s_netFreeBufs s' = ?a"
    "g_netBufAllocCount s' = g_netBufAllocCount ?r + 1"
    "nlinks s' = set_lnk_next buf 0 (set_lnk_prev buf 0 (link_remove (nlinks ?r) buf))"
    using n r(2) by (simp add: net_alloc_buf_def Let_def set_buf_def)
  have "link_list (link_remove (nlinks ?r) buf) ?a fs" using link_remove_list [of "nlinks ?r" ?a "[]" buf fs] l by simp
  moreover have "set_lnk_next x 0 (set_lnk_prev x 0 h) = set_lnk_prev x 0 (set_lnk_next x 0 h)" for x h
    by (cases "h x") (simp add: set_lnk_next_def set_lnk_prev_def)
  ultimately have "link_list (nlinks s') ?a fs" using link_list_outside [OF _ free_list(2)] s'(5) by simp
  with net_alloc_buf_header [OF s'(1)] f show ?thesis using s' r by auto
qed

theorem released_buffer_reused_witness:
  "\<exists>h s'. net_alloc_buf (net_release_buf 0x200008 (sample_enet\<lparr>nmm := h\<rparr>)) = Some (0x200008, s') \<and>
    owned_block h 0x200008 2048 \<and> (0x200008, 2048) \<notin> heap_live (nmm s')"
proof -
  obtain h where h: "malloc sample_heap 2048 = Some (Ret 0x200008, h)"
    using malloc_cases [OF sample_heap_ok, of 2048]
    by (simp add: malloc_new_def sample_heap_def Let_def size_ok_def)
  have "holds sample_heap []" using sample_net_ok by (simp add: net_ok_def sample_net_def)
  from holds_alloc [OF this _ h] have holds: "holds h [(0x200008, 2048)]" by (simp add: size_ok_def)
  have l: "link_list (nlinks sample_net) 0x1000 []"
    by (simp add: sample_net_def link_list_def is_ring_def lnk_nexts_def lnk_prevs_def link_init_def set_lnk_next_def set_lnk_prev_def)
  show ?thesis
    using released_buffer_reused [where s = "sample_enet\<lparr>nmm := h\<rparr>" and fs = "[]" and buf = "0x200008" and A = "[]"]
      l holds holds_block [OF holds] by (auto simp: sample_enet_def NET_BUF_SIZE_def)
qed

section \<open>The protocols and the state of the driver\<close>

text \<open>
  The protocols touch the state of the driver only through its \<open>devSend\<close>: what every call of it keeps,
  sending and receiving keep.
\<close>

definition keeps_wire :: "('w \<Rightarrow> bool) \<Rightarrow> ('w net \<Rightarrow> 'w net option) \<Rightarrow> bool" where
  "keeps_wire Q f \<longleftrightarrow> (\<forall>s s'. Q (wire s) \<longrightarrow> f s = Some s' \<longrightarrow> Q (wire s'))"

lemma keeps_wireD: "keeps_wire Q f \<Longrightarrow> f s = Some s' \<Longrightarrow> Q (wire s) \<Longrightarrow> Q (wire s')"
  by (auto simp: keeps_wire_def)

lemma wire_same [simp]:
  "wire (net_release_buf b s) = wire s" "wire (set_entry i f s) = wire s" "wire (snd (arp_add ha pa s)) = wire s"
  by (auto simp: net_release_buf_def set_entry_def arp_add_def set_buf_def Let_def split: option.splits)

lemma net_alloc_buf_wire: "net_alloc_buf s = Some (b, s') \<Longrightarrow> wire s' = wire s"
  by (auto simp: net_alloc_buf_def kalloc_def set_buf_def Let_def
      split: if_splits bind_splits option.splits prod.splits outcome.splits)

lemma keeps_wireI: "(\<And>s s'. Q (wire s) \<Longrightarrow> f s = Some s' \<Longrightarrow> Q (wire s')) \<Longrightarrow> keeps_wire Q f"
  by (simp add: keeps_wire_def)

lemma eth_send_frame_keeps:
  assumes "\<And>i p. keeps_wire Q (dev i p)" shows "keeps_wire Q (eth_send_frame dev i dst et pkt)"
  by (rule keeps_wireI)
    (auto simp: eth_send_frame_def Let_def prints split: option.splits elim!: keeps_wireD [OF assms])

lemma arp_send_keeps:
  assumes "\<And>i p. keeps_wire Q (dev i p)" shows "keeps_wire Q (arp_send dev i op tha tpa)"
  by (rule keeps_wireI)
    (auto simp: arp_send_def Let_def prints bind_eq_Some_conv net_alloc_buf_wire split: option.splits
      elim!: keeps_wireD [OF eth_send_frame_keeps [OF assms]])

lemma arp_request_keeps:
  assumes "\<And>i p. keeps_wire Q (dev i p)" shows "keeps_wire Q (arp_request dev i tpa et pkt)"
proof (rule keeps_wireI)
  fix s s' assume q: "Q (wire s)" and r: "arp_request dev i tpa et pkt s = Some s'"
  define es where "es = (case arp_lookup tpa s of Some i \<Rightarrow> (Some i, s) | None \<Rightarrow> arp_add g_nullEthAddr tpa s)"
  have "wire (snd es) = wire s" by (simp add: es_def split: option.split)
  with q r show "Q (wire s')"
    by (auto simp: arp_request_def es_def [symmetric] Let_def split: prod.splits option.splits if_splits
        elim!: keeps_wireD [OF arp_send_keeps [OF assms]])
qed

lemma eth_send_intf_keeps:
  assumes "\<And>i p. keeps_wire Q (dev i p)" shows "keeps_wire Q (eth_send_intf dev i dst et pkt)"
  by (rule keeps_wireI)
    (auto simp: eth_send_intf_def split: net_addr.splits option.splits if_splits
      elim!: keeps_wireD [OF eth_send_frame_keeps [OF assms]] keeps_wireD [OF arp_request_keeps [OF assms]])

lemma arp_recv_keeps:
  assumes "\<And>i p. keeps_wire Q (dev i p)" shows "keeps_wire Q (arp_recv dev i pkt)"
  by (rule keeps_wireI)
    (auto simp: arp_recv_def prints arp_reply_def Let_def bind_eq_Some_conv split: option.splits if_splits
      elim!: keeps_wireD [OF eth_send_intf_keeps [OF assms]] keeps_wireD [OF arp_send_keeps [OF assms]])

lemma ipv4_send_keeps:
  assumes "\<And>i p. keeps_wire Q (dev i p)" shows "keeps_wire Q (ipv4_send dev dst proto pkt)"
  by (rule keeps_wireI)
    (auto simp: ipv4_send_def ipv4_send_intf_def prints Let_def bind_eq_Some_conv split: option.splits
      elim!: keeps_wireD [OF eth_send_intf_keeps [OF assms]])

lemma icmp_echo_keeps:
  assumes "\<And>i p. keeps_wire Q (dev i p)" shows "keeps_wire Q (icmp_echo sched lk dev ty dst i' sq d e)"
  by (rule keeps_wireI)
    (auto simp: icmp_echo_def prints Let_def bind_eq_Some_conv net_alloc_buf_wire
      elim!: keeps_wireD [OF ipv4_send_keeps [OF assms]])

lemma ipv4_recv_keeps:
  assumes "\<And>i p. keeps_wire Q (dev i p)" shows "keeps_wire Q (ipv4_recv sched lk dev i pkt)"
  by (rule keeps_wireI)
    (auto simp: ipv4_recv_def icmp_recv_def icmp_echo_reply_def prints Let_def split: if_splits
      elim!: keeps_wireD [OF icmp_echo_keeps [OF assms]])

lemma eth_recv_keeps:
  assumes "\<And>i p. keeps_wire Q (dev i p)" shows "keeps_wire Q (eth_recv sched lk dev i pkt)"
  by (rule keeps_wireI)
    (auto simp: eth_recv_def prints Let_def split: option.splits if_splits
      elim!: keeps_wireD [OF ipv4_recv_keeps [OF assms]] keeps_wireD [OF arp_recv_keeps [OF assms]])

section \<open>The indices of the rings\<close>

definition rings_ok :: "e1000 \<Rightarrow> bool" where
  "rings_ok d \<longleftrightarrow> rxRead d < 32 \<and> txWrite d < 8"

lemma ring_bounds: "((i :: uint32) + 1 AND 7) < 8" "((i :: uint32) + 1 AND 31) < 32"
  by (simp_all add: word_less_nat_alt ring_steps)

lemma tx_wait_keeps:
  assumes "keeps_wire Q sleep" "tx_wait sleep desc s = Some s'" "Q (wire s)"
  shows "Q (wire s')"
proof -
  have "sleep = sleep \<longrightarrow> Q (wire s) \<longrightarrow> Q (wire s')"
    by (rule tx_wait.raw_induct [where P = "\<lambda>slp dsc s s'. slp = sleep \<longrightarrow> Q (wire s) \<longrightarrow> Q (wire s')", OF _ assms(2)])
      (auto simp: bind_eq_Some_conv split: if_splits dest: keeps_wireD [OF assms(1)])
  with assms(3) show ?thesis by blast
qed

lemma eth_intel_send_keeps:
  assumes "keeps_wire rings_ok sleep" shows "keeps_wire rings_ok (e1000_dev sleep i buf)"
proof (rule keeps_wireI)
  fix s s' assume q: "rings_ok (wire s)" and r: "e1000_dev sleep i buf s = Some s'"
  obtain s1 where s1: "tx_wait sleep (tx_desc s) s = Some s1"
    using r by (auto simp: e1000_dev_def eth_intel_send_def Let_def bind_eq_Some_conv)
  have "rings_ok (wire s1)" by (rule tx_wait_keeps [OF assms s1 q])
  with r s1 show "rings_ok (wire s')"
    by (auto simp: e1000_dev_def eth_intel_send_def Let_def rings_ok_def ring_bounds TX_DESC_COUNT_def)
qed

lemma rx_packet_keeps:
  assumes "keeps_wire rings_ok sleep" shows "keeps_wire rings_ok (rx_packet sched lk sleep i desc)"
  by (rule keeps_wireI)
    (auto simp: rx_packet_def Let_def bind_eq_Some_conv net_alloc_buf_wire
      elim!: keeps_wireD [OF eth_recv_keeps [OF eth_intel_send_keeps [OF assms]]])

lemma rx_done_ok: "rings_ok (wire s) \<Longrightarrow> rings_ok (wire (rx_done desc s))"
  by (simp add: rx_done_def rings_ok_def ring_bounds RX_DESC_COUNT_def Let_def)

lemma poll_loop_keeps:
  assumes hw: "\<And>s. rings_ok (wire s) \<Longrightarrow> rings_ok (wire (hw s))" and sleep: "keeps_wire rings_ok sleep"
    and r: "poll_loop hw sched lk sleep i desc s = Some s'" and q: "rings_ok (wire s)"
  shows "rings_ok (wire s')"
proof -
  have "hw = hw \<longrightarrow> sleep = sleep \<longrightarrow> rings_ok (wire s) \<longrightarrow> rings_ok (wire s')"
    by (rule poll_loop.raw_induct [where P = "\<lambda>h sc l sl i d s s'. h = hw \<longrightarrow> sl = sleep \<longrightarrow> rings_ok (wire s) \<longrightarrow> rings_ok (wire s')", OF _ r])
      (auto simp: Let_def bind_eq_Some_conv hw rx_done_ok split: if_splits dest!: keeps_wireD [OF rx_packet_keeps [OF sleep]])
  with q show ?thesis by blast
qed

text \<open>
  C39. The indices of the two rings stay inside them: sending, receiving with all that the protocols
  do for a packet, answers included, and the interrupt keep \<open>rxRead\<close> below 32 and \<open>txWrite\<close> below 8, as
  long as whatever runs during the waits keeps them too.
\<close>

theorem ring_indices_invariant:
  assumes "rings_ok (wire s)" "\<And>s. rings_ok (wire s) \<Longrightarrow> rings_ok (wire (hw s))" "keeps_wire rings_ok sleep"
  shows "(case eth_intel_send sleep buf s of None \<Rightarrow> True | Some s' \<Rightarrow> rings_ok (wire s')) \<and>
    (case eth_intel_poll hw sched lk sleep i s of None \<Rightarrow> True | Some s' \<Rightarrow> rings_ok (wire s')) \<and>
    (case eth_intel_irq nic hw sched lk sleep int_no s of None \<Rightarrow> True | Some s' \<Rightarrow> rings_ok (wire s'))"
proof -
  have send: "rings_ok (wire s')" if "eth_intel_send sleep buf s = Some s'" for s'
    using eth_intel_send_keeps [OF assms(3), of 0 buf] that assms(1) by (auto simp: keeps_wire_def e1000_dev_def)
  have poll: "rings_ok (wire s')" if "eth_intel_poll hw sched lk sleep i t = Some s'" "rings_ok (wire t)" for i t s'
    using poll_loop_keeps [OF assms(2,3)] that by (simp add: eth_intel_poll_def)
  define rd where "rd = reg_read nic (mmioAddr (wire s) + REG_ICR) s"
  have rd: "rings_ok (wire (snd rd))" using assms(1) by (simp add: rd_def reg_read_def Let_def rings_ok_def)
  have irq: "rings_ok (wire s')" if r: "eth_intel_irq nic hw sched lk sleep int_no s = Some s'" for s'
  proof -
    obtain t where t: "(if fst rd AND 0x80 \<noteq> 0 then eth_intel_poll hw sched lk sleep (intf (wire (snd rd))) (snd rd) else Some (snd rd)) = Some t"
      "s' = upd_dev (\<lambda>d. d\<lparr>pci_ports := send_eoi (ucast (int_no - 32)) (pci_ports d)\<rparr>) (reg_write (mmioAddr (wire t) + 0xc8) 0 t)"
      using r by (auto simp: eth_intel_irq_def rd_def [symmetric] split_def Let_def bind_eq_Some_conv)
    have "rings_ok (wire t)" using t(1) rd poll by (auto split: if_splits)
    then show ?thesis by (simp add: t(2) rings_ok_def)
  qed
  show ?thesis using send poll [OF _ assms(1)] irq by (auto split: option.split)
qed

theorem ring_indices_invariant_witness:
  "case eth_intel_send sample_sleep 0x210000 sample_enet of None \<Rightarrow> True | Some s' \<Rightarrow> rings_ok (wire s')"
proof -
  have "rings_ok (wire sample_enet)" by (simp add: sample_enet_def sample_card_def rings_ok_def)
  moreover have "keeps_wire rings_ok sample_sleep" by (rule keeps_wireI) (auto simp: sample_sleep_def)
  ultimately show ?thesis using ring_indices_invariant [of sample_enet "\<lambda>s. s" sample_sleep "0x210000"] by auto
qed

section \<open>Packets with errors\<close>

text \<open>The descriptor \<open>j\<close> places behind the next one.\<close>

definition rx_at :: "e1000 \<Rightarrow> nat \<Rightarrow> addr" where
  "rx_at d j = rxDescs d + 16 * of_nat ((unat (rxRead d) + j) mod 32)"

lemma word_16: "a < 32 \<Longrightarrow> unat (16 * of_nat a :: addr) = 16 * a"
  by (simp add: unat_mult_lem [THEN iffD1] unat_of_nat)

lemma rx_at_apart:
  assumes "i < 32" "j < 32" "i \<noteq> j"
  shows "rx_at d i \<noteq> rx_at d j" "rx_at d i + 13 \<noteq> rx_at d j + 12"
proof -
  let ?i = "(unat (rxRead d) + i) mod 32" and ?j = "(unat (rxRead d) + j) mod 32"
  have n: "?i \<noteq> ?j"
  proof
    assume "?i = ?j"
    then obtain p q where "unat (rxRead d) + i + 32 * p = unat (rxRead d) + j + 32 * q" by (auto simp: nat_mod_eq_iff)
    then have "i + 32 * p = j + 32 * q" by simp
    then have "(i + 32 * p) mod 32 = (j + 32 * q) mod 32" by (rule arg_cong)
    with assms show False by simp
  qed
  have u: "unat (16 * of_nat ?i :: addr) = 16 * ?i" "unat (16 * of_nat ?j :: addr) = 16 * ?j" by (simp_all add: word_16)
  show "rx_at d i \<noteq> rx_at d j"
  proof
    assume "rx_at d i = rx_at d j"
    then have "16 * of_nat ?i = (16 * of_nat ?j :: addr)" by (simp only: rx_at_def add_left_cancel)
    with u have "16 * ?i = 16 * ?j" by metis
    with n show False by simp
  qed
  show "rx_at d i + 13 \<noteq> rx_at d j + 12"
  proof
    assume "rx_at d i + 13 = rx_at d j + 12"
    then have "rxDescs d + (16 * of_nat ?i + 1) + 12 = rxDescs d + 16 * of_nat ?j + 12" by (simp add: rx_at_def add.assoc)
    then have "16 * of_nat ?i + 1 = (16 * of_nat ?j :: addr)" by (simp only: add_left_cancel add_right_cancel)
    then have "unat (16 * of_nat ?i + 1 :: addr) = 16 * ?j" using u(2) by simp
    moreover have "unat (16 * of_nat ?i + 1 :: addr) = 16 * ?i + 1" using u(1) by (simp add: unat_add_small)
    ultimately have "16 * ?i + 1 = 16 * ?j" by simp
    then have "(16 * ?i + 1) mod 16 = (16 * ?j) mod 16" by (rule arg_cong)
    then show False by (simp del: mod_mult_self1 mod_mult_self2 add: mod_Suc)
  qed
qed

lemma rx_done_fields:
  "nram (rx_done desc s) = (nram s)(desc + 12 := 0)"
  "wire (rx_done desc s) = (wire s)\<lparr>rxRead := rxRead (wire s) + 1 AND 31,
     regs := MWrite (mmioAddr (wire s) + REG_RDT) (rxRead (wire s)) # regs (wire s)\<rparr>"
  by (simp_all add: rx_done_def Let_def DESC_STATUS_def RX_DESC_COUNT_def)

lemma rx_at_done: "rx_at (wire (rx_done desc s)) j = rx_at (wire s) (Suc j)"
  by (simp add: rx_at_def rx_done_fields ring_steps mod_Suc_eq mod_add_left_eq)

lemma rx_desc_at: "rxRead (wire s) < 32 \<Longrightarrow> rx_desc s = rx_at (wire s) 0"
  by (simp add: rx_desc_def rx_at_def word_less_nat_alt)

text \<open>The descriptors of \<open>k\<close> packets with errors, and one that is not done.\<close>

definition rx_errors :: "enet \<Rightarrow> nat \<Rightarrow> bool" where
  "rx_errors s k \<longleftrightarrow> (\<forall>j < k. nram s (rx_at (wire s) j + 12) AND 1 \<noteq> 0 \<and> nram s (rx_at (wire s) j + 13) \<noteq> 0) \<and>
     nram s (rx_at (wire s) k + 12) AND 1 = 0"

lemma rx_errors_done:
  assumes "rx_errors s (Suc k)" "Suc k < 32"
  shows "rx_errors (rx_done (rx_at (wire s) 0) s) k"
proof -
  have "rx_at (wire s) (Suc j) + 12 \<noteq> rx_at (wire s) 0 + 12" "rx_at (wire s) (Suc j) + 13 \<noteq> rx_at (wire s) 0 + 12" if "j \<le> k" for j
    using rx_at_apart [of "Suc j" 0 "wire s"] that assms(2) by auto
  with assms(1) show ?thesis unfolding rx_errors_def rx_at_done rx_done_fields(1) by simp
qed

lemma poll_errors:
  "rx_errors s k \<Longrightarrow> k < 32 \<Longrightarrow> rxRead (wire s) < 32 \<Longrightarrow>
    \<exists>s'. poll_loop (\<lambda>s. s) sched lk sleep i (rx_at (wire s) 0) s = Some s' \<and>
      unat (rxRead (wire s')) = (unat (rxRead (wire s)) + k) mod 32 \<and>
      (\<forall>x. nram s' x = (if \<exists>j < k. x = rx_at (wire s) j + 12 then 0 else nram s x)) \<and>
      regs (wire s') = rev (map (\<lambda>j. MWrite (mmioAddr (wire s) + REG_RDT) (of_nat ((unat (rxRead (wire s)) + j) mod 32))) [0..<k]) @ regs (wire s)"
proof (induction k arbitrary: s)
  case 0
  then show ?case
    by (subst poll_loop.simps) (simp add: rx_errors_def RSTA_DD_def DESC_STATUS_def word_less_nat_alt)
next
  case (Suc k)
  let ?t = "rx_done (rx_at (wire s) 0) s"
  have e: "nram s (rx_at (wire s) 0 + 12) AND 1 \<noteq> 0" "nram s (rx_at (wire s) 0 + 13) \<noteq> 0"
    using Suc.prems(1) by (auto simp: rx_errors_def)
  have t: "rx_errors ?t k" "rxRead (wire ?t) < 32" "rx_desc ?t = rx_at (wire ?t) 0"
    using rx_errors_done Suc.prems by (auto simp: rx_done_fields ring_bounds rx_desc_at)
  obtain s' where s': "poll_loop (\<lambda>s. s) sched lk sleep i (rx_at (wire ?t) 0) ?t = Some s'"
      "unat (rxRead (wire s')) = (unat (rxRead (wire ?t)) + k) mod 32"
      "\<forall>x. nram s' x = (if \<exists>j < k. x = rx_at (wire ?t) j + 12 then 0 else nram ?t x)"
      "regs (wire s') = rev (map (\<lambda>j. MWrite (mmioAddr (wire ?t) + REG_RDT) (of_nat ((unat (rxRead (wire ?t)) + j) mod 32))) [0..<k]) @ regs (wire ?t)"
    using Suc.IH [OF t(1) _ t(2)] Suc.prems(2) by auto
  have "poll_loop (\<lambda>s. s) sched lk sleep i (rx_at (wire s) 0) s = Some s'"
    using e s'(1) t(3) by (subst poll_loop.simps) (simp add: RSTA_DD_def DESC_STATUS_def RX_ERRORS_def Let_def)
  moreover have "unat (rxRead (wire s')) = (unat (rxRead (wire s)) + Suc k) mod 32"
    unfolding s'(2) by (simp add: rx_done_fields ring_steps mod_Suc_eq mod_add_left_eq)
  moreover have "nram s' x = (if \<exists>j < Suc k. x = rx_at (wire s) j + 12 then 0 else nram s x)" for x
    unfolding s'(3) [rule_format] rx_at_done Ex_less_Suc2 by (auto simp: rx_done_fields)
  moreover have "regs (wire s') = rev (map (\<lambda>j. MWrite (mmioAddr (wire s) + REG_RDT) (of_nat ((unat (rxRead (wire s)) + j) mod 32))) [0..<Suc k]) @ regs (wire s)"
  proof -
    have "[0..<Suc k] = 0 # map Suc [0..<k]" by (simp add: map_Suc_upt upt_conv_Cons)
    moreover have "unat (rxRead (wire s)) mod 32 = unat (rxRead (wire s))" using Suc.prems(3) by (simp add: word_less_nat_alt)
    ultimately show ?thesis
      unfolding s'(4) by (simp add: rx_done_fields ring_steps o_def mod_Suc_eq mod_add_left_eq del: upt_Suc)
  qed
  ultimately show ?case by blast
qed

text \<open>
  C40. Packets with errors are dropped: polling while \<open>k\<close> descriptors in a row, up to 31, are done with
  errors returns, hands no packet to the protocols, clears the status of each and nothing else in
  memory, gives each back to the card in order, and the next descriptor is the one behind them.
\<close>

theorem poll_drops_errors:
  assumes "rx_errors s k" "k < 32" "rxRead (wire s) < 32"
  shows "\<exists>s'. eth_intel_poll (\<lambda>s. s) sched lk sleep i s = Some s' \<and>
    unat (rxRead (wire s')) = (unat (rxRead (wire s)) + k) mod 32 \<and>
    (\<forall>x. nram s' x = (if \<exists>j < k. x = rx_at (wire s) j + 12 then 0 else nram s x)) \<and>
    regs (wire s') = rev (map (\<lambda>j. MWrite (mmioAddr (wire s) + REG_RDT) (of_nat ((unat (rxRead (wire s)) + j) mod 32))) [0..<k]) @ regs (wire s)"
  using poll_errors [OF assms] rx_desc_at [OF assms(3)] by (simp add: eth_intel_poll_def)

text \<open>One broken packet in the last descriptor.\<close>

definition sample_broken :: enet where "sample_broken = put8 0x71FD 1 (put8 0x71FC 1 sample_enet)"

theorem poll_drops_errors_witness:
  "\<exists>s'. eth_intel_poll (\<lambda>s. s) (\<lambda>m. m) 0x9000 sample_sleep 0x5000 sample_broken = Some s' \<and> rxRead (wire s') = 0 \<and>
    nram s' 0x71FC = 0 \<and> regs (wire s') = [MWrite 0xFEBC2818 31]"
proof -
  have w: "wire sample_broken = sample_card" "nram sample_broken = (\<lambda>_. 0)(0x71FC := 1, 0x71FD := 1)"
    by (simp_all add: sample_broken_def sample_enet_def sample_heap_def nram_def put8_def set_nram_def)
  have a: "rx_at sample_card 0 = 0x71F0" "rx_at sample_card 1 = 0x7000" by (simp_all add: rx_at_def sample_card_def)
  have "rx_errors sample_broken 1" unfolding rx_errors_def w a by (simp add: a)
  from poll_drops_errors [OF this, of "\<lambda>m. m" "0x9000" sample_sleep "0x5000"] show ?thesis
    by (auto simp: w a unat_eq_0) (auto simp: sample_card_def REG_RDT_def unat_eq_0)
qed

end
