(* ===== verification/E1000_Init.thy ===== *)
theory E1000_Init
  imports E1000
begin

text \<open>
  The rings that \<open>eth_intel_init\<close> of \<open>src/drivers/intel_e1000.c\<close> sets up: every descriptor for receiving
  has a buffer of its own from the heap, every descriptor for sending is free, and the card is told
  where they are.
\<close>

section \<open>A buffer from the heap\<close>

text \<open>The list of free buffers is empty, and its head not in the heap.\<close>

definition no_free_buf :: "'w net \<Rightarrow> bool" where
  "no_free_buf s \<longleftrightarrow> link_list_is_empty (nlinks s) (s_netFreeBufs s) \<and> s_netFreeBufs s < heap_begin (nmm s)"

lemma size_ok_buf: "size_ok NET_BUF_SIZE" by (simp add: size_ok_def NET_BUF_SIZE_def)

lemma net_alloc_buf_new:
  assumes holds: "holds (nmm s) A" and room: "heap_room (nmm s) (2060 + k)" and none: "no_free_buf s"
  shows "\<exists>b s'. net_alloc_buf s = Some (b, s') \<and> holds (nmm s') ((b, NET_BUF_SIZE) # A) \<and> heap_room (nmm s') k \<and>
    no_free_buf s' \<and> heap_end (nmm s') = heap_end (nmm s) \<and> wire s' = wire s \<and> s_netFreeBufs s' = s_netFreeBufs s \<and>
    bufs s' = (bufs s)(b := zero_buf\<lparr>nb_start := b + 256, nb_end := b + 256, nb_refCount := 1\<rparr>) \<and>
    (\<forall>y. unat (heap_end (nmm s)) \<le> unat y \<longrightarrow> nram s' y = nram s y)"
proof -
  have sz: "unat NET_BUF_SIZE + 12 = 2060" by (simp add: NET_BUF_SIZE_def)
  obtain b h where m: "malloc (nmm s) NET_BUF_SIZE = Some (Ret b, h)" and room': "heap_room h k"
    using malloc_heap_room [of "nmm s" NET_BUF_SIZE k] room size_ok_buf sz by auto
  have h: "holds h ((b, NET_BUF_SIZE) # A)" using holds_alloc [OF holds size_ok_buf m] by blast
  have beg: "heap_begin h = heap_begin (nmm s)" by (rule malloc_begin [OF m])
  have ne: "b \<noteq> s_netFreeBufs s"
    using holds_above_begin [OF h, of b NET_BUF_SIZE] none beg by (auto simp: no_free_buf_def word_less_nat_alt)
  have above: "ram h y = ram (nmm s) y" if "unat (heap_end (nmm s)) \<le> unat y" for y
  proof (rule malloc_above [OF _ size_ok_buf m that])
    show "heap_room (nmm s) (unat NET_BUF_SIZE + 12)" using room sz by (simp add: heap_room_def)
  qed
  define s' where "s' = s\<lparr>nmm := h, nlinks := set_lnk_next b 0 (set_lnk_prev b 0 (nlinks s)),
    bufs := (bufs s)(b := zero_buf\<lparr>nb_start := b + 256, nb_end := b + 256, nb_refCount := 1\<rparr>),
    g_netBufAllocCount := g_netBufAllocCount s + 1\<rparr>"
  have e: "link_list_is_empty (nlinks s) (s_netFreeBufs s)" using none by (simp add: no_free_buf_def)
  have "net_alloc_buf s = Some (b, s')"
    by (simp add: net_alloc_buf_def e kalloc_def m s'_def set_buf_def NET_BUF_START_def Let_def)
  moreover have "no_free_buf s'"
    using none ne beg by (simp add: no_free_buf_def s'_def link_list_is_empty_def set_lnk_next_def set_lnk_prev_def)
  ultimately show ?thesis
    using h room' above malloc_end [OF m] by (intro exI [of _ b] exI [of _ s']) (simp add: s'_def nram_def)
qed

section \<open>The descriptors\<close>

text \<open>A descriptor that waits for a packet at \<open>p\<close>.\<close>

definition rx_ready :: "mem \<Rightarrow> addr \<Rightarrow> addr \<Rightarrow> bool" where
  "rx_ready m d p \<longleftrightarrow> load64 m d = ucast p \<and> m (d + 12) = 0"

lemma rx_ready_set: "rx_ready ((store64 m d (ucast p))(d + 12 := 0)) d p"
proof -
  have "load64 ((store64 m d v)(d + 12 := 0)) d = load64 (store64 m d v) d" for v by (simp add: load64_def load32_def)
  then show ?thesis by (simp add: rx_ready_def load64_store64)
qed

lemma desc_address:
  assumes "unat descs + 16 * n < 4294967296" "i < n"
  shows "unat (descs + of_nat (i * 16) :: addr) = unat descs + 16 * i"
proof -
  have "i * 16 < 4294967296" using assms by linarith
  then have u: "unat (of_nat (i * 16) :: addr) = i * 16" by (rule unat_of_nat_small)
  show ?thesis using assms unat_add_small [of descs "of_nat (i * 16)"] unfolding u by linarith
qed

lemma in_desc:
  assumes "unat descs + 16 * n < 4294967296" "i < n"
  shows "in_range (descs + of_nat (i * 16)) 16 y \<longleftrightarrow> unat descs + 16 * i \<le> unat y \<and> unat y < unat descs + 16 * i + 16"
proof -
  have "unat (descs + of_nat (i * 16)) + unat (16 :: uint32) \<le> 4294967296"
    using assms desc_address [OF assms] by simp
  from in_range_unat [OF this] desc_address [OF assms] show ?thesis by simp
qed

lemma rx_ready_cong:
  assumes "\<And>y. in_range d 16 y \<Longrightarrow> m' y = m y"
  shows "rx_ready m' d p = rx_ready m d p"
proof -
  have "in_range d 16 (d + k)" if "k < 16" for k using that by (simp add: in_range_def)
  then have e: "m' (d + k) = m (d + k)" if "k < 16" for k using assms that by blast
  show ?thesis
    using e [of 0] e [of 1] e [of 2] e [of 3] e [of 4] e [of 5] e [of 6] e [of 7] e [of 12]
    by (simp add: rx_ready_def load64_def load32_def add.assoc)
qed

lemma store_desc_other:
  assumes "\<not> in_range d 16 y"
  shows "((store64 m d v)(d + 12 := w)) y = m y"
proof -
  have "y \<notin> (\<lambda>k. d + k) ` {0, 1, 2, 3, 4, 5, 6, 7, 12}" using assms by (auto simp: in_range_def)
  then show ?thesis by (simp add: store64_def store32_def add.assoc)
qed

text \<open>The buffers of the first \<open>i\<close> descriptors.\<close>

definition rx_blocks :: "e1000 \<Rightarrow> nat \<Rightarrow> (addr \<times> uint32) list" where
  "rx_blocks d i = map (\<lambda>j. (rxBufs d j, NET_BUF_SIZE)) [0..<i]"

text \<open>What holds after \<open>i\<close> rounds, with room for \<open>k\<close> bytes more than the rounds that are left need.\<close>

definition rx_setup_inv :: "(addr \<times> uint32) list \<Rightarrow> addr \<Rightarrow> nat \<Rightarrow> enet \<Rightarrow> nat \<Rightarrow> enet \<Rightarrow> bool" where
  "rx_setup_inv A descs k s0 i s \<longleftrightarrow>
     holds (nmm s) (rx_blocks (wire s) i @ A) \<and> heap_room (nmm s) (2060 * (32 - i) + k) \<and> no_free_buf s \<and>
     heap_end (nmm s) = heap_end (nmm s0) \<and>
     (\<forall>j < i. rx_ready (nram s) (descs + of_nat (j * 16)) (rxBufs (wire s) j + 256)) \<and>
     (\<forall>j < i. bufs s (rxBufs (wire s) j) = zero_buf\<lparr>nb_start := rxBufs (wire s) j + 256, nb_end := rxBufs (wire s) j + 256, nb_refCount := 1\<rparr>) \<and>
     (\<forall>y. unat (heap_end (nmm s0)) \<le> unat y \<longrightarrow> \<not> (unat descs \<le> unat y \<and> unat y < unat descs + 512) \<longrightarrow> nram s y = nram s0 y) \<and>
     (\<exists>f. wire s = (wire s0)\<lparr>rxBufs := f\<rparr>)"

lemma rx_setup_round:
  assumes inv: "rx_setup_inv A descs k s0 i s" and i: "i < 32"
    and descs: "unat (heap_end (nmm s0)) \<le> unat descs" "unat descs + 512 < 4294967296"
  shows "\<exists>t. rx_setup descs i s = rx_setup descs (i + 1) t \<and> rx_setup_inv A descs k s0 (i + 1) t"
proof -
  let ?d = "descs + of_nat (i * 16)"
  have dn: "unat descs + 16 * 32 < 4294967296" using descs(2) by simp
  have r: "2060 * (32 - i) + k = 2060 + (2060 * (32 - (i + 1)) + k)" using i by (simp add: algebra_simps)
  obtain b s1 where b: "net_alloc_buf s = Some (b, s1)" "holds (nmm s1) ((b, NET_BUF_SIZE) # rx_blocks (wire s) i @ A)"
      "heap_room (nmm s1) (2060 * (32 - (i + 1)) + k)" "no_free_buf s1" "heap_end (nmm s1) = heap_end (nmm s)" "wire s1 = wire s"
      "s_netFreeBufs s1 = s_netFreeBufs s"
      "bufs s1 = (bufs s)(b := zero_buf\<lparr>nb_start := b + 256, nb_end := b + 256, nb_refCount := 1\<rparr>)"
      "\<And>y. unat (heap_end (nmm s)) \<le> unat y \<Longrightarrow> nram s1 y = nram s y"
    using net_alloc_buf_new [of s "rx_blocks (wire s) i @ A" "2060 * (32 - (i + 1)) + k"] inv
    unfolding rx_setup_inv_def r by blast
  define m where "m = (store64 (nram s1) ?d (ucast (b + 256)))(?d + 12 := 0)"
  define t where "t = set_nram m (upd_dev (\<lambda>d. d\<lparr>rxBufs := (rxBufs d)(i := b)\<rparr>) s1)"
  have t: "nmm t = (nmm s1)\<lparr>ram := m\<rparr>" "nram t = m" "wire t = (wire s)\<lparr>rxBufs := (rxBufs (wire s))(i := b)\<rparr>" "bufs t = bufs s1"
    by (simp_all add: t_def b(6) set_nram_def upd_dev_def nram_def)
  have m: "m y = nram s1 y" if "\<not> in_range ?d 16 y" for y unfolding m_def by (rule store_desc_other [OF that])
  have he: "heap_end (nmm s) = heap_end (nmm s0)" using inv by (simp add: rx_setup_inv_def)
  have low: "m y = ram (nmm s1) y" if "unat y < unat (heap_end (nmm s1))" for y
  proof -
    have "\<not> in_range ?d 16 y" using that descs(1) in_desc [OF dn, of i y] i b(5) he by simp
    then show ?thesis using m by (simp add: nram_def)
  qed
  have "rx_setup descs i s = rx_setup descs (i + 1) t"
    by (subst rx_setup.simps)
      (use i in \<open>simp add: RX_DESC_COUNT_def b(1,8) t_def m_def DESC_STATUS_def put8_def put_addr_def set_nram_def upd_dev_def nram_def Let_def\<close>)
  moreover have "rx_setup_inv A descs k s0 (i + 1) t"
  proof -
    have bl: "rx_blocks (wire t) (i + 1) @ A = rx_blocks (wire s) i @ (b, NET_BUF_SIZE) # A"
      by (simp add: rx_blocks_def t(3))
    have "holds (nmm s1) (rx_blocks (wire t) (i + 1) @ A)" unfolding bl by (rule holds_perm [OF b(2)]) simp
    from holds_write_above [OF this b(3) low] have "holds (nmm t) (rx_blocks (wire t) (i + 1) @ A)"
      "heap_room (nmm t) (2060 * (32 - (i + 1)) + k)" by (simp_all add: t(1))
    moreover have "no_free_buf t" using b(4) by (simp add: no_free_buf_def t_def set_nram_def upd_dev_def)
    moreover have "rx_ready (nram t) (descs + of_nat (j * 16)) (rxBufs (wire t) j + 256)" if j: "j < i + 1" for j
    proof (cases "j = i")
      case True
      then show ?thesis using rx_ready_set [of "nram s1" ?d "b + 256"] by (simp add: t m_def)
    next
      case False
      have "m y = nram s y" if "in_range (descs + of_nat (j * 16)) 16 y" for y
      proof -
        have y: "unat descs + 16 * j \<le> unat y" "unat y < unat descs + 16 * j + 16" using that in_desc [OF dn, of j y] j i by auto
        then have "\<not> in_range ?d 16 y" using in_desc [OF dn, of i y] i j False by auto
        then show ?thesis using m b(9) [of y] y(1) descs(1) he by simp
      qed
      from rx_ready_cong [OF this] show ?thesis using inv False j by (simp add: rx_setup_inv_def t)
    qed
    moreover have "bufs t (rxBufs (wire t) j) = zero_buf\<lparr>nb_start := rxBufs (wire t) j + 256, nb_end := rxBufs (wire t) j + 256, nb_refCount := 1\<rparr>"
      if "j < i + 1" for j
      using that inv by (cases "j = i") (auto simp: t b(8) rx_setup_inv_def)
    moreover have "nram t y = nram s0 y" if "unat (heap_end (nmm s0)) \<le> unat y" "\<not> (unat descs \<le> unat y \<and> unat y < unat descs + 512)" for y
    proof -
      have "\<not> in_range ?d 16 y" using that(2) in_desc [OF dn, of i y] i by auto
      then show ?thesis using m b(9) [of y] that he inv by (simp add: t rx_setup_inv_def)
    qed
    moreover have "heap_end (nmm t) = heap_end (nmm s0)" using b(5) he by (simp add: t(1))
    moreover have "\<exists>f. wire t = (wire s0)\<lparr>rxBufs := f\<rparr>"
    proof -
      obtain f where "wire s = (wire s0)\<lparr>rxBufs := f\<rparr>" using inv by (auto simp: rx_setup_inv_def)
      then show ?thesis by (intro exI [of _ "f(i := b)"]) (simp add: t(3))
    qed
    ultimately show ?thesis by (simp add: rx_setup_inv_def)
  qed
  ultimately show ?thesis by blast
qed

lemma rx_setup_all:
  assumes "rx_setup_inv A descs k s0 i s" "i \<le> 32"
    and descs: "unat (heap_end (nmm s0)) \<le> unat descs" "unat descs + 512 < 4294967296"
  shows "\<exists>t. rx_setup descs i s = Some t \<and> rx_setup_inv A descs k s0 32 t"
  using assms(1,2)
proof (induction "32 - i" arbitrary: i s)
  case 0
  then show ?case by (subst rx_setup.simps) (simp add: RX_DESC_COUNT_def)
next
  case (Suc n)
  have "i < 32" using Suc.hyps(2) by linarith
  then obtain t where t: "rx_setup descs i s = rx_setup descs (i + 1) t" "rx_setup_inv A descs k s0 (i + 1) t"
    using rx_setup_round [OF Suc.prems(1) _ descs] by blast
  show ?case unfolding t(1) using Suc.hyps t(2) by (intro Suc.hyps(1)) auto
qed

section \<open>Steps that touch registers and ports only\<close>

definition regs_only :: "enet \<Rightarrow> enet \<Rightarrow> bool" where
  "regs_only s s' \<longleftrightarrow> (\<exists>r p q. s' = s\<lparr>wire := (wire s)\<lparr>regs := r, pci_ports := p, irq_routines := q\<rparr>\<rparr>)"

lemma regs_onlyI: "s' = s\<lparr>wire := (wire s)\<lparr>regs := r, pci_ports := p, irq_routines := q\<rparr>\<rparr> \<Longrightarrow> regs_only s s'"
  by (auto simp: regs_only_def)

lemma regs_only_refl [simp]: "regs_only s s"
  by (rule regs_onlyI [where r = "regs (wire s)" and p = "pci_ports (wire s)" and q = "irq_routines (wire s)"]) simp

lemma regs_only_trans: "regs_only t u \<Longrightarrow> regs_only s t \<Longrightarrow> regs_only s u"
  by (force simp: regs_only_def)

lemma regs_only_write: "regs_only s (reg_write a v s)"
  by (rule regs_onlyI [where r = "MWrite a v # regs (wire s)" and p = "pci_ports (wire s)" and q = "irq_routines (wire s)"])
    (simp add: reg_write_def upd_dev_def)

lemma regs_only_read: "regs_only s (snd (reg_read nic a s))"
  by (rule regs_onlyI [where r = "MRead a (nic (regs (wire s)) a) # regs (wire s)" and p = "pci_ports (wire s)" and q = "irq_routines (wire s)"])
    (simp add: reg_read_def upd_dev_def Let_def)

lemma regs_only_read': "reg_read nic a s = (v, t) \<Longrightarrow> regs_only s t"
  using regs_only_read [of s nic a] by simp

lemma regs_only_ports: "regs_only s (upd_dev (\<lambda>d. d\<lparr>pci_ports := p, irq_routines := f (irq_routines d)\<rparr>) s)"
  by (rule regs_onlyI [where r = "regs (wire s)" and p = p and q = "f (irq_routines (wire s))"]) (simp add: upd_dev_def)

lemma regs_only_writes: "regs_only s (fold (\<lambda>(r, v). reg_write (b + r) v) rs s)"
proof (induction rs arbitrary: s)
  case (Cons x rs)
  show ?case
    using regs_only_trans [OF Cons.IH regs_only_write, of s "b + fst x" "snd x"] by (simp add: split_def)
qed simp

lemma regs_only_mta: "regs_only s (clear_mta base s)"
proof -
  have "regs_only s (fold (\<lambda>i. reg_write (f i) 0) is s)" for f :: "nat \<Rightarrow> addr" and "is" s
  proof (induction "is" arbitrary: s)
    case (Cons x xs)
    show ?case using regs_only_trans [OF Cons.IH regs_only_write] by simp
  qed simp
  then show ?thesis by (simp add: clear_mta_def)
qed

lemma eepromRead_regs_only:
  assumes "eepromRead nic base a s = Some (v, s')" shows "regs_only s s'"
proof -
  have w: "regs_only t t'" if "eeprom_wait nic base t = Some (v, t')" for t v t'
  proof -
    have "regs_only t (snd (v, t'))"
      by (rule eeprom_wait.raw_induct [where P = "\<lambda>n b t r. regs_only t (snd r)", OF _ that])
        (auto simp: split_def Let_def split: if_splits dest: regs_only_read', metis regs_only_trans regs_only_read)
    then show ?thesis by simp
  qed
  from assms obtain v' where
    "eeprom_wait nic base (reg_write (base + REG_EERD) (EERD_START OR push_bit 8 (ucast a)) s) = Some (v', s')"
    by (auto simp: eepromRead_def bind_eq_Some_conv)
  from regs_only_trans [OF w [OF this] regs_only_write] show ?thesis .
qed

lemma read_mac_regs_only: "read_mac nic base s = Some (v, s') \<Longrightarrow> regs_only s s'"
  by (auto simp: read_mac_def split_def Let_def bind_eq_Some_conv split: if_splits
      intro: regs_only_read regs_only_trans [OF _ regs_only_read]
        regs_only_trans [OF eepromRead_regs_only [rotated]] dest!: eepromRead_regs_only elim!: regs_only_trans)

section \<open>Pages, descriptors for sending, the interface\<close>

lemma pmalloc_page:
  assumes "j < 32" "\<not> page_used h j"
  shows "\<exists>a < 32. \<not> page_used h a \<and> pmalloc h n = (pheap_begin h + of_nat a * 4096, h\<lparr>ram := (ram h)(pheap_desc h + of_nat a := 1)\<rparr>)"
proof -
  have "find (\<lambda>j. \<not> page_used h j) [0..<32] \<noteq> None" using assms by (auto simp: find_None_iff)
  then obtain a where a: "find (\<lambda>j. \<not> page_used h j) [0..<32] = Some a" by auto
  then have "\<not> page_used h a" "a < 32" by (auto simp: find_Some_iff)
  with a show ?thesis by (auto simp: pmalloc_find)
qed

lemma set_nram_twice: "set_nram m (set_nram m' s) = set_nram m s"
  by (simp add: set_nram_def)

lemma fold_put8:
  "\<exists>m. fold (\<lambda>i. put8 (f i) v) [0..<n] s = set_nram m s \<and> (\<forall>y. m y = (if \<exists>i < n. y = f i then v else nram s y))"
proof (induction n)
  case 0
  show ?case by (intro exI [of _ "nram s"]) (simp add: set_nram_def nram_def)
next
  case (Suc n)
  then obtain m where "fold (\<lambda>i. put8 (f i) v) [0..<n] s = set_nram m s" "\<forall>y. m y = (if \<exists>i < n. y = f i then v else nram s y)"
    by blast
  moreover have "put8 a v (set_nram m s) = set_nram (m(a := v)) s" for a by (simp add: put8_def set_nram_twice)
  ultimately show ?case by (intro exI [of _ "m(f n := v)"]) (auto simp: less_Suc_eq fun_upd_def)
qed

text \<open>\<open>tx_setup\<close> writes the 128 bytes of the descriptors only, and they are all free afterwards.\<close>

lemma tx_setup_writes:
  assumes "unat descs + 128 < 4294967296"
  shows "\<exists>m. tx_setup descs s = set_nram m s \<and> (\<forall>j < 8. m (descs + of_nat (j * 16) + 12) = 1) \<and>
    (\<forall>y. \<not> (unat descs \<le> unat y \<and> unat y < unat descs + 128) \<longrightarrow> m y = nram s y)"
proof -
  let ?s1 = "set_nram (memset (nram s) descs 0 128) s" and ?f = "\<lambda>i. descs + of_nat (i * 16) + 12 :: addr"
  obtain m where m: "fold (\<lambda>i. put8 (?f i) 1) [0..<8] ?s1 = set_nram m ?s1"
      "\<forall>y. m y = (if \<exists>i < 8. y = ?f i then 1 else nram ?s1 y)" using fold_put8 [of ?f 1 8 ?s1] by blast
  have "tx_setup descs s = set_nram m s"
    using m(1) by (simp add: tx_setup_def TX_DESC_COUNT_def DESC_STATUS_def TSTA_DD_def set_nram_twice)
  moreover have "m y = nram s y" if y: "\<not> (unat descs \<le> unat y \<and> unat y < unat descs + 128)" for y
  proof -
    have "y \<noteq> ?f i" if "i < 8" for i
    proof
      assume e: "y = ?f i"
      have "unat descs + 16 * 8 < 4294967296" using assms by simp
      note d = desc_address [OF this that]
      then have "unat y = unat descs + 16 * i + 12" unfolding e using assms that by (simp add: unat_add_small)
      with y that show False by simp
    qed
    moreover have "unat descs + unat (128 :: uint32) \<le> 4294967296" using assms by simp
    then have "\<not> in_range descs 128 y" using y by (simp add: in_range_unat)
    ultimately show ?thesis using m(2) by (auto simp: memset_apply)
  qed
  moreover have "m (?f j) = 1" if "j < 8" for j using m(2) that by auto
  ultimately show ?thesis by (intro exI [of _ m]) blast
qed

lemma create_intf_ok:
  assumes holds: "holds (nmm s) A" and room: "heap_room (nmm s) (52 + k)"
  shows "\<exists>i s'. create_intf eth_name ha s = Some s' \<and> wire s' = (wire s)\<lparr>intf := i\<rparr> \<and> holds (nmm s') ((i, sizeof_NetIntf) # A) \<and>
    bufs s' = bufs s \<and> intfs s' i = \<lparr>if_ethAddr = ha, if_ipAddr = 0x7b02a8c0, if_broadcastAddr = 0, if_name = eth_name,
      if_poll = Some E1000_poll, if_send = Some Eth_send_intf, if_devSend = Some E1000_send\<rparr> \<and>
    (\<forall>y. unat (heap_end (nmm s)) \<le> unat y \<longrightarrow> nram s' y = nram s y)"
proof -
  let ?n = sizeof_NetIntf
  have n: "unat ?n + 12 = 52" "size_ok ?n" by (simp_all add: sizeof_NetIntf_def size_ok_def)
  obtain i h where m: "malloc (nmm s) ?n = Some (Ret i, h)" "heap_room h k"
    using malloc_heap_room [of "nmm s" ?n k] room n by auto
  have h: "holds h ((i, ?n) # A)" using holds_alloc [OF holds n(2) m(1)] by blast
  have room0: "heap_room h 0" using m(2) by (auto simp: heap_room_def)
  let ?m = "memset (ram h) i 0 ?n"
  have same: "?m y = ram h y" if "\<not> in_range i ?n y" for y using that by (simp add: memset_apply)
  have h': "holds (h\<lparr>ram := ?m\<rparr>) ((i, ?n) # A)"
    using holds_write [OF h holds_block [OF h, of i ?n] same] by simp
  have above: "?m y = ram (nmm s) y" if y: "unat (heap_end (nmm s)) \<le> unat y" for y
  proof -
    have "unat i + unat ?n \<le> unat (heap_end h)" using holds_below_end [OF h _ room0, of i ?n] by simp
    then have "\<not> in_range i ?n y" using y malloc_end [OF m(1)] unat32_lt [of "heap_end h"] in_range_unat [of i ?n y] by simp
    moreover have "heap_room (nmm s) (unat ?n + 12)" using room n(1) by (simp add: heap_room_def)
    ultimately show ?thesis using malloc_above [OF _ n(2) m(1) y] same by simp
  qed
  have "\<exists>s'. create_intf eth_name ha s = Some s' \<and> wire s' = (wire s)\<lparr>intf := i\<rparr> \<and> nmm s' = h\<lparr>ram := ?m\<rparr> \<and> bufs s' = bufs s \<and>
      intfs s' i = \<lparr>if_ethAddr = ha, if_ipAddr = 0x7b02a8c0, if_broadcastAddr = 0, if_name = eth_name,
      if_poll = Some E1000_poll, if_send = Some Eth_send_intf, if_devSend = Some E1000_send\<rparr>"
    by (simp add: create_intf_def net_intf_create_def kalloc_def m(1) net_intf_add_def upd_dev_def set_nram_def nram_def zero_intf_def Let_def)
  with h' above show ?thesis by (force simp: nram_def)
qed

lemma pmalloc_holds:
  assumes holds: "holds h A" "(pheap_desc h, 32) \<in> set A" and room: "heap_room h k" and j: "j < 32" "\<not> page_used h j"
  shows "\<exists>a h'. a < 32 \<and> \<not> page_used h a \<and> pmalloc h n = (pheap_begin h + of_nat a * 4096, h') \<and> holds h' A \<and> heap_room h' k \<and>
    pheap_desc h' = pheap_desc h \<and> pheap_begin h' = pheap_begin h \<and> pheap_end h' = pheap_end h \<and> heap_end h' = heap_end h \<and>
    heap_begin h' = heap_begin h \<and> (\<forall>b < 32. page_used h' b = (b = a \<or> page_used h b))"
proof -
  obtain a where a: "a < 32" "\<not> page_used h a"
      "pmalloc h n = (pheap_begin h + of_nat a * 4096, h\<lparr>ram := (ram h)(pheap_desc h + of_nat a := 1)\<rparr>)"
    using pmalloc_page [OF j] by blast
  let ?m = "(ram h)(pheap_desc h + of_nat a := 1)"
  have "in_range (pheap_desc h) 32 (pheap_desc h + of_nat a)"
    using a(1) by (simp add: in_range_def word_less_nat_alt unat_of_nat)
  then have same: "?m y = ram h y" if "\<not> in_range (pheap_desc h) 32 y" for y using that by auto
  have h: "holds (h\<lparr>ram := ?m\<rparr>) A" by (rule conjunct1 [OF holds_write [OF holds(1) holds_block [OF holds] same]])
  then have "heap_good (h\<lparr>ram := ?m\<rparr>)" by (simp add: holds_def)
  then have "heap_room (h\<lparr>ram := ?m\<rparr>) k" using room by (simp add: heap_room_def)
  moreover have "page_used (h\<lparr>ram := ?m\<rparr>) b = (b = a \<or> page_used h b)" if "b < 32" for b
    using that a(1) of_nat_inj32 [of b a] by (auto simp: page_used_def)
  ultimately show ?thesis using a h by (intro exI [of _ a] exI [of _ "h\<lparr>ram := ?m\<rparr>"]) simp
qed

lemma regs_only_same:
  assumes "regs_only s s'"
  shows "nmm s' = nmm s" "bufs s' = bufs s" "nlinks s' = nlinks s" "s_netFreeBufs s' = s_netFreeBufs s" "intfs s' = intfs s"
    "rxDescs (wire s') = rxDescs (wire s)" "txDescs (wire s') = txDescs (wire s)" "rxBufs (wire s') = rxBufs (wire s)"
    "txBufs (wire s') = txBufs (wire s)" "mmioAddr (wire s') = mmioAddr (wire s)" "rxRead (wire s') = rxRead (wire s)"
    "txWrite (wire s') = txWrite (wire s)" "intf (wire s') = intf (wire s)"
  using assms by (auto simp: regs_only_def)

text \<open>The part of \<open>eth_intel_init\<close> in front of the rings, up to the freed descriptors.\<close>

lemma enable_irqs_regs_only: "regs_only s (enable_irqs nic dev irq_addr i s)"
proof -
  obtain line tr where l: "pci_get_interrupt_line dev i (pci_ports (wire s)) = (line, tr)" by fastforce
  let ?s1 = "upd_dev (\<lambda>d. d\<lparr>pci_ports := tr, irq_routines := irq_setroutine (irq_routines d) line irq_addr\<rparr>) s"
  have "regs_only s ?s1" by (rule regs_only_ports [where f = "\<lambda>q. irq_setroutine q line irq_addr"])
  then show ?thesis
    unfolding enable_irqs_def l Let_def split_def fst_conv snd_conv
    by (intro regs_only_trans [OF regs_only_read] regs_only_trans [OF regs_only_write])
qed

definition init_front :: "nic \<Rightarrow> device \<Rightarrow> addr \<Rightarrow> uint32 \<Rightarrow> addr \<Rightarrow> enet \<Rightarrow> (EthAddr \<times> enet) option" where
  "init_front nic dev irq_addr i base s =
     (let tr = snd (pci_get_bar dev i 0 (pci_ports (wire s)));
          (cmd, tr2) = pci_read16 dev i PCI_CONFIG_COMMAND tr;
          s2 = enable_irqs nic dev irq_addr i (upd_dev (\<lambda>d. d\<lparr>mmioAddr := base, pci_ports := pci_write16 i PCI_CONFIG_COMMAND (cmd OR 4) tr2\<rparr>)
                 (upd_dev (\<lambda>d. d\<lparr>pci_ports := tr\<rparr>) s))
      in do {
        (ha, s3) \<leftarrow> read_mac nic base s2;
        let (ctrl, s4) = reg_read nic (base + REG_CTRL) s3;
        Some (ha, clear_mta base (reg_write (base + REG_CTRL) (ctrl OR CTRL_SLU) s4))
      })"

lemma init_front_regs_only:
  assumes "eeprom_answers nic base w"
  shows "\<exists>ha t. init_front nic dev irq_addr i base s = Some (ha, t) \<and> regs_only (upd_dev (\<lambda>d. d\<lparr>mmioAddr := base\<rparr>) s) t"
proof -
  obtain cmd tr2 where c: "pci_read16 dev i PCI_CONFIG_COMMAND (snd (pci_get_bar dev i 0 (pci_ports (wire s)))) = (cmd, tr2)" by fastforce
  let ?tr3 = "pci_write16 i PCI_CONFIG_COMMAND (cmd OR 4) tr2"
  let ?s0 = "upd_dev (\<lambda>d. d\<lparr>mmioAddr := base\<rparr>) s"
  let ?s1 = "upd_dev (\<lambda>d. d\<lparr>mmioAddr := base, pci_ports := ?tr3\<rparr>) (upd_dev (\<lambda>d. d\<lparr>pci_ports := snd (pci_get_bar dev i 0 (pci_ports (wire s)))\<rparr>) s)"
  have "regs_only ?s0 ?s1"
    by (rule regs_onlyI [where r = "regs (wire s)" and p = ?tr3 and q = "irq_routines (wire s)"]) (simp add: upd_dev_def)
  then have s2: "regs_only ?s0 (enable_irqs nic dev irq_addr i ?s1)" by (rule regs_only_trans [OF enable_irqs_regs_only])
  obtain ha s3 where m: "read_mac nic base (enable_irqs nic dev irq_addr i ?s1) = Some (ha, s3)"
    using read_mac_returns [OF assms] by blast
  have s3: "regs_only ?s0 s3" by (rule regs_only_trans [OF read_mac_regs_only [OF m] s2])
  show ?thesis
    unfolding init_front_def Let_def c
    by (auto simp: m split_def intro!: regs_only_trans [OF regs_only_mta] regs_only_trans [OF regs_only_write] regs_only_trans [OF regs_only_read] s3)
qed

definition init_rings :: "addr \<Rightarrow> addr \<Rightarrow> EthAddr \<Rightarrow> enet \<Rightarrow> enet option" where
  "init_rings base eth_name ha t =
     (let (rx, s8) = alloc_descs RX_DESC_COUNT t;
          (tx, s9) = alloc_descs TX_DESC_COUNT s8
      in do {
        s11 \<leftarrow> rx_setup rx 0 (upd_dev (\<lambda>d. d\<lparr>rxDescs := rx, txDescs := tx\<rparr>) s9);
        create_intf eth_name ha (tx_start base tx (tx_setup tx (rx_start base rx s11)))
      })"

lemma eth_intel_init_parts:
  assumes info: "pi_vendorId info = 0x8086" "pi_deviceId info = 0x100e"
    and bar: "fst (pci_get_bar dev i 0 (pci_ports (wire s))) = \<lparr>bar_u = Bar_address base, bar_size = sz, bar_flags = fl\<rparr>" "fl AND PCI_BAR_IO = 0"
    and nic: "eeprom_answers nic base w" and first: "rxDescs (wire s) = 0" "txDescs (wire s) = 0"
  shows "\<exists>ha t. regs_only (upd_dev (\<lambda>d. d\<lparr>mmioAddr := base\<rparr>) s) t \<and>
    eth_intel_init nic dev irq_addr eth_name i info s = init_rings base eth_name ha t"
proof -
  obtain ha t where t: "init_front nic dev irq_addr i base s = Some (ha, t)" "regs_only (upd_dev (\<lambda>d. d\<lparr>mmioAddr := base\<rparr>) s) t"
    using init_front_regs_only [OF nic] by blast
  have z: "rxDescs (wire t) = 0" "txDescs (wire t) = 0" using regs_only_same [OF t(2)] first by simp_all
  have b: "pci_get_bar dev i 0 (pci_ports (wire s)) = (\<lparr>bar_u = Bar_address base, bar_size = sz, bar_flags = fl\<rparr>, snd (pci_get_bar dev i 0 (pci_ports (wire s))))"
    using bar(1) by (simp add: prod_eq_iff)
  have "eth_intel_init nic dev irq_addr eth_name i info s = do {
      (ha, s5) \<leftarrow> init_front nic dev irq_addr i base s;
      let s7 = free_descs (txDescs (wire (free_descs (rxDescs (wire s5)) s5))) (free_descs (rxDescs (wire s5)) s5);
      init_rings base eth_name ha s7 }"
    unfolding eth_intel_init_def by (subst b) (simp add: info bar(2) init_front_def init_rings_def split_def Let_def bind_assoc)
  also have "\<dots> = init_rings base eth_name ha t" by (simp add: t(1) z free_descs_def)
  finally show ?thesis using t(2) by blast
qed

definition rx_writes :: "addr \<Rightarrow> addr \<Rightarrow> mmio_event list" where
  "rx_writes base rx = [MWrite (base + REG_RCTL) RCTL_FLAGS, MWrite (base + REG_RDT) 31, MWrite (base + REG_RDH) 0,
     MWrite (base + REG_RDLEN) 512, MWrite (base + REG_RDBAH) 0, MWrite (base + REG_RDBAL) rx]"

definition tx_writes :: "addr \<Rightarrow> addr \<Rightarrow> mmio_event list" where
  "tx_writes base tx = [MWrite (base + REG_TCTL) TCTL_FLAGS, MWrite (base + REG_TDT) 0, MWrite (base + REG_TDH) 0,
     MWrite (base + REG_TDLEN) 128, MWrite (base + REG_TDBAH) 0, MWrite (base + REG_TDBAL) tx]"

lemma rx_start_eq: "rx_start base rx s = upd_dev (\<lambda>d. d\<lparr>rxRead := 0, regs := rx_writes base rx @ regs d\<rparr>) s"
  by (simp add: rx_start_def rx_writes_def reg_write_def upd_dev_def RX_DESC_COUNT_def)

lemma tx_start_eq: "tx_start base tx s = upd_dev (\<lambda>d. d\<lparr>txWrite := 0, regs := tx_writes base tx @ regs d\<rparr>) s"
  by (simp add: tx_start_def tx_writes_def reg_write_def upd_dev_def TX_DESC_COUNT_def)

text \<open>The heap with two free pages behind it, as \<open>mm_init\<close> leaves it.\<close>

definition init_heap :: "mm_state \<Rightarrow> (addr \<times> uint32) list \<Rightarrow> bool" where
  "init_heap h A \<longleftrightarrow> holds h A \<and> (pheap_desc h, 32) \<in> set A \<and> heap_room h (2060 * 32 + 52) \<and> pages_ok h \<and>
     unat (heap_end h) \<le> unat (pheap_begin h) \<and> (\<exists>j k. j < 32 \<and> k < 32 \<and> j \<noteq> k \<and> \<not> page_used h j \<and> \<not> page_used h k)"

text \<open>The rings at \<open>rx\<close> and \<open>tx\<close> are set up.\<close>

definition rings_ready :: "enet \<Rightarrow> bool" where
  "rings_ready s \<longleftrightarrow> rxRead (wire s) = 0 \<and> txWrite (wire s) = 0 \<and>
     (\<forall>j < 32. rx_ready (nram s) (rxDescs (wire s) + of_nat (j * 16)) (rxBufs (wire s) j + 256)) \<and>
     (\<forall>j < 8. desc_done (txDescs (wire s) + of_nat (j * 16)) s)"

lemma init_rings_ok:
  assumes heap: "init_heap (nmm t) A" and none: "no_free_buf t"
  shows "\<exists>s'. init_rings base eth_name ha t = Some s' \<and> rings_ready s' \<and> mmioAddr (wire s') = mmioAddr (wire t) \<and>
    holds (nmm s') ((intf (wire s'), sizeof_NetIntf) # rx_blocks (wire s') 32 @ A) \<and>
    intfs s' (intf (wire s')) = \<lparr>if_ethAddr = ha, if_ipAddr = 0x7b02a8c0, if_broadcastAddr = 0, if_name = eth_name,
      if_poll = Some E1000_poll, if_send = Some Eth_send_intf, if_devSend = Some E1000_send\<rparr> \<and>
    (\<exists>r. regs (wire s') = tx_writes base (txDescs (wire s')) @ rx_writes base (rxDescs (wire s')) @ r)"
proof -
  let ?h = "nmm t"
  obtain j k where jk: "j < 32" "k < 32" "j \<noteq> k" "\<not> page_used ?h j" "\<not> page_used ?h k" using heap by (auto simp: init_heap_def)
  have h: "holds ?h A" "(pheap_desc ?h, 32) \<in> set A" "heap_room ?h (2060 * 32 + 52)" "pages_ok ?h" "unat (heap_end ?h) \<le> unat (pheap_begin ?h)"
    using heap by (auto simp: init_heap_def)
  obtain a h1 where a: "a < 32" "\<not> page_used ?h a" "pmalloc ?h 512 = (pheap_begin ?h + of_nat a * 4096, h1)"
      and h1: "holds h1 A" "heap_room h1 (2060 * 32 + 52)" "pheap_desc h1 = pheap_desc ?h" "pheap_begin h1 = pheap_begin ?h"
        "heap_end h1 = heap_end ?h" "heap_begin h1 = heap_begin ?h" "\<forall>b < 32. page_used h1 b = (b = a \<or> page_used ?h b)"
    using pmalloc_holds [OF h(1,2,3) jk(1,4), of 512] by blast
  obtain l where l: "l < 32" "\<not> page_used h1 l" using jk h1(7) by metis
  have desc1: "(pheap_desc h1, 32) \<in> set A" using h(2) h1(3) by simp
  obtain b h2 where b: "b < 32" "\<not> page_used h1 b" "pmalloc h1 128 = (pheap_begin h1 + of_nat b * 4096, h2)"
      and h2: "holds h2 A" "heap_room h2 (2060 * 32 + 52)" "heap_end h2 = heap_end h1" "heap_begin h2 = heap_begin h1"
    using pmalloc_holds [OF h1(1) desc1 h1(2) l, of 128] by blast
  have ab: "a \<noteq> b" using b h1(7) by auto
  let ?rx = "pheap_begin ?h + of_nat a * 4096" and ?tx = "pheap_begin ?h + of_nat b * 4096"
  have u: "unat ?rx = unat (pheap_begin ?h) + a * 4096" "unat ?tx = unat (pheap_begin ?h) + b * 4096"
    using page_addr [OF h(4)] a(1) b(1) by simp_all
  have top: "unat ?rx + 512 < 4294967296" "unat ?tx + 128 < 4294967296"
    using h(4) a(1) b(1) by (simp_all add: u pages_ok_def)
  let ?he = "unat (heap_end ?h)"
  define s10 where "s10 = upd_dev (\<lambda>d. d\<lparr>rxDescs := ?rx, txDescs := ?tx\<rparr>) (t\<lparr>nmm := h2\<rparr>)"
  have al: "init_rings base eth_name ha t = do {
      s11 \<leftarrow> rx_setup ?rx 0 s10;
      create_intf eth_name ha (tx_start base ?tx (tx_setup ?tx (rx_start base ?rx s11))) }"
    by (simp add: init_rings_def alloc_descs_def RX_DESC_COUNT_def TX_DESC_COUNT_def a(3) b(3) h1(4) s10_def upd_dev_def)
  have s10: "nmm s10 = h2" "no_free_buf s10" "heap_end (nmm s10) = heap_end ?h"
    using none h1 h2 by (simp_all add: s10_def upd_dev_def no_free_buf_def)
  have "rx_setup_inv A ?rx 52 s10 0 s10"
    using h2(1,2) s10(2) by (auto simp: rx_setup_inv_def rx_blocks_def s10(1) intro: exI [of _ "rxBufs (wire s10)"])
  then obtain s11 where s11: "rx_setup ?rx 0 s10 = Some s11" "rx_setup_inv A ?rx 52 s10 32 s11"
    using rx_setup_all [of A ?rx 52 s10 0 s10] h(5) top(1) s10(3) u(1) by auto
  have i: "holds (nmm s11) (rx_blocks (wire s11) 32 @ A)" "heap_room (nmm s11) 52" "heap_end (nmm s11) = heap_end ?h"
      "\<And>j. j < 32 \<Longrightarrow> rx_ready (nram s11) (?rx + of_nat (j * 16)) (rxBufs (wire s11) j + 256)"
      "\<exists>f. wire s11 = (wire s10)\<lparr>rxBufs := f\<rparr>"
    using s11(2) s10(3) by (auto simp: rx_setup_inv_def)
  define s12 where "s12 = rx_start base ?rx s11"
  obtain m where m: "tx_setup ?tx s12 = set_nram m s12" "\<forall>j < 8. m (?tx + of_nat (j * 16) + 12) = 1"
      "\<And>y. \<not> (unat ?tx \<le> unat y \<and> unat y < unat ?tx + 128) \<Longrightarrow> m y = nram s12 y"
    using tx_setup_writes [OF top(2), of s12] by blast
  have n12: "nram s12 = nram s11" "nmm s12 = nmm s11" by (simp_all add: s12_def rx_start_eq)
  define s13 where "s13 = tx_start base ?tx (set_nram m s12)"
  have n13: "nmm s13 = (nmm s11)\<lparr>ram := m\<rparr>" by (simp add: s13_def tx_start_eq set_nram_def n12)
  have low: "m y = ram (nmm s11) y" if "unat y < unat (heap_end (nmm s11))" for y
    using m(3) [of y] that i(3) h(5) u(2) n12 by (simp add: nram_def)
  have h13: "holds (nmm s13) (rx_blocks (wire s11) 32 @ A)" "heap_room (nmm s13) (52 + 0)"
    using holds_write_above [OF i(1,2) low] by (simp_all add: n13)
  obtain p s' where s': "create_intf eth_name ha s13 = Some s'" "wire s' = (wire s13)\<lparr>intf := p\<rparr>"
      "holds (nmm s') ((p, sizeof_NetIntf) # rx_blocks (wire s11) 32 @ A)"
      "intfs s' p = \<lparr>if_ethAddr = ha, if_ipAddr = 0x7b02a8c0, if_broadcastAddr = 0, if_name = eth_name,
        if_poll = Some E1000_poll, if_send = Some Eth_send_intf, if_devSend = Some E1000_send\<rparr>"
      "\<And>y. unat (heap_end (nmm s13)) \<le> unat y \<Longrightarrow> nram s' y = nram s13 y"
    using create_intf_ok [OF h13] by blast
  have w': "rxBufs (wire s') = rxBufs (wire s11)" "rxDescs (wire s') = ?rx" "txDescs (wire s') = ?tx" "rxRead (wire s') = 0"
      "txWrite (wire s') = 0" "intf (wire s') = p" "mmioAddr (wire s') = mmioAddr (wire t)"
      "regs (wire s') = tx_writes base ?tx @ rx_writes base ?rx @ regs (wire s11)"
    using i(5) by (auto simp: s'(2) s13_def s12_def tx_start_eq rx_start_eq s10_def)
  have above: "nram s' y = m y" if "?he \<le> unat y" for y
    using s'(5) [of y] that i(3) n13 by (simp add: nram_def)
  have "rx_ready (nram s') (?rx + of_nat (q * 16)) (rxBufs (wire s') q + 256)" if q: "q < 32" for q
  proof -
    have dn: "unat ?rx + 16 * 32 < 4294967296" using top(1) by simp
    have "nram s' y = nram s11 y" if "in_range (?rx + of_nat (q * 16)) 16 y" for y
    proof -
      have y: "unat ?rx \<le> unat y" "unat y < unat ?rx + 512" using that in_desc [OF dn q, of y] q by auto
      have "a < b \<or> b < a" using ab by auto
      then have "\<not> (unat ?tx \<le> unat y \<and> unat y < unat ?tx + 128)"
      proof
        assume "a < b"
        then have "a * 4096 + 4096 \<le> b * 4096" by simp
        then show ?thesis using y u by linarith
      next
        assume "b < a"
        then have "b * 4096 + 4096 \<le> a * 4096" by simp
        then show ?thesis using y u by linarith
      qed
      moreover have "?he \<le> unat y" using y u h(5) by linarith
      ultimately show ?thesis using above [of y] m(3) [of y] n12 by simp
    qed
    from rx_ready_cong [OF this] i(4) [OF q] show ?thesis by (simp add: w'(1))
  qed
  moreover have "desc_done (?tx + of_nat (q * 16)) s'" if q: "q < 8" for q
  proof -
    have dn: "unat ?tx + 16 * 8 < 4294967296" using top(2) by simp
    have "unat (?tx + of_nat (q * 16) + 12) = unat ?tx + 16 * q + 12"
      using desc_address [OF dn q] top(2) q by (simp add: unat_add_small)
    then have "?he \<le> unat (?tx + of_nat (q * 16) + 12)" using u(2) h(5) by linarith
    from above [OF this] m(2) q show ?thesis by (simp add: desc_done_def DESC_STATUS_def)
  qed
  ultimately have "rings_ready s'" by (simp add: rings_ready_def w')
  moreover have "init_rings base eth_name ha t = Some s'"
    unfolding al s11(1) by (simp add: s12_def [symmetric] m(1) s13_def [symmetric] s'(1))
  moreover have "rx_blocks (wire s') 32 = rx_blocks (wire s11) 32" by (simp add: rx_blocks_def w'(1))
  ultimately show ?thesis using s'(3,4) w' by (intro exI [of _ s']) simp
qed

section \<open>The initialisation\<close>

text \<open>
  C37. With a supported card whose registers are in memory, after \<open>mm_init\<close> and with room for the
  buffers, the first call of \<open>eth_intel_init\<close> returns: the 32 descriptors for receiving wait for packets, each in
  a buffer of its own, which are different live blocks of the heap; the 8 descriptors for sending are
  free; the card was told the addresses and the sizes of both rings and was switched on last; and the
  interface with the functions of the driver is in a new block. Blocks of others stay theirs.
\<close>

theorem eth_intel_init_sets_up:
  assumes info: "pi_vendorId info = 0x8086" "pi_deviceId info = 0x100e"
    and bar: "fst (pci_get_bar dev i 0 (pci_ports (wire s))) = \<lparr>bar_u = Bar_address base, bar_size = sz, bar_flags = fl\<rparr>" "fl AND PCI_BAR_IO = 0"
    and nic: "eeprom_answers nic base w" and first: "rxDescs (wire s) = 0" "txDescs (wire s) = 0"
    and heap: "init_heap (nmm s) A" "no_free_buf s"
  shows "\<exists>s' ha. eth_intel_init nic dev irq_addr eth_name i info s = Some s' \<and> rings_ready s' \<and> mmioAddr (wire s') = base \<and>
    holds (nmm s') ((intf (wire s'), sizeof_NetIntf) # rx_blocks (wire s') 32 @ A) \<and>
    intfs s' (intf (wire s')) = \<lparr>if_ethAddr = ha, if_ipAddr = 0x7b02a8c0, if_broadcastAddr = 0, if_name = eth_name,
      if_poll = Some E1000_poll, if_send = Some Eth_send_intf, if_devSend = Some E1000_send\<rparr> \<and>
    (\<exists>r. regs (wire s') = tx_writes base (txDescs (wire s')) @ rx_writes base (rxDescs (wire s')) @ r)"
proof -
  obtain ha t where t: "regs_only (upd_dev (\<lambda>d. d\<lparr>mmioAddr := base\<rparr>) s) t"
      "eth_intel_init nic dev irq_addr eth_name i info s = init_rings base eth_name ha t"
    using eth_intel_init_parts [OF info bar nic first] by blast
  note r = regs_only_same [OF t(1)]
  have "init_heap (nmm t) A" "no_free_buf t" using heap r by (simp_all add: no_free_buf_def upd_dev_def)
  from init_rings_ok [OF this, of base eth_name ha] show ?thesis
    unfolding t(2) using r(10) by auto
qed

lemma sample_init_heap: "\<exists>h. init_heap h [(pheap_desc h, 32)] \<and> heap_begin h = 0x200000"
proof -
  have sz: "size_ok 32" by (simp add: size_ok_def)
  obtain h where h: "malloc_new sample_heap 32 = (Ret 0x200008, h)" "heap_ok h [(1, 32)]" "heap_begin h = 0x200000"
      "zeroed (ram h) 0x200008 32"
    using malloc_new_ok [OF sample_heap_ok sz] by (simp add: sample_heap_def) blast
  then have f: "last_alloc h = 0x20002C" "heap_end h = 0x3E0000" "pheap_begin h = 0x3E0000" "pheap_end h = 0x400000"
    by (auto simp: malloc_new_def sample_heap_def Let_def)
  let ?h = "h\<lparr>pheap_desc := 0x200008\<rparr>"
  have ok: "heap_ok ?h [(1, 32)]" using h f by (simp add: heap_ok_def heap_inv_def)
  have live: "(0x200008, 32) \<in> heap_live ?h" unfolding heap_live_eq [OF ok] live_of_def using h by auto
  have good: "heap_good ?h" using ok by (auto simp: heap_good_def)
  have "holds ?h [(0x200008, 32)]" using live good by (auto simp: holds_def)
  moreover have "heap_room ?h (2060 * 32 + 52)" using good f by (simp add: heap_room_def)
  moreover have "\<not> page_used ?h 0" "\<not> page_used ?h 1"
    using h(4) by (simp_all add: page_used_def zeroed_def in_range_def)
  then have "\<exists>j k. j < 32 \<and> k < 32 \<and> j \<noteq> k \<and> \<not> page_used ?h j \<and> \<not> page_used ?h k"
    by (intro exI [of _ 0] exI [of _ 1]) simp
  ultimately have "init_heap ?h [(0x200008, 32)]" using f by (simp add: init_heap_def pages_ok_def)
  then show ?thesis using h(3) by (intro exI [of _ ?h]) simp
qed

theorem eth_intel_init_sets_up_witness:
  "\<exists>s s'. eth_intel_init sample_nic bar_device 0x101000 0x102000 0
      \<lparr>pi_vendorId = 0x8086, pi_deviceId = 0x100e, pi_classCode = 2, pi_subclass = 0, pi_progIntf = 0\<rparr> s = Some s' \<and>
    rings_ready s' \<and> mmioAddr (wire s') = 0xFEBC0000"
proof -
  obtain h where h: "init_heap h [(pheap_desc h, 32)]" "heap_begin h = 0x200000" using sample_init_heap by blast
  let ?s = "sample_enet\<lparr>nmm := h, wire := sample_card\<lparr>rxDescs := 0, txDescs := 0\<rparr>\<rparr>"
  have p: "pci_ports (wire ?s) = []" by (simp add: sample_card_def)
  have n: "no_free_buf ?s"
    by (simp add: no_free_buf_def sample_enet_def h(2) link_list_is_empty_def sample_net_def link_init_def set_lnk_next_def set_lnk_prev_def)
  show ?thesis
    using eth_intel_init_sets_up [where s = ?s and i = 0 and dev = bar_device and nic = sample_nic and base = "0xFEBC0000"
        and info = "\<lparr>pi_vendorId = 0x8086, pi_deviceId = 0x100e, pi_classCode = 2, pi_subclass = 0, pi_progIntf = 0\<rparr>",
        OF _ _ _ _ sample_nic_answers] pci_bar_size_wrong h(1) n
    unfolding p by fastforce
qed

end
