(* ===== verification/Vga.thy ===== *)
theory Vga
  imports Ports Mem_Utils
begin

text \<open>
  The graphics mode, \<open>src/vga.c\<close>: the table of register values, the sequence that programs the
  card, and the clearing of the screen. \<open>dev\<close> answers the reads. The call of \<open>_kill\<close> that ends
  \<open>vga_init\<close> is left to its caller.
\<close>

section \<open>The code\<close>

definition VGA_AC_INDEX :: uint16 where "VGA_AC_INDEX = 0x3C0"
definition VGA_AC_WRITE :: uint16 where "VGA_AC_WRITE = 0x3C0"
definition VGA_MISC_WRITE :: uint16 where "VGA_MISC_WRITE = 0x3C2"
definition VGA_SEQ_INDEX :: uint16 where "VGA_SEQ_INDEX = 0x3C4"
definition VGA_SEQ_DATA :: uint16 where "VGA_SEQ_DATA = 0x3C5"
definition VGA_GC_INDEX :: uint16 where "VGA_GC_INDEX = 0x3CE"
definition VGA_GC_DATA :: uint16 where "VGA_GC_DATA = 0x3CF"
definition VGA_CRTC_INDEX :: uint16 where "VGA_CRTC_INDEX = 0x3D4"
definition VGA_CRTC_DATA :: uint16 where "VGA_CRTC_DATA = 0x3D5"
definition VGA_INSTAT_READ :: uint16 where "VGA_INSTAT_READ = 0x3DA"
definition VGA_NUM_SEQ_REGS :: nat where "VGA_NUM_SEQ_REGS = 5"
definition VGA_NUM_CRTC_REGS :: nat where "VGA_NUM_CRTC_REGS = 25"
definition VGA_NUM_GC_REGS :: nat where "VGA_NUM_GC_REGS = 9"
definition VGA_NUM_AC_REGS :: nat where "VGA_NUM_AC_REGS = 21"

lemmas vga_ports = VGA_AC_INDEX_def VGA_AC_WRITE_def VGA_MISC_WRITE_def VGA_SEQ_INDEX_def VGA_SEQ_DATA_def
  VGA_GC_INDEX_def VGA_GC_DATA_def VGA_CRTC_INDEX_def VGA_CRTC_DATA_def VGA_INSTAT_READ_def

lemmas vga_counts = VGA_NUM_SEQ_REGS_def VGA_NUM_CRTC_REGS_def VGA_NUM_GC_REGS_def VGA_NUM_AC_REGS_def

record vga_state =
  VGA_width :: uint32
  VGA_height :: uint32
  VGA_bpp :: uint32
  VGA_address :: addr

definition mode_320_200_256 :: "uint8 list" where
  "mode_320_200_256 =
    [0x63,
     0x03, 0x01, 0x0F, 0x00, 0x0E,
     0x5F, 0x4F, 0x50, 0x82, 0x54, 0x80, 0xBF, 0x1F,
     0x00, 0x41, 0x00, 0x00, 0x00, 0x00, 0x00, 0x00,
     0x9C, 0x0E, 0x8F, 0x28, 0x40, 0x96, 0xB9, 0xA3,
     0xFF,
     0x00, 0x00, 0x00, 0x00, 0x00, 0x40, 0x05, 0x0F,
     0xFF,
     0x00, 0x01, 0x02, 0x03, 0x04, 0x05, 0x06, 0x07,
     0x08, 0x09, 0x0A, 0x0B, 0x0C, 0x0D, 0x0E, 0x0F,
     0x41, 0x00, 0x0F, 0x00, 0x00]"

text \<open>
  The loop over a group of registers, from the index \<open>i\<close>; \<open>regs\<close> is the rest of the table. For the
  attribute controller a read of the status comes first.
\<close>

fun write_group :: "uint16 \<Rightarrow> uint16 \<Rightarrow> uint8 \<Rightarrow> uint8 list \<Rightarrow> trace \<Rightarrow> trace" where
  "write_group index data i [] tr = tr"
| "write_group index data i (r # rs) tr = write_group index data (i + 1) rs (outportb data r (outportb index i tr))"

fun write_attributes :: "device \<Rightarrow> uint8 \<Rightarrow> uint8 list \<Rightarrow> trace \<Rightarrow> trace" where
  "write_attributes dev i [] tr = tr"
| "write_attributes dev i (r # rs) tr =
     write_attributes dev (i + 1) rs (outportb VGA_AC_WRITE r (outportb VGA_AC_INDEX i (snd (inportb dev VGA_INSTAT_READ tr))))"

text \<open>One of the two steps that unlock the CRTC: \<open>f\<close> changes the bit.\<close>

definition crtc_change :: "device \<Rightarrow> uint8 \<Rightarrow> (uint8 \<Rightarrow> uint8) \<Rightarrow> trace \<Rightarrow> trace" where
  "crtc_change dev i f tr =
     (let (v, t1) = inportb dev VGA_CRTC_DATA (outportb VGA_CRTC_INDEX i tr) in outportb VGA_CRTC_DATA (f v) t1)"

text \<open>The table is changed on the way; \<open>write_registers\<close> returns it with the trace.\<close>

definition write_registers :: "device \<Rightarrow> uint8 list \<Rightarrow> trace \<Rightarrow> uint8 list \<times> trace" where
  "write_registers dev regs tr =
     (let crtc0 = 1 + VGA_NUM_SEQ_REGS;
          t1 = outportb VGA_MISC_WRITE (regs ! 0) tr;
          t2 = write_group VGA_SEQ_INDEX VGA_SEQ_DATA 0 (take VGA_NUM_SEQ_REGS (drop 1 regs)) t1;
          t3 = crtc_change dev 0x03 (\<lambda>v. v OR 0x80) t2;
          t4 = crtc_change dev 0x11 (\<lambda>v. v AND NOT 0x80) t3;
          r1 = regs[crtc0 + 0x03 := regs ! (crtc0 + 0x03) OR 0x80];
          r2 = r1[crtc0 + 0x11 := r1 ! (crtc0 + 0x11) AND NOT 0x80];
          t5 = write_group VGA_CRTC_INDEX VGA_CRTC_DATA 0 (take VGA_NUM_CRTC_REGS (drop crtc0 r2)) t4;
          gc0 = crtc0 + VGA_NUM_CRTC_REGS;
          t6 = write_group VGA_GC_INDEX VGA_GC_DATA 0 (take VGA_NUM_GC_REGS (drop gc0 r2)) t5;
          ac0 = gc0 + VGA_NUM_GC_REGS;
          t7 = write_attributes dev 0 (take VGA_NUM_AC_REGS (drop ac0 r2)) t6
      in (r2, outportb VGA_AC_INDEX 0x20 (snd (inportb dev VGA_INSTAT_READ t7))))"

text \<open>The two loops of \<open>VGA_clear_screen\<close>; \<open>n\<close> counts what is left of a row and of the rows.\<close>

fun clear_line :: "addr \<Rightarrow> uint32 \<Rightarrow> nat \<Rightarrow> mem \<Rightarrow> mem" where
  "clear_line a x 0 m = m"
| "clear_line a x (Suc n) m = clear_line a (x + 1) n (m(a + x := 0x0f))"

fun clear_lines :: "vga_state \<Rightarrow> uint32 \<Rightarrow> nat \<Rightarrow> mem \<Rightarrow> mem" where
  "clear_lines v y 0 m = m"
| "clear_lines v y (Suc n) m =
     clear_lines v (y + 1) n (clear_line (VGA_address v + VGA_width v * y) 0 (unat (VGA_width v)) m)"

definition VGA_clear_screen :: "vga_state \<Rightarrow> mem \<Rightarrow> mem" where
  "VGA_clear_screen v m = clear_lines v 0 (unat (VGA_height v)) m"

definition vga_init :: "device \<Rightarrow> uint8 list \<Rightarrow> trace \<times> mem \<Rightarrow> vga_state \<times> uint8 list \<times> trace \<times> mem" where
  "vga_init dev regs s =
     (let v = \<lparr>VGA_width = 320, VGA_height = 200, VGA_bpp = 256, VGA_address = 0xA0000\<rparr>;
          (regs', tr) = write_registers dev regs (fst s)
      in (v, regs', tr, VGA_clear_screen v (snd s)))"

section \<open>What the card gets\<close>

text \<open>
  The registers behind an index and a data port: replaying the accesses, the index last written and
  the values of the registers.
\<close>

fun replay :: "uint16 \<Rightarrow> uint16 \<Rightarrow> io_event list \<Rightarrow> uint8 \<times> (uint8 \<Rightarrow> uint8 option)" where
  "replay index data [] = (0, \<lambda>_. None)"
| "replay index data (e # tr) = (let (i, f) = replay index data tr in case e of
     OutB p v \<Rightarrow> if p = index then (v, f) else if p = data then (i, f(i \<mapsto> v)) else (i, f)
   | _ \<Rightarrow> (i, f))"

text \<open>The values \<open>rs\<close> of the registers from \<open>i\<close> on.\<close>

fun put_regs :: "uint8 \<Rightarrow> uint8 list \<Rightarrow> (uint8 \<Rightarrow> uint8 option) \<Rightarrow> uint8 \<Rightarrow> uint8 option" where
  "put_regs i [] f = f"
| "put_regs i (r # rs) f = put_regs (i + 1) rs (f(i \<mapsto> r))"

lemma replay_group:
  "index \<noteq> data \<Longrightarrow> snd (replay index data (write_group index data i rs tr)) = put_regs i rs (snd (replay index data tr))"
  by (induction index data i rs tr rule: write_group.induct) (simp_all add: outportb_def split_def Let_def)

lemma replay_other_group:
  "{p, q} \<inter> {index, data} = {} \<Longrightarrow> replay index data (write_group p q i rs tr) = replay index data tr"
  by (induction p q i rs tr rule: write_group.induct) (auto simp: outportb_def split_def Let_def)

lemma replay_attributes:
  "VGA_AC_INDEX \<notin> {index, data} \<Longrightarrow> replay index data (write_attributes dev i rs tr) = replay index data tr"
  by (induction dev i rs tr rule: write_attributes.induct)
    (auto simp: outportb_def inportb_def split_def Let_def VGA_AC_WRITE_def VGA_AC_INDEX_def)

lemma put_regs_apply:
  "length rs \<le> 255 \<Longrightarrow> put_regs i rs f x = (if unat (x - i) < length rs then Some (rs ! unat (x - i)) else f x)"
proof (induction i rs f rule: put_regs.induct)
  case (2 i r rs f)
  show ?case
  proof (cases "x = i")
    case True
    have "unat (i - (i + 1) :: uint8) = 255" by (simp add: unsigned_minus_1_eq_mask mask_eq_exp_minus_1)
    with 2 True show ?thesis by (simp add: fun_upd_def)
  next
    case False
    then have "unat (x - i) \<noteq> 0" by (simp add: unat_eq_0)
    then have "unat (x - (i + 1)) = unat (x - i) - 1" by (metis diff_diff_eq unat_eq_0 unat_minus_one)
    with 2 False \<open>unat (x - i) \<noteq> 0\<close> show ?thesis by (auto simp: fun_upd_def)
  qed
qed simp

lemma put_regs_nat:
  "length rs \<le> 255 \<Longrightarrow> i < length rs \<Longrightarrow> put_regs 0 rs f (of_nat i) = Some (rs ! i)"
  by (simp add: put_regs_apply unat_of_nat)

text \<open>
  The attribute controller has one port for both: a write is an index and a value in turn, and a
  read of the status makes the next write an index.
\<close>

fun replay_ac :: "io_event list \<Rightarrow> bool \<times> uint8 \<times> (uint8 \<Rightarrow> uint8 option)" where
  "replay_ac [] = (False, 0, \<lambda>_. None)"
| "replay_ac (e # tr) = (let (value, i, f) = replay_ac tr in case e of
     OutB p v \<Rightarrow> if p \<noteq> VGA_AC_INDEX then (value, i, f) else if value then (False, i, f(i \<mapsto> v)) else (True, v, f)
   | InB p v \<Rightarrow> if p = VGA_INSTAT_READ then (False, i, f) else (value, i, f)
   | _ \<Rightarrow> (value, i, f))"

definition attributes :: "io_event list \<Rightarrow> uint8 \<Rightarrow> uint8 option" where
  "attributes tr = snd (snd (replay_ac tr))"

lemma attributes_group: "attributes (write_attributes dev i rs tr) = put_regs i rs (attributes tr)"
  by (induction dev i rs tr rule: write_attributes.induct)
    (simp_all add: attributes_def outportb_def inportb_def split_def Let_def VGA_AC_WRITE_def VGA_AC_INDEX_def fun_upd_def)

lemma replay_crtc_change:
  assumes "{index, data} \<inter> {VGA_CRTC_INDEX, VGA_CRTC_DATA} = {}"
  shows "replay index data (crtc_change dev i f tr) = replay index data tr"
  using assms by (auto simp: crtc_change_def outportb_def inportb_def split_def Let_def)

text \<open>
  Programming the card from a table of 61 values: whatever it had before and whatever the card
  answers, in the end each register of the four groups has its value of the table, of those
  of the CRTC the lock bits changed, and the CRTC is unlocked while they are written.
\<close>

theorem write_registers_programs:
  assumes len: "length regs = 61" and w: "write_registers dev regs tr = (regs', tr')"
  shows "regs' = regs[9 := regs ! 9 OR 0x80, 23 := regs ! 23 AND NOT 0x80] \<and>
    (\<forall>i < 5. snd (replay VGA_SEQ_INDEX VGA_SEQ_DATA tr') (of_nat i) = Some (regs' ! (1 + i))) \<and>
    (\<forall>i < 25. snd (replay VGA_CRTC_INDEX VGA_CRTC_DATA tr') (of_nat i) = Some (regs' ! (6 + i))) \<and>
    (\<forall>i < 9. snd (replay VGA_GC_INDEX VGA_GC_DATA tr') (of_nat i) = Some (regs' ! (31 + i))) \<and>
    (\<forall>i < 21. attributes tr' (of_nat i) = Some (regs' ! (40 + i)))"
proof -
  let ?r = "regs[9 := regs ! 9 OR 0x80, 23 := regs ! 23 AND NOT 0x80]"
  define t1 where "t1 = outportb VGA_MISC_WRITE (regs ! 0) tr"
  define t2 where "t2 = write_group VGA_SEQ_INDEX VGA_SEQ_DATA 0 (take 5 (drop 1 regs)) t1"
  define t4 where "t4 = crtc_change dev 0x11 (\<lambda>v. v AND NOT 0x80) (crtc_change dev 0x03 (\<lambda>v. v OR 0x80) t2)"
  define t5 where "t5 = write_group VGA_CRTC_INDEX VGA_CRTC_DATA 0 (take 25 (drop 6 ?r)) t4"
  define t6 where "t6 = write_group VGA_GC_INDEX VGA_GC_DATA 0 (take 9 (drop 31 ?r)) t5"
  define t7 where "t7 = write_attributes dev 0 (take 21 (drop 40 ?r)) t6"
  have w': "regs' = ?r" "tr' = outportb VGA_AC_INDEX 0x20 (snd (inportb dev VGA_INSTAT_READ t7))"
  proof -
    have "write_registers dev regs tr = (?r, outportb VGA_AC_INDEX 0x20 (snd (inportb dev VGA_INSTAT_READ t7)))"
      by (simp add: write_registers_def vga_counts Let_def t1_def t2_def t4_def t5_def t6_def t7_def)
    with w show "regs' = ?r" "tr' = outportb VGA_AC_INDEX 0x20 (snd (inportb dev VGA_INSTAT_READ t7))" by simp_all
  qed
  have last: "replay a b tr' = replay a b t7" if "a \<noteq> VGA_AC_INDEX" "b \<noteq> VGA_AC_INDEX" for a b
    using that by (simp add: w'(2) outportb_def inportb_def split_def Let_def)
  have lastA: "attributes tr' = attributes t7"
    by (simp add: w'(2) attributes_def outportb_def inportb_def split_def Let_def)
  note others = replay_other_group replay_attributes replay_crtc_change
  have S: "snd (replay VGA_SEQ_INDEX VGA_SEQ_DATA tr') = put_regs 0 (take 5 (drop 1 regs)) (snd (replay VGA_SEQ_INDEX VGA_SEQ_DATA t1))"
    by (simp add: last t7_def t6_def t5_def t4_def t2_def others replay_group vga_ports)
  have C: "snd (replay VGA_CRTC_INDEX VGA_CRTC_DATA tr') = put_regs 0 (take 25 (drop 6 ?r)) (snd (replay VGA_CRTC_INDEX VGA_CRTC_DATA t4))"
    by (simp add: last t7_def t6_def t5_def others replay_group vga_ports)
  have G: "snd (replay VGA_GC_INDEX VGA_GC_DATA tr') = put_regs 0 (take 9 (drop 31 ?r)) (snd (replay VGA_GC_INDEX VGA_GC_DATA t5))"
    by (simp add: last t7_def t6_def others replay_group vga_ports)
  have A: "attributes tr' = put_regs 0 (take 21 (drop 40 ?r)) (attributes t6)"
    by (simp add: lastA t7_def attributes_group)
  have "snd (replay VGA_SEQ_INDEX VGA_SEQ_DATA tr') (of_nat i) = Some (regs' ! (1 + i))" if "i < 5" for i
    unfolding S using that len by (simp add: put_regs_nat w'(1))
  moreover have "snd (replay VGA_CRTC_INDEX VGA_CRTC_DATA tr') (of_nat i) = Some (regs' ! (6 + i))" if "i < 25" for i
    unfolding C using that len by (simp add: put_regs_nat w'(1))
  moreover have "snd (replay VGA_GC_INDEX VGA_GC_DATA tr') (of_nat i) = Some (regs' ! (31 + i))" if "i < 9" for i
    unfolding G using that len by (simp add: put_regs_nat w'(1))
  moreover have "attributes tr' (of_nat i) = Some (regs' ! (40 + i))" if "i < 21" for i
    unfolding A using that len by (simp add: put_regs_nat w'(1))
  ultimately show ?thesis using w'(1) by blast
qed

theorem write_registers_programs_witness:
  "snd (replay VGA_CRTC_INDEX VGA_CRTC_DATA (snd (write_registers (\<lambda>_ _. 0xFF) mode_320_200_256 []))) 0x11 = Some 0x0E"
proof -
  obtain regs' tr' where w: "write_registers (\<lambda>_ _. 0xFF) mode_320_200_256 [] = (regs', tr')" by fastforce
  have "length mode_320_200_256 = 61" by (simp add: mode_320_200_256_def)
  from write_registers_programs [OF this w] have
    r: "regs' = mode_320_200_256[9 := mode_320_200_256 ! 9 OR 0x80, 23 := mode_320_200_256 ! 23 AND NOT 0x80]"
    "\<forall>i < 25. snd (replay VGA_CRTC_INDEX VGA_CRTC_DATA tr') (of_nat i) = Some (regs' ! (6 + i))" by blast+
  have "mode_320_200_256[9 := mode_320_200_256 ! 9 OR 0x80, 23 := mode_320_200_256 ! 23 AND NOT 0x80] ! 23 = 0x0E"
    by (simp add: mode_320_200_256_def)
  then show ?thesis using r(2) [rule_format, of 17] by (simp add: w r(1))
qed

section \<open>The screen\<close>

lemma clear_line_memset: "clear_line a x n m = memset_loop n m (a + x) 0x0f"
  by (induction a x n m rule: clear_line.induct) (simp_all add: add.assoc del: fun_upd_apply)

lemma memset_loop_add: "memset_loop (a + b) m p v = memset_loop b (memset_loop a m p v) (p + of_nat a) v"
  by (induction a m p v rule: memset_loop.induct) (simp_all add: ac_simps del: fun_upd_apply)

lemma clear_lines_memset:
  "clear_lines v y n m = memset_loop (n * unat (VGA_width v)) m (VGA_address v + VGA_width v * y) 0x0f"
proof (induction v y n m rule: clear_lines.induct)
  case (2 v y n m)
  have "VGA_address v + VGA_width v * (y + 1) = VGA_address v + VGA_width v * y + of_nat (unat (VGA_width v))"
    by (simp add: distrib_left)
  then show ?case using 2 by (simp add: clear_line_memset memset_loop_add add.assoc del: of_nat_unat)
qed simp

text \<open>
  \<open>VGA_clear_screen\<close> sets the \<open>width * height\<close> bytes from the address of the screen on to the
  background colour and touches nothing else; after \<open>vga_init\<close> these are the 64000 bytes from 0xA0000.
\<close>

theorem vga_clear_screen_fills:
  assumes "unat (VGA_width v) * unat (VGA_height v) < 2 ^ 32"
  shows "VGA_clear_screen v m x = (if in_range (VGA_address v) (VGA_width v * VGA_height v) x then 0x0f else m x) \<and>
    (case vga_init dev regs (tr, m) of (v', regs', tr', m') \<Rightarrow>
       m' x = (if in_range 0xA0000 64000 x then 0x0f else m x) \<and> (regs', tr') = write_registers dev regs tr)"
proof -
  have c: "VGA_clear_screen v m x = (if in_range (VGA_address v) (VGA_width v * VGA_height v) x then 0x0f else m x)"
    if "unat (VGA_width v) * unat (VGA_height v) < 2 ^ 32" for v
    using that unat_mult_lem [of "VGA_width v" "VGA_height v"]
    by (simp add: VGA_clear_screen_def clear_lines_memset memset_loop_apply in_range_def word_less_nat_alt mult.commute)
  show ?thesis
    using c [OF assms] c [of "\<lparr>VGA_width = 320, VGA_height = 200, VGA_bpp = 256, VGA_address = 0xA0000\<rparr>"]
    by (simp add: vga_init_def split_def Let_def)
qed

theorem vga_clear_screen_fills_witness:
  "VGA_clear_screen \<lparr>VGA_width = 320, VGA_height = 200, VGA_bpp = 256, VGA_address = 0xA0000\<rparr> (\<lambda>_. 0) 0xAF9FF = 0x0f"
  using vga_clear_screen_fills [of "\<lparr>VGA_width = 320, VGA_height = 200, VGA_bpp = 256, VGA_address = 0xA0000\<rparr>" "\<lambda>_. 0" "0xAF9FF"]
  by (simp add: in_range_def)

end
