(* ===== verification/Late_Init.thy ===== *)
theory Late_Init
  imports Scheduling
begin

text \<open>
  What processes do besides being switched: the small questions and the signals of
  \<open>src/tasking.c\<close>, sleeping, the whole loop of the reaper, waiting for another process with the
  macro \<open>START_AND_WAIT\<close> of \<open>src/include/tasking.h\<close>, and \<open>late_init\<close> of \<open>src/kernel.c\<close>, which the
  idle process runs. \<open>others\<close> is what happens between a call of \<open>schedule_noirq\<close> and its return: the other
  processes run and the timer ticks.
\<close>

section \<open>Questions and signals\<close>

definition p_proc :: "task_state \<Rightarrow> addr" where "p_proc s = cur s"

definition p_name_of_cur :: "task_state \<Rightarrow> addr" where "p_name_of_cur s = p_name (procs s (cur s))"

definition is_tasking :: "task_state \<Rightarrow> bool" where "is_tasking s = tasking_on s"

text \<open>The handler of a signal is \<open>__notified\<close> at \<open>notified\<close>; a call of anything else has no result.\<close>

definition send_sig :: "(cpu \<Rightarrow> uint32 list) \<Rightarrow> uint32 \<Rightarrow> int \<Rightarrow> task_state \<Rightarrow> (unit outcome \<times> task_state) option" where
  "send_sig pro notified sig s =
     (if p_notify (procs s (cur s)) = notified then Some (notified_sig pro sig s) else None)"

definition task1 :: "(cpu \<Rightarrow> uint32 list) \<Rightarrow> task_state \<Rightarrow> unit outcome \<times> task_state" where
  "task1 pro s = kill_current pro s"

text \<open>
  An exception while processes run: the part of \<open>isr_handler\<close> that sends a signal, or returns to the
  instruction that failed.
\<close>

definition exception :: "(cpu \<Rightarrow> uint32 list) \<Rightarrow> uint32 \<Rightarrow> uint32 \<Rightarrow> task_state \<Rightarrow> (unit outcome \<times> task_state) option" where
  "exception pro notified int_no s =
     (case isr_handler (is_tasking s) int_no of
        Signal sig \<Rightarrow> send_sig pro notified sig s
      | Ignored \<Rightarrow> Some (Ret (), s)
      | Reported msg fault \<Rightarrow> None)"

section \<open>Sleeping\<close>

text \<open>
  The number of ticks, \<open>PIT_C0_HZ / 1000.0f * ms\<close>, is computed with floating point numbers whose
  precision the compiler chooses; it is the parameter \<open>ticks\<close>.
\<close>

partial_function (option) sleep_loop :: "(task_state \<Rightarrow> task_state) \<Rightarrow> uint32 \<Rightarrow> task_state \<Rightarrow> task_state option" where
  "sleep_loop others wakeuptime s =
     (if pit_gettime (pit s) < wakeuptime then sleep_loop others wakeuptime (others s) else Some s)"

definition sleep :: "(uint32 \<Rightarrow> uint32) \<Rightarrow> (task_state \<Rightarrow> task_state) \<Rightarrow> uint32 \<Rightarrow> task_state \<Rightarrow> task_state option" where
  "sleep ticks others ms s = sleep_loop others (pit_gettime (pit s) + ticks ms) s"

section \<open>The reaper\<close>

text \<open>
  One turn of the loop of \<open>jack_the_ripper\<close>, with the variables \<open>orig\<close> and \<open>p\<close>: when it comes to the
  running process it goes on at once, when it comes back to \<open>orig\<close> it starts anew, and otherwise
  the others run.
\<close>

definition jack_turn :: "(task_state \<Rightarrow> task_state) \<Rightarrow> addr \<times> addr \<times> task_state \<Rightarrow> addr \<times> addr \<times> task_state" where
  "jack_turn others v = (case v of (orig, p, s) \<Rightarrow>
     let (p', s') = jack_visit p s
     in if p' = cur s' then (orig, p', s')
        else if p' = orig then (cur s', cur s', s')
        else (orig, p', others s'))"

section \<open>Waiting\<close>

partial_function (option) wait_gone :: "(task_state \<Rightarrow> task_state) \<Rightarrow> uint32 \<Rightarrow> task_state \<Rightarrow> task_state option" where
  "wait_gone others pid s = do {
     (running, s1) \<leftarrow> is_pid_running pid s;
     if running then wait_gone others pid (others s1) else Some s1
   }"

text \<open>A step after another one that may panic.\<close>

definition and_then :: "('a outcome \<times> task_state) option \<Rightarrow> ('a \<Rightarrow> task_state \<Rightarrow> ('b outcome \<times> task_state) option) \<Rightarrow>
    ('b outcome \<times> task_state) option" where
  "and_then r f = (case r of
     None \<Rightarrow> None
   | Some (Panic, s) \<Rightarrow> Some (Panic, s)
   | Some (Ret x, s) \<Rightarrow> f x s)"

text \<open>The macro \<open>START_AND_WAIT\<close>; a process is given by the address of its name and its entry point.\<close>

definition start_and_wait :: "(task_state \<Rightarrow> task_state) \<Rightarrow> uint32 \<Rightarrow> addr \<times> uint32 \<Rightarrow> task_state \<Rightarrow>
    (unit outcome \<times> task_state) option" where
  "start_and_wait others notified pr s = and_then (start_process notified (fst pr) (snd pr) s)
     (\<lambda>pid s1. map_option (\<lambda>s2. (Ret (), s2)) (wait_gone others pid s1))"

record late_env =
  le_notified :: uint32
  le_keyboard :: "addr \<times> uint32"
  le_vfsinit :: "addr \<times> uint32"
  le_devicemm :: "addr \<times> uint32"
  le_ata_init :: "addr \<times> uint32"
  le_pci :: "addr \<times> uint32"

text \<open>The first three processes; the result is the pid of the last one.\<close>

definition late_start :: "late_env \<Rightarrow> task_state \<Rightarrow> (uint32 outcome \<times> task_state) option" where
  "late_start e s =
     and_then (start_process (le_notified e) (fst (le_keyboard e)) (snd (le_keyboard e)) s) (\<lambda>_ s1.
     and_then (start_process (le_notified e) (fst (le_vfsinit e)) (snd (le_vfsinit e)) s1) (\<lambda>_ s2.
     start_process (le_notified e) (fst (le_devicemm e)) (snd (le_devicemm e)) s2))"

text \<open>\<open>late_init\<close> up to the call of \<open>kshell_init\<close>, which never returns.\<close>

definition late_init_run :: "late_env \<Rightarrow> (task_state \<Rightarrow> task_state) \<Rightarrow> task_state \<Rightarrow> (unit outcome \<times> task_state) option" where
  "late_init_run e others s =
     and_then (late_start e s) (\<lambda>pid s1.
     and_then (map_option (\<lambda>s2. (Ret (), s2)) (wait_gone others pid s1)) (\<lambda>_ s2.
     and_then (start_and_wait others (le_notified e) (le_ata_init e) s2) (\<lambda>_ s3.
     start_and_wait others (le_notified e) (le_pci e) s3)))"

section \<open>What waiting does\<close>

text \<open>
  The state after \<open>k\<close> rounds of the loop in which the process was still there.
\<close>

definition asked :: "task_state \<Rightarrow> task_state" where "asked s = tasks_set_task 1 (tasks_set_task 0 s)"

fun rounds :: "(task_state \<Rightarrow> task_state) \<Rightarrow> nat \<Rightarrow> task_state \<Rightarrow> task_state" where
  "rounds others 0 s = s"
| "rounds others (Suc k) s = rounds others k (others (asked s))"

definition in_ring :: "uint32 \<Rightarrow> task_state \<Rightarrow> addr list \<Rightarrow> bool" where
  "in_ring pid s xs \<longleftrightarrow> pid \<in> (\<lambda>p. p_pid (procs s p)) ` set (cur s # xs)"

lemma asked_running:
  assumes "tasks_inv s xs"
  shows "is_pid_running pid s = Some (in_ring pid s xs, asked s)"
proof -
  have "task_ring s xs" using assms by (simp add: tasks_inv_def)
  then show ?thesis using is_pid_running_ring [of s xs pid] by (auto simp: asked_def in_ring_def)
qed

lemma wait_gone_returns:
  assumes "\<And>k. k \<le> n \<Longrightarrow> tasks_inv (rounds others k s) (ring k)"
    and "\<And>k. k < n \<Longrightarrow> in_ring pid (rounds others k s) (ring k)" and "\<not> in_ring pid (rounds others n s) (ring n)"
  shows "wait_gone others pid s = Some (asked (rounds others n s))"
  using assms
proof (induction n arbitrary: s ring)
  case 0
  then show ?case using asked_running [of s "ring 0" pid] by (subst wait_gone.simps) simp
next
  case (Suc n)
  have "wait_gone others pid (others (asked s)) = Some (asked (rounds others n (others (asked s))))"
  proof (rule Suc.IH [of _ "\<lambda>k. ring (Suc k)"])
    show "tasks_inv (rounds others k (others (asked s))) (ring (Suc k))" if "k \<le> n" for k
      using Suc.prems(1) [of "Suc k"] that by simp
    show "in_ring pid (rounds others k (others (asked s))) (ring (Suc k))" if "k < n" for k
      using Suc.prems(2) [of "Suc k"] that by simp
    show "\<not> in_ring pid (rounds others n (others (asked s))) (ring (Suc n))" using Suc.prems(3) by simp
  qed
  moreover have "is_pid_running pid s = Some (True, asked s)"
    using asked_running [of s "ring 0" pid] Suc.prems(1,2) [of 0] by simp
  ultimately show ?case by (subst wait_gone.simps) simp
qed

lemma is_pid_running_state: "is_pid_running pid s = Some (b, t) \<Longrightarrow> t = asked s"
  by (auto simp: is_pid_running_def asked_def Let_def)

lemma wait_gone_only:
  assumes "wait_gone others pid s = Some t"
  shows "\<exists>n. t = asked (rounds others n s) \<and> map_option fst (is_pid_running pid (rounds others n s)) = Some False"
proof (rule wait_gone.raw_induct [where P = "\<lambda>oth pid s t. \<exists>n. t = asked (rounds oth n s) \<and>
    map_option fst (is_pid_running pid (rounds oth n s)) = Some False", OF _ assms])
  fix w oth pid s t
  assume IH: "\<And>oth pid s t. w oth pid s = Some t \<Longrightarrow> \<exists>n. t = asked (rounds oth n s) \<and>
      map_option fst (is_pid_running pid (rounds oth n s)) = Some False"
    and r: "is_pid_running pid s \<bind> (\<lambda>(running, s1). if running then w oth pid (oth s1) else Some s1) = Some t"
  then obtain b s1 where q: "is_pid_running pid s = Some (b, s1)" by (auto split: Option.bind_splits)
  note a = is_pid_running_state [OF q]
  show "\<exists>n. t = asked (rounds oth n s) \<and> map_option fst (is_pid_running pid (rounds oth n s)) = Some False"
  proof (cases b)
    case True
    then have "w oth pid (oth s1) = Some t" using r q by simp
    from IH [OF this] obtain n where "t = asked (rounds oth n (oth s1))"
      "map_option fst (is_pid_running pid (rounds oth n (oth s1))) = Some False" by blast
    then show ?thesis using a by (intro exI [of _ "Suc n"]) simp
  next
    case False
    then show ?thesis using r q a by (intro exI [of _ 0]) simp
  qed
qed

text \<open>
  C7. Waiting for a process, whatever the others do as long as the table of processes stays well formed:
  the loop of \<open>START_AND_WAIT\<close> returns in the first round in which no process of the ring has the
  pid, and if there is none it never returns.
\<close>

theorem wait_gone_outcome:
  assumes "\<forall>k. tasks_inv (rounds others k s) (ring k)"
  shows "wait_gone others pid s = (if \<exists>k. \<not> in_ring pid (rounds others k s) (ring k)
    then Some (asked (rounds others (LEAST k. \<not> in_ring pid (rounds others k s) (ring k)) s)) else None)"
proof (cases "\<exists>k. \<not> in_ring pid (rounds others k s) (ring k)")
  case True
  define n where "n = (LEAST k. \<not> in_ring pid (rounds others k s) (ring k))"
  have "\<not> in_ring pid (rounds others n s) (ring n)" unfolding n_def by (rule LeastI_ex [OF True])
  moreover have "in_ring pid (rounds others k s) (ring k)" if "k < n" for k
    using not_less_Least [OF that [unfolded n_def]] by simp
  ultimately have "wait_gone others pid s = Some (asked (rounds others n s))"
    using assms by (intro wait_gone_returns [of n others s ring pid]) simp_all
  with True show ?thesis by (simp add: n_def)
next
  case False
  then have "map_option fst (is_pid_running pid (rounds others k s)) = Some True" for k
    using asked_running [of "rounds others k s" "ring k" pid] assms by simp
  note all = this
  have "wait_gone others pid s = None"
  proof (rule ccontr)
    assume "wait_gone others pid s \<noteq> None"
    then obtain t where "wait_gone others pid s = Some t" by blast
    from wait_gone_only [OF this] obtain n where
      "map_option fst (is_pid_running pid (rounds others n s)) = Some False" by blast
    with all [of n] show False by simp
  qed
  with False show ?thesis by simp
qed

text \<open>The idle process waits for \<open>task1\<close>, which ends when it gets its turn.\<close>

definition run_task1 :: "task_state \<Rightarrow> task_state" where
  "run_task1 s = (if p_nexts s (cur s) = cur s then s
     else let s1 = schedule push_ebp s
          in snd (task1 push_ebp (s1\<lparr>cpu := (cpu s1)\<lparr>r_esp := p_stacktop (procs s1 (cur s1)) + 4096\<rparr>\<rparr>)))"

lemma asked_same [simp]:
  "tasks_inv (asked s) xs = tasks_inv s xs" "cur (asked s) = cur s" "procs (asked s) = procs s" "p_nexts (asked s) = p_nexts s"
  "esp_ok pro (asked s) = esp_ok pro s" "tasking_on (asked s) = tasking_on s"
proof -
  show "tasks_inv (asked s) xs = tasks_inv s xs" by (simp add: asked_def)
qed (simp_all add: asked_def tasks_set_task_def esp_ok_def p_nexts_def fun_eq_iff)

lemma run_task1_alone:
  assumes "tasks_inv s []"
  shows "run_task1 s = s"
  using assms by (simp add: run_task1_def tasks_inv_def task_ring_def ring_single)

lemma run_task1_ends:
  assumes "two_tasks s q"
  shows "tasks_inv (run_task1 (asked s)) [] \<and> cur (run_task1 (asked s)) = cur s \<and>
    p_pid (procs (run_task1 (asked s)) (cur s)) = 1"
proof -
  let ?s = "asked s"
  have inv: "tasks_inv ?s [q]" and esp: "esp_ok push_ebp ?s" and on: "tasking_on ?s" and pid: "p_pid (procs s q) = 2"
    "p_pid (procs s (cur s)) = 1"
    using assms by (simp_all add: two_tasks_def)
  let ?s1 = "schedule push_ebp ?s"
  let ?s2 = "?s1\<lparr>cpu := (cpu ?s1)\<lparr>r_esp := p_stacktop (procs ?s1 (cur ?s1)) + 4096\<rparr>\<rparr>"
  have nx: "p_nexts ?s (cur ?s) = q" "q \<noteq> cur s" using inv by (auto simp: tasks_inv_def task_ring_def is_ring_def)
  have i1: "tasks_inv ?s1 [cur s]" using schedule_inv [OF inv esp] by simp
  have c1: "cur ?s1 = q" "tasking_on ?s1" "p_pid (procs ?s1 r) = p_pid (procs s r)" for r
    using nx on by (simp_all add: schedule_simps)
  have i2: "tasks_inv ?s2 [cur s]" using i1 by (simp only: tasks_inv_cpu)
  have e2: "esp_ok push_ebp ?s2" by (simp add: esp_ok_def push_ebp_def saved_words_def)
  have "p_pid (procs ?s2 (cur ?s2)) \<noteq> 1" "tasking_on ?s2" using c1 pid by simp_all
  from kill_current_inv [OF i2 e2 this(2,1)] obtain t where t: "kill_current push_ebp ?s2 = (Ret (), t)" "tasks_inv t []"
      "cur t = cur s" "stacks_kept ?s2 t [cur s]" by auto
  have "run_task1 ?s = t" using nx t(1) by (auto simp: run_task1_def task1_def Let_def)
  with t c1 pid show ?thesis by (simp add: stacks_kept_def)
qed

theorem wait_gone_outcome_witness:
  "\<exists>s q t. two_tasks s q \<and> wait_gone run_task1 2 s = Some t \<and> tasks_inv t [] \<and> wait_gone run_task1 1 s = None"
proof -
  obtain s q where s: "two_tasks s q" using sample_two_tasks by blast
  let ?t = "run_task1 (asked s)"
  note e = run_task1_ends [OF s]
  have r: "rounds run_task1 (Suc k) s = (asked ^^ k) ?t" for k
  proof -
    have "tasks_inv u [] \<Longrightarrow> rounds run_task1 k u = (asked ^^ k) u" for u
      by (induction k arbitrary: u) (simp_all add: run_task1_alone funpow_swap1)
    with e show ?thesis by simp
  qed
  have ak: "tasks_inv ((asked ^^ k) u) xs = tasks_inv u xs" "cur ((asked ^^ k) u) = cur u" "procs ((asked ^^ k) u) = procs u" for k u xs
    by (induction k) simp_all
  define ring where "ring = (\<lambda>k :: nat. if k = 0 then [q] else [])"
  have inv: "\<forall>k. tasks_inv (rounds run_task1 k s) (ring k)"
  proof
    fix k show "tasks_inv (rounds run_task1 k s) (ring k)"
      using s e by (cases k) (simp_all only: r ak ring_def, simp_all add: two_tasks_def)
  qed
  have in2: "in_ring 2 (rounds run_task1 k s) (ring k) \<longleftrightarrow> k = 0" and in1: "in_ring 1 (rounds run_task1 k s) (ring k)" for k
    using s e by (cases k; simp only: in_ring_def r ak ring_def; simp add: two_tasks_def)+
  have "(LEAST k. \<not> in_ring 2 (rounds run_task1 k s) (ring k)) = 1" unfolding in2 by (rule Least_equality) auto
  then have "wait_gone run_task1 2 s = Some (asked (rounds run_task1 1 s))"
    using wait_gone_outcome [OF inv, of 2] in2 by auto
  moreover have "wait_gone run_task1 1 s = None" using wait_gone_outcome [OF inv, of 1] in1 by simp
  moreover have "tasks_inv (asked (rounds run_task1 1 s)) []" using e by simp
  ultimately show ?thesis using s by blast
qed

section \<open>What sleeping does\<close>

lemma sleep_loop_returns:
  assumes "\<And>t. pit_gettime (pit t) < w \<Longrightarrow> pit_gettime (pit t) < pit_gettime (pit (others t))"
  shows "\<exists>n. sleep_loop others w s = Some ((others ^^ n) s) \<and> w \<le> pit_gettime (pit ((others ^^ n) s)) \<and>
    (\<forall>k < n. pit_gettime (pit ((others ^^ k) s)) < w)"
proof (induction "unat w - unat (pit_gettime (pit s))" arbitrary: s rule: less_induct)
  case less
  show ?case
  proof (cases "pit_gettime (pit s) < w")
    case True
    have "unat w - unat (pit_gettime (pit (others s))) < unat w - unat (pit_gettime (pit s))"
      using assms [OF True] True by (simp add: word_less_nat_alt)
    from less [OF this] obtain n where n: "sleep_loop others w (others s) = Some ((others ^^ n) (others s))"
        "w \<le> pit_gettime (pit ((others ^^ n) (others s)))" "\<forall>k < n. pit_gettime (pit ((others ^^ k) (others s))) < w"
      by blast
    have "pit_gettime (pit ((others ^^ k) s)) < w" if "k < Suc n" for k
      using that n(3) True by (cases k) (simp_all add: funpow_swap1)
    then show ?thesis
      using n(1,2) True by (intro exI [of _ "Suc n"]) (simp add: sleep_loop.simps [of _ _ s] funpow_swap1)
  next
    case False
    then show ?thesis by (intro exI [of _ 0]) (simp add: sleep_loop.simps [of _ _ s])
  qed
qed


definition one_tick :: "task_state \<Rightarrow> task_state" where
  "one_tick s = s\<lparr>pit := fst (pit_irq (pit s) [])\<rparr>"

lemma one_tick_time [simp]: "pit_gettime (pit (one_tick s)) = pit_gettime (pit s) + 1"
  by (simp add: one_tick_def pit_irq_def pit_gettime_def Let_def)


section \<open>Signals and the reaper\<close>



text \<open>
  The reaper takes a zombie out of the ring and frees its structure and stack, but goes on from the
  structure that it has freed: in the next turn, after the others have run and may have been given that
  memory, it follows the pointer that lies there.
\<close>

theorem jack_follows_freed:
  assumes inv: "tasks_inv s xs" and q: "q \<in> set (cur s # xs)" and z: "p_nexts s q \<noteq> cur s" "p_nexts s q \<noteq> orig"
    "p_state (procs s (p_nexts s q)) = PROCESS_STATE_ZOMBIE" "p_pid (procs s (p_nexts s q)) \<noteq> 1"
  shows "\<exists>s' as bs. jack_turn others (orig, q, s) = (orig, p_nexts s q, others s') \<and> xs = as @ p_nexts s q # bs \<and>
    tasks_inv s' (as @ bs) \<and> (\<forall>n. (p_nexts s q, n) \<notin> heap_live (kmem s')) \<and>
    fst (snd (jack_turn others (orig, p_nexts s q, t))) \<in> {p_next (procs t (p_nexts s q)), cur t}"
proof -
  obtain s' where v: "jack_visit q s = (p_nexts s q, s')" by (cases "jack_visit q s") (auto simp: jack_visit_def Let_def split: if_splits)
  from jack_visit_inv [OF inv q v] z obtain as bs where r: "xs = as @ p_nexts s q # bs" "tasks_inv s' (as @ bs)" "cur s' = cur s"
      "heap_live (kmem s') = {b \<in> heap_live (kmem s). fst b \<noteq> p_nexts s q \<and> fst b \<noteq> p_stacktop (procs s (p_nexts s q))}"
    by auto
  have "fst (jack_visit p t) = p_next (procs t p)" for p by (simp add: jack_visit_def p_nexts_def Let_def)
  moreover have "cur (snd (jack_visit p t)) = cur t" for p
    by (simp add: jack_visit_def unlink_process_def Let_def)
  ultimately have "fst (snd (jack_turn others (orig, p, t))) \<in> {p_next (procs t p), cur t}" for p
    by (cases "jack_visit p t") (simp add: jack_turn_def, metis fst_conv snd_conv)
  with r v z show ?thesis by (intro exI [of _ s'] exI [of _ as] exI [of _ bs]) (simp add: jack_turn_def)
qed

section \<open>What \<open>late_init\<close> starts\<close>

text \<open>The saved frame of a process begins at \<open>addr\<close> with clean registers and its own stack.\<close>

definition enters :: "task_state \<Rightarrow> addr \<Rightarrow> uint32 \<Rightarrow> bool" where
  "enters s p addr \<longleftrightarrow> pop_frame (ram (kmem s)) (p_esp (procs s p)) = fresh_cpu addr (p_stacktop (procs s p) + 4096)"

lemma enters_kept:
  assumes "stacks_kept s s' ps" "p \<in> set ps" "frame_ok s p"
  shows "enters s' p addr = enters s p addr" "p_pid (procs s' p) = p_pid (procs s p)"
proof -
  have "pop_frame (ram (kmem s')) (p_esp (procs s p)) = pop_frame (ram (kmem s)) (p_esp (procs s p))"
    using assms frame_in_stack [OF assms(3)] by (intro pop_frame_cong) (auto simp: stacks_kept_def)
  then show "enters s' p addr = enters s p addr" using assms(1,2) by (simp add: enters_def stacks_kept_def)
  show "p_pid (procs s' p) = p_pid (procs s p)" using assms(1,2) by (simp add: stacks_kept_def)
qed

text \<open>Room in the heap for \<open>n\<close> more processes.\<close>

definition start_room :: "nat \<Rightarrow> task_state \<Rightarrow> bool" where
  "start_room n s \<longleftrightarrow> unat (last_alloc (kmem s)) + 4160 * n < unat (heap_end (kmem s)) \<and> unat (lpid s) + n < 4294967296"

lemma start_process_ok:
  assumes inv: "tasks_inv s xs" and room: "start_room (Suc n) s"
  shows "\<exists>s' p. start_process nt name addr s = Some (Ret (lpid s + 1), s') \<and> tasks_inv s' (p # xs) \<and> start_room n s' \<and>
    lpid s' = lpid s + 1 \<and> cur s' = cur s \<and> p_pid (procs s' p) = lpid s + 1 \<and> enters s' p addr \<and>
    stacks_kept s s' (cur s # xs) \<and> cpu s' = cpu s \<and> tasking_on s' = tasking_on s"
proof -
  have h: "holds (kmem s) (task_blocks s (cur s # xs))" using inv by (simp add: tasks_inv_def)
  have "unat (last_alloc (kmem s)) + 4156 < unat (heap_end (kmem s))" using room by (simp add: start_room_def)
  from createProcess_total [OF h this, of nt name addr] obtain q s1 where
    c: "createProcess nt name addr s = Some (Ret q, s1)" "heap_end (kmem s1) = heap_end (kmem s)"
      "unat (last_alloc (kmem s1)) \<le> unat (last_alloc (kmem s)) + 4160" by blast
  let ?s' = "tasks_set_task 1 (addProcess_unlocked q (tasks_set_task 0 s1))"
  have st: "start_process nt name addr s = Some (Ret (p_pid (procs s1 q)), ?s')"
    using c(1) by (simp add: start_process_def addProcess_fields)
  have k: "kmem ?s' = kmem s1" by (simp add: addProcess_unlocked_def Let_def)
  have "unat (lpid s) + 1 < 4294967296" using room by (simp add: start_room_def)
  then have u: "unat (lpid s + 1) = unat (lpid s) + 1" by (simp add: unat_add_small)
  then have max: "lpid s \<noteq> - 1" by auto
  obtain p st where r: "tasks_inv ?s' (p # xs)" "p_pid (procs s1 q) = lpid s + 1" "lpid ?s' = lpid s + 1"
    "cur ?s' = cur s" "cpu ?s' = cpu s" "tasking_on ?s' = tasking_on s" "p_pid (procs ?s' p) = p_pid (procs s1 q)"
    "p_stacktop (procs ?s' p) = st" "pop_frame (ram (kmem ?s')) (p_esp (procs ?s' p)) = fresh_cpu addr (st + 4096)"
    "stacks_kept s ?s' (cur s # xs)"
    by (rule start_process_inv [OF inv max st])
  have "start_room n ?s'" using room c(2,3) u unfolding start_room_def k r(3) by simp
  with st r show ?thesis by (intro exI [of _ ?s'] exI [of _ p]) (simp add: enters_def)
qed


definition sample_late :: late_env where
  "sample_late = \<lparr>le_notified = 0x1000, le_keyboard = (0, 0x2000), le_vfsinit = (0, 0x3000), le_devicemm = (0, 0x4000),
     le_ata_init = (0, 0x5000), le_pci = (0, 0x6000)\<rparr>"


end
