(* ===== verification/Boot.thy ===== *)
theory Boot
  imports Scheduling Display Paging
begin

text \<open>
  The start of the kernel, \<open>kmain\<close> in \<open>src/kernel.c\<close>: the initialisations one after the other on one
  memory, up to the switch to the first process. The addresses that the linker chooses, of
  functions, variables and constants, are the record \<open>boot_env\<close>; no other process runs, so the
  scheduler does nothing in the locks. Of the messages the ones of \<open>display_set_current\<close> and of
  \<open>kmain\<close> itself are printed, those of the initialisations are left out.
\<close>

section \<open>The code\<close>

record boot_env =
  dev_in :: device
  isr_label :: "nat \<Rightarrow> uint32"
  irq_label :: "nat \<Rightarrow> uint32"
  idt_addr :: uint32
  pit_irq_addr :: uint32
  kernel_end :: addr
  m_memcpy_at :: addr
  m_display_at :: addr
  str_buffer :: addr
  on_set_msg :: addr
  kernel_module :: addr
  notified_at :: uint32
  schedule_at :: uint32
  idle_at :: uint32
  task1_at :: uint32
  late_init_at :: uint32
  idle_name :: addr
  task1_name :: addr

record kernel =
  k_screen :: text_display
  k_displays :: "text_display displays"
  k_ports :: trace
  k_idt :: idt
  k_idtr :: idt_register
  k_irqs :: irq_table
  k_paging :: paging
  k_tasks :: task_state

definition kernel_ram :: "kernel \<Rightarrow> mem" where "kernel_ram k = ram (kmem (k_tasks k))"

definition set_kmem :: "mm_state \<Rightarrow> kernel \<Rightarrow> kernel" where
  "set_kmem h k = k\<lparr>k_tasks := (k_tasks k)\<lparr>kmem := h\<rparr>\<rparr>"

definition set_kernel_ram :: "mem \<Rightarrow> kernel \<Rightarrow> kernel" where
  "set_kernel_ram m k = set_kmem ((kmem (k_tasks k))\<lparr>ram := m\<rparr>) k"

text \<open>\<open>display_set_current(display_register(textmode_init()))\<close>.\<close>

definition kmain_display :: "boot_env \<Rightarrow> kernel \<Rightarrow> kernel option" where
  "kmain_display e k =
     (let (d, tr) = textmode_init (k_screen k) (k_ports k);
          dp = textmode_display (\<lambda>m. m) (m_memcpy_at e) (on_set_msg e)
      in do {
        (i, ds1, st1) \<leftarrow> display_register dp (k_displays k) (d, kernel_ram k);
        (r, ds2, st2) \<leftarrow> display_set_current i ds1 st1;
        Some (set_kernel_ram (snd st2) (k\<lparr>k_screen := fst st2, k_displays := ds2, k_ports := tr\<rparr>))
      })"

definition kmain_mprint :: "boot_env \<Rightarrow> kernel \<Rightarrow> kernel option" where
  "kmain_mprint e k = do {
     st \<leftarrow> mprintf (\<lambda>m. m) (m_display_at e) (str_buffer e) (display_get_current (k_displays k)) (kernel_module e)
       (map of_char ''AIJAK up and running'' @ [10, 0]) [] (k_screen k, kernel_ram k);
     Some (set_kernel_ram (snd st) (k\<lparr>k_screen := fst st\<rparr>))
   }"

text \<open>\<open>idt_init\<close>, \<open>irq_install\<close> and \<open>pit_init\<close>.\<close>

definition kmain_interrupts :: "boot_env \<Rightarrow> kernel \<Rightarrow> kernel option" where
  "kmain_interrupts e k =
     (let (t1, reg) = idt_init (isr_label e) (idt_addr e) (k_idt k);
          (t2, tr1) = irq_install (dev_in e) (irq_label e) t1 (k_ports k);
          (rs, tr2) = pit_init (pit_irq_addr e) (k_irqs k) tr1
      in do {
        tr \<leftarrow> tr2;
        Some (k\<lparr>k_idt := t2, k_idtr := reg, k_irqs := rs, k_ports := tr\<rparr>)
      })"

text \<open>\<open>paging_init\<close> works on the memory of the kernel and sets the register that new processes copy.\<close>

definition kmain_paging :: "kernel \<Rightarrow> kernel" where
  "kmain_paging k =
     (let p = paging_init ((k_paging k)\<lparr>pg_mem := kernel_ram k\<rparr>);
          k1 = set_kernel_ram (pg_mem p) (k\<lparr>k_paging := p\<rparr>)
      in k1\<lparr>k_tasks := (k_tasks k1)\<lparr>cr3 := pg_cr3 p\<rparr>\<rparr>)"

text \<open>The result is the kernel at the start of the first process, from which \<open>kmain\<close> never returns.\<close>

definition kmain :: "boot_env \<Rightarrow> kernel \<Rightarrow> (unit outcome \<times> kernel) option" where
  "kmain e k = do {
     k1 \<leftarrow> kmain_display e k;
     k2 \<leftarrow> kmain_mprint e k1;
     (r, h) \<leftarrow> mm_init (kmem (k_tasks k2)) (load32 (kernel_ram k2) (kernel_end e));
     if r = Panic then Some (Panic, set_kmem h k2)
     else do {
       k3 \<leftarrow> kmain_interrupts e (set_kmem h k2);
       (r2, t, s) \<leftarrow> tasking_init (notified_at e) (schedule_at e) (idle_name e) (idle_at e) (task1_name e) (task1_at e)
         (late_init_at e) (k_idt k3) (k_tasks (kmain_paging k3));
       Some (r2, (kmain_paging k3)\<lparr>k_idt := t, k_tasks := s\<rparr>)
     }
   }"

section \<open>The steps\<close>

text \<open>
  What the linker and the boot loader provide: both locks are free, they, the buffer on the
  stack, the constants and the word at the end of the kernel are apart from each other and from
  the screen, and there is room for the heap behind that word's value.
\<close>

definition boot_ready :: "boot_env \<Rightarrow> kernel \<Rightarrow> bool" where
  "boot_ready e k \<longleftrightarrow>
     (let m = kernel_ram k; q = untouched (m_memcpy_at e) (m_display_at e) (str_buffer e) in
     k_displays k = displays_start \<and> lpid (k_tasks k) = 0 \<and> lock_ready (m_memcpy_at e) m \<and> m (m_display_at e) = 0 \<and>
     mutex_pad_clear (m_display_at e) m \<and> apart (m_memcpy_at e) (m_display_at e) (str_buffer e) \<and>
     (\<exists>cs. cstr m (on_set_msg e) cs \<and> (\<forall>i \<le> length cs. q (on_set_msg e + of_nat i))) \<and>
     (\<exists>cs. cstr m (kernel_module e) cs \<and> (\<forall>i \<le> length cs. q (kernel_module e + of_nat i))) \<and>
     (\<forall>i \<in> {0, 1, 2, 3}. q (kernel_end e + i)) \<and>
     unat (load32 m (kernel_end e)) + 0x10ad + 8320 < 0x3E0000)"

abbreviation boot_safe :: "boot_env \<Rightarrow> addr \<Rightarrow> bool" where
  "boot_safe e \<equiv> untouched (m_memcpy_at e) (m_display_at e) (str_buffer e)"

abbreviation boot_display :: "boot_env \<Rightarrow> text_display DISPLAY" where
  "boot_display e \<equiv> textmode_display (\<lambda>m. m) (m_memcpy_at e) (on_set_msg e)"

lemma set_kernel_ram_simps [simp]:
  "kernel_ram (set_kernel_ram m k) = m" "k_tasks (set_kernel_ram m k) = (k_tasks k)\<lparr>kmem := (kmem (k_tasks k))\<lparr>ram := m\<rparr>\<rparr>"
  "k_displays (set_kernel_ram m k) = k_displays k" "k_screen (set_kernel_ram m k) = k_screen k"
  "kernel_ram (set_kmem h k) = ram h" "k_tasks (set_kmem h k) = (k_tasks k)\<lparr>kmem := h\<rparr>"
  "k_displays (set_kmem h k) = k_displays k" "k_screen (set_kmem h k) = k_screen k"
  "k_idt (set_kmem h k) = k_idt k" "k_irqs (set_kmem h k) = k_irqs k"
  by (simp_all add: kernel_ram_def set_kernel_ram_def set_kmem_def)

lemma kmain_display_ok:
  assumes "boot_ready e k"
  shows "\<exists>k1. kmain_display e k = Some k1 \<and> out_ready (m_memcpy_at e) (m_display_at e) (k_screen k1) (kernel_ram k1) \<and>
    display_get_current (k_displays k1) = Some (boot_display e) \<and> (\<forall>x. boot_safe e x \<longrightarrow> kernel_ram k1 x = kernel_ram k x) \<and>
    lpid (k_tasks k1) = 0"
proof -
  obtain cs where r: "k_displays k = displays_start" "lpid (k_tasks k) = 0" "lock_ready (m_memcpy_at e) (kernel_ram k)"
      "kernel_ram k (m_display_at e) = 0" "mutex_pad_clear (m_display_at e) (kernel_ram k)"
      "apart (m_memcpy_at e) (m_display_at e) (str_buffer e)"
      "cstr (kernel_ram k) (on_set_msg e) cs" "\<forall>i \<le> length cs. 4480 \<le> off (on_set_msg e + of_nat i)"
    using assms by (auto simp: boot_ready_def Let_def untouched_def)
  obtain d tr where i: "textmode_init (k_screen k) (k_ports k) = (d, tr)" by (cases "textmode_init (k_screen k) (k_ports k)")
  obtain d' m' where s: "texmode_onSet (\<lambda>x. x) (m_memcpy_at e) (on_set_msg e) 1 (d, kernel_ram k) = Some (d', m')"
      "con_tame d (kernel_ram k) d' m'"
    using texmode_onSet_tame [OF r(3,7,8)] by blast
  have far: "4480 \<le> off (m_display_at e)" "\<forall>i \<in> {1, 2, 3}. 4480 \<le> off (m_display_at e + i)"
    using r(6) by (auto simp: apart_def in_range_def)
  then have "m' (m_display_at e) = 0" "mutex_pad_clear (m_display_at e) m'"
    using r(4,5) s(2) by (simp_all add: con_tame_def mutex_pad_clear_def)
  then have "out_ready (m_memcpy_at e) (m_display_at e) d' m'"
    using con_tame_lock [OF s(2) r(3)] s(2) by (simp add: out_ready_def con_tame_def)
  moreover have "kmain_display e k = Some (set_kernel_ram m' (k\<lparr>k_screen := d',
      k_displays := \<lparr>dispis = [boot_display e], last_register = 2, current = 1, cd = Some (boot_display e)\<rparr>, k_ports := tr\<rparr>))"
    using s(1) by (simp add: kmain_display_def i r(1) displays_start_def display_register_def display_set_current_def
        dispi_def textmode_display_def texmode_onRegister_def DISPLAY_MAX_DISPIS_def Let_def)
  ultimately show ?thesis
    using s(2) r(2) by (auto simp: display_get_current_def con_tame_def untouched_def)
qed

lemma kmain_mprint_ok:
  assumes "boot_ready e k" "out_ready (m_memcpy_at e) (m_display_at e) (k_screen k1) (kernel_ram k1)"
    "display_get_current (k_displays k1) = Some (boot_display e)" "\<forall>x. boot_safe e x \<longrightarrow> kernel_ram k1 x = kernel_ram k x"
  shows "\<exists>d m. kmain_mprint e k1 = Some (set_kernel_ram m (k1\<lparr>k_screen := d\<rparr>)) \<and>
    out_ready (m_memcpy_at e) (m_display_at e) d m \<and> (\<forall>x. boot_safe e x \<longrightarrow> m x = kernel_ram k x)"
proof -
  define f where "f = map of_char ''AIJAK up and running'' @ [10 :: uint8]"
  obtain cs where cs: "cstr (kernel_ram k) (kernel_module e) cs" "\<forall>i \<le> length cs. boot_safe e (kernel_module e + of_nat i)"
    and ap: "apart (m_memcpy_at e) (m_display_at e) (str_buffer e)"
    using assms(1) by (auto simp: boot_ready_def Let_def)
  have c1: "cstr (kernel_ram k1) (kernel_module e) cs" by (rule cstr_frame [OF cs(1)]) (use assms(4) cs(2) in auto)
  have f: "0 \<notin> set f" "length f < 65535" "kitems f = map Char f"
    unfolding f_def by (code_simp, simp, code_simp)
  have "args_ok (kernel_ram k1) (boot_safe e) (map Char f) []" by (induction f) simp_all
  then have "args_ok (kernel_ram k1) (boot_safe e) (kitems f) []" by (simp only: f(3))
  from mprintf_returns [OF assms(2) ap f(1,2) this c1 cs(2), where msg = "on_set_msg e"]
  obtain d m where r: "mprintf (\<lambda>x. x) (m_display_at e) (str_buffer e) (Some (boot_display e)) (kernel_module e)
        (f @ [0]) [] (k_screen k1, kernel_ram k1) = Some (d, m)"
      "out_ready (m_memcpy_at e) (m_display_at e) d m" "\<forall>x. boot_safe e x \<longrightarrow> m x = kernel_ram k1 x"
    by blast
  have "map of_char ''AIJAK up and running'' @ [10, 0] = f @ [0]" by (simp add: f_def)
  then have "kmain_mprint e k1 = Some (set_kernel_ram m (k1\<lparr>k_screen := d\<rparr>))"
    unfolding kmain_mprint_def by (simp only: assms(3) r(1)) simp
  with r(2,3) assms(4) show ?thesis by auto
qed

lemma kmain_interrupts_ok:
  "\<exists>t reg rs tr. kmain_interrupts e k = Some (k\<lparr>k_idt := t, k_idtr := reg, k_irqs := rs, k_ports := tr\<rparr>) \<and>
    (\<forall>n < 32. gate_target (t (int n)) = isr_label e n) \<and> (\<forall>n < 16. gate_target (t (32 + int n)) = irq_label e n) \<and>
    rs 0 = pit_irq_addr e"
proof -
  obtain t1 reg where i: "idt_init (isr_label e) (idt_addr e) (k_idt k) = (t1, reg)"
    by (cases "idt_init (isr_label e) (idt_addr e) (k_idt k)")
  obtain t tr1 where q: "irq_install (dev_in e) (irq_label e) t1 (k_ports k) = (t, tr1)"
    by (cases "irq_install (dev_in e) (irq_label e) t1 (k_ports k)")
  obtain rs tr where p: "pit_init (pit_irq_addr e) (k_irqs k) tr1 = (rs, Some tr)" "rs 0 = pit_irq_addr e"
    by (simp add: pit_init_def pit_start_counter_def pit_consts irq_setroutine_def Let_def)
  have "t = fst (irq_install (dev_in e) (irq_label e) (fst (idt_init (isr_label e) (idt_addr e) (k_idt k))) (k_ports k))"
    by (simp add: i q)
  from interrupt_gates_installed [OF this] p show ?thesis
    by (intro exI [of _ t] exI [of _ reg] exI [of _ rs] exI [of _ tr]) (simp add: kmain_interrupts_def i q)
qed

text \<open>The tables of pages are above the heap, where nothing else writes.\<close>

lemma mapped_cong:
  assumes "mapped 1024 m" "\<And>y. 0x400000 \<le> unat y \<Longrightarrow> m' y = m y"
  shows "mapped 1024 m'"
proof -
  have "load32 m' (0x400000 + of_nat e) = load32 m (0x400000 + of_nat e)" if "e < 0x2000000" for e
  proof -
    have "unat (0x400000 + of_nat e :: addr) = 0x400000 + e"
      using that unat_of_nat_small [of e] by (subst unat_add_small) simp_all
    then show ?thesis
      using in_range_unat [of "0x400000 + of_nat e" 4] that by (intro load32_cong assms(2)) simp
  qed
  with assms(1) show ?thesis by (simp add: mapped_def del: of_nat_add of_nat_mult of_nat_Suc)
qed

lemma kmain_paging_ok:
  "\<exists>p m. kmain_paging k = (set_kernel_ram m (k\<lparr>k_paging := p\<rparr>))\<lparr>k_tasks := (k_tasks k)\<lparr>kmem := (kmem (k_tasks k))\<lparr>ram := m\<rparr>, cr3 := 0x400000\<rparr>\<rparr> \<and>
    mapped 1024 m \<and> bit (pg_cr0 p) 31 \<and> within (kernel_ram k) m 0x400000 0x1004000"
  using paging_init_mapped [of "(k_paging k)\<lparr>pg_mem := kernel_ram k\<rparr>"]
  by (intro exI [of _ "paging_init ((k_paging k)\<lparr>pg_mem := kernel_ram k\<rparr>)"]
      exI [of _ "pg_mem (paging_init ((k_paging k)\<lparr>pg_mem := kernel_ram k\<rparr>))"])
    (simp add: kmain_paging_def Let_def set_kernel_ram_def set_kmem_def)

lemma mm_init_boot:
  assumes "unat ke + 0x10ad + 8320 < 0x3E0000"
  shows "\<exists>h. mm_init s ke = Some (Ret (), h) \<and> holds h [(pheap_desc h, 32)] \<and> pages_ok h \<and>
    unat (last_alloc h) + 8320 < unat (heap_end h) \<and> heap_end h = 0x3E0000 \<and>
    (\<forall>y. outside_heap h y \<longleftrightarrow> unat y < unat ke + 0x1000 \<or> 0x3E0000 \<le> unat y) \<and>
    (\<forall>y. outside_heap h y \<longrightarrow> ram h y = ram s y)"
proof -
  have la: "unat (ke + 0x1000) = unat ke + 0x1000" "unat (ke + 0x102C) = unat ke + 0x102C"
    using assms by (simp_all add: unat_word_ariths)
  have "unat ke + 4096 + 32 + 8 < 0x3E0000" using assms by simp
  from mm_init_result [OF this, of s] obtain h where h: "mm_init s ke = Some (Ret (), h)" "heap_begin h = ke + 0x1000"
      "heap_ok h [(1, 32)]" "pages_ok h" "pheap_desc h = ke + 0x1008" "heap_end h = 0x3E0000" "last_alloc h = ke + 0x102C"
      "\<forall>y. \<not> in_range (ke + 0x1000) 40 y \<longrightarrow>
        ram h y = (if in_range (ke + 0x1000) (0x3E0000 - (ke + 0x1000)) y then 0 else ram s y)" by blast
  have live: "(pheap_desc h, 32) \<in> heap_live h"
    unfolding heap_live_eq [OF h(3)] live_of_def using h(2,5) by (auto simp: add.commute [of ke])
  then have "holds h [(pheap_desc h, 32)]" using h(3) by (auto simp: holds_def heap_good_def)
  moreover have out: "outside_heap h y \<longleftrightarrow> unat y < unat ke + 0x1000 \<or> 0x3E0000 \<le> unat y" for y
    by (simp add: outside_heap_def h(2,6) la)
  moreover have "ram h y = ram s y" if "outside_heap h y" for y
  proof -
    have "unat (0x3E0000 - (ke + 0x1000)) = 0x3E0000 - (unat ke + 0x1000)"
      using la assms by (simp add: unat_sub_word)
    then show ?thesis
      using h(8) that [unfolded out] la assms in_range_unat [of "ke + 0x1000" 40 y]
        in_range_unat [of "ke + 0x1000" "0x3E0000 - (ke + 0x1000)" y] by auto
  qed
  ultimately show ?thesis using h la assms by (intro exI [of _ h]) simp
qed

section \<open>The kernel comes up\<close>

lemma kmain_result:
  assumes "boot_ready e k"
  shows "\<exists>k' q stk. kmain e k = Some (Ret (), k') \<and> tasks_inv (k_tasks k') [q] \<and>
    p_pid (procs (k_tasks k') (cur (k_tasks k'))) = 1 \<and> p_pid (procs (k_tasks k') q) = 2 \<and>
    cpu (k_tasks k') = fresh_cpu (idle_at e) (stk + 4096) \<and> late_init (k_tasks k') = late_init_at e \<and>
    cr3 (k_tasks k') = 0x400000 \<and> mapped 1024 (kernel_ram k') \<and> bit (pg_cr0 (k_paging k')) 31 \<and>
    (\<forall>n < 32. gate_target (k_idt k' (int n)) = isr_label e n) \<and>
    (\<forall>n < 16. gate_target (k_idt k' (32 + int n)) = irq_label e n) \<and>
    gate_target (k_idt k' 0x79) = schedule_at e \<and> k_irqs k' 0 = pit_irq_addr e \<and> cursor_ok (k_screen k') \<and>
    (\<forall>x. boot_safe e x \<and> unat x < unat (load32 (kernel_ram k) (kernel_end e)) + 0x1000 \<longrightarrow> kernel_ram k' x = kernel_ram k x)"
proof -
  let ?ke = "load32 (kernel_ram k) (kernel_end e)"
  obtain k1 where 1: "kmain_display e k = Some k1" "out_ready (m_memcpy_at e) (m_display_at e) (k_screen k1) (kernel_ram k1)"
      "display_get_current (k_displays k1) = Some (boot_display e)" "\<forall>x. boot_safe e x \<longrightarrow> kernel_ram k1 x = kernel_ram k x"
      "lpid (k_tasks k1) = 0"
    using kmain_display_ok [OF assms] by blast
  obtain d m where 2: "kmain_mprint e k1 = Some (set_kernel_ram m (k1\<lparr>k_screen := d\<rparr>))"
      "out_ready (m_memcpy_at e) (m_display_at e) d m" "\<forall>x. boot_safe e x \<longrightarrow> m x = kernel_ram k x"
    using kmain_mprint_ok [OF assms 1(2-4)] by blast
  define k2 where "k2 = set_kernel_ram m (k1\<lparr>k_screen := d\<rparr>)"
  have ke: "load32 (kernel_ram k2) (kernel_end e) = ?ke" and room: "unat ?ke + 0x10ad + 8320 < 0x3E0000"
    using assms 2(3) by (auto simp: boot_ready_def Let_def k2_def load32_def)
  obtain h where h: "mm_init (kmem (k_tasks k2)) ?ke = Some (Ret (), h)" "holds h [(pheap_desc h, 32)]" "pages_ok h"
      "unat (last_alloc h) + 8320 < unat (heap_end h)" "heap_end h = 0x3E0000"
      "\<forall>y. outside_heap h y \<longleftrightarrow> unat y < unat ?ke + 0x1000 \<or> 0x3E0000 \<le> unat y"
      "\<forall>y. outside_heap h y \<longrightarrow> ram h y = m y"
    using mm_init_boot [OF room, of "kmem (k_tasks k2)"] by (auto simp: k2_def)
  obtain t reg rs tr where 3: "kmain_interrupts e (set_kmem h k2) =
        Some ((set_kmem h k2)\<lparr>k_idt := t, k_idtr := reg, k_irqs := rs, k_ports := tr\<rparr>)"
      "\<forall>n < 32. gate_target (t (int n)) = isr_label e n" "\<forall>n < 16. gate_target (t (32 + int n)) = irq_label e n"
      "rs 0 = pit_irq_addr e"
    using kmain_interrupts_ok by blast
  define k3 where "k3 = (set_kmem h k2)\<lparr>k_idt := t, k_idtr := reg, k_irqs := rs, k_ports := tr\<rparr>"
  obtain p m3 where 4: "kmain_paging k3 = (set_kernel_ram m3 (k3\<lparr>k_paging := p\<rparr>))\<lparr>k_tasks :=
        (k_tasks k3)\<lparr>kmem := (kmem (k_tasks k3))\<lparr>ram := m3\<rparr>, cr3 := 0x400000\<rparr>\<rparr>"
      "mapped 1024 m3" "bit (pg_cr0 p) 31" "within (kernel_ram k3) m3 0x400000 0x1004000"
    using kmain_paging_ok [of k3] by blast
  have ram3: "kernel_ram k3 = ram h" by (simp add: k3_def kernel_ram_def set_kmem_def)
  have low: "m3 y = ram h y" if "unat y < 0x400000" for y
    using 4(4) that unat_sub_word [of y "0x400000"] by (simp add: within_def ram3)
  define s where "s = (k_tasks k3)\<lparr>kmem := (kmem (k_tasks k3))\<lparr>ram := m3\<rparr>, cr3 := 0x400000\<rparr>"
  have s: "kmem s = h\<lparr>ram := m3\<rparr>" "lpid s = 0" "cr3 s = 0x400000" using 1(5) by (simp_all add: s_def k3_def k2_def)
  have hs: "holds (kmem s) [(pheap_desc (kmem s), 32)]"
  proof -
    have "heap_room h 0" using h(2,4) by (simp add: heap_room_def holds_def)
    then show ?thesis using holds_write_above(1) [OF h(2), of 0 m3] low h(5) by (simp add: s)
  qed
  have pgs: "pages_ok (kmem s)" using h(3) by (simp add: s pages_ok_def)
  have rm: "unat (last_alloc (kmem s)) + 8320 < unat (heap_end (kmem s))" using h(4) by (simp add: s)
  obtain s' q stk where 5: "tasking_init (notified_at e) (schedule_at e) (idle_name e) (idle_at e) (task1_name e) (task1_at e)
        (late_init_at e) (k_idt k3) s = Some (Ret (), set_idt_gate (k_idt k3) 0x79 (schedule_at e), s')"
      "tasks_inv s' [q]" "p_pid (procs s' (cur s')) = 1" "p_pid (procs s' q) = 2"
      "cpu s' = fresh_cpu (idle_at e) (stk + 4096)" "late_init s' = late_init_at e"
    using tasking_init_ok [OF hs pgs s(2) rm] by blast
  note out = tasking_init_outside [OF hs rm 5(1)]
  define k' where "k' = (kmain_paging k3)\<lparr>k_idt := set_idt_gate (k_idt k3) 0x79 (schedule_at e), k_tasks := s'\<rparr>"
  have run: "kmain e k = Some (Ret (), k')"
    using 1(1) 2(1) h(1) 3(1) 5(1) ke by (simp add: kmain_def k2_def [symmetric] k3_def [symmetric] 4(1) s_def k'_def)
  have k': "k_tasks k' = s'" "k_idt k' = set_idt_gate t 0x79 (schedule_at e)" "k_irqs k' = rs" "k_paging k' = p"
      "k_screen k' = d" "kernel_ram k' = ram (kmem s')"
    unfolding k'_def 4(1) by (simp_all add: k3_def k2_def kernel_ram_def set_kernel_ram_def set_kmem_def)
  have "mapped 1024 (ram (kmem s'))"
    using mapped_cong [OF 4(2)] out(1) h(6) by (simp add: s)
  moreover have "ram (kmem s') x = kernel_ram k x" if "boot_safe e x" "unat x < unat ?ke + 0x1000" for x
    using out(1) [of x] h(6,7) low [of x] that 2(3) room by (simp add: s)
  moreover have "gate_target (set_idt_gate t 0x79 (schedule_at e) i) = gate_target (t i)" if "i \<noteq> 0x79" for i
    using that by (simp add: set_gate_other)
  ultimately show ?thesis
    using run 2(2) 3(2-4) 4(3) 5 out(2)
    by (intro exI [of _ k'] exI [of _ q] exI [of _ stk]) (simp add: k' s gate_target_set out_ready_def)
qed


text \<open>A kernel of 64 KB at 1 MB, with the word behind it that the code takes for its end.\<close>

definition sample_boot_env :: boot_env where
  "sample_boot_env = \<lparr>dev_in = (\<lambda>_ _. 0), isr_label = (\<lambda>n. 0x101000 + of_nat n), irq_label = (\<lambda>n. 0x102000 + of_nat n),
     idt_addr = 0x103000, pit_irq_addr = 0x104000, kernel_end = 0x110000, m_memcpy_at = 0x105000, m_display_at = 0x105004,
     str_buffer = 0x106000, on_set_msg = 0x107000, kernel_module = 0x107001, notified_at = 0x108000,
     schedule_at = 0x108100, idle_at = 0x108200, task1_at = 0x108300, late_init_at = 0x108400, idle_name = 0, task1_name = 0\<rparr>"

definition sample_ram :: mem where "sample_ram = (\<lambda>_. 0)(0x107001 := 75, 0x110002 := 0x11)"

lemma sample_ready:
  assumes "k_displays k = displays_start" "lpid (k_tasks k) = 0" "kernel_ram k = sample_ram"
  shows "boot_ready sample_boot_env k"
proof -
  have far: "4480 \<le> off x" if "0x100000 \<le> unat x" for x
    using that unat_sub_word [of x VGA_MEMORY] unat32_lt [of x] by (simp add: off_def VGA_MEMORY_def)
  note r = in_range_unat [of "0x106000" 34, simplified] in_range_unat [of "0x105000" 4, simplified]
    in_range_unat [of "0x105004" 4, simplified]
  have q: "untouched 0x105000 0x105004 0x106000 x" if "0x107000 \<le> unat x" for x
    using that by (auto simp: untouched_def far r)
  have sel: "m_memcpy_at sample_boot_env = 0x105000" "m_display_at sample_boot_env = 0x105004" "str_buffer sample_boot_env = 0x106000"
    "on_set_msg sample_boot_env = 0x107000" "kernel_module sample_boot_env = 0x107001" "kernel_end sample_boot_env = 0x110000"
    by (simp_all add: sample_boot_env_def)
  have a: "\<exists>cs. cstr sample_ram 0x107000 cs \<and> (\<forall>i \<le> length cs. untouched 0x105000 0x105004 0x106000 (0x107000 + of_nat i))"
    by (rule exI [of _ "[]"]) (simp add: sample_ram_def q)
  have b: "\<exists>cs. cstr sample_ram 0x107001 cs \<and> (\<forall>i \<le> length cs. untouched 0x105000 0x105004 0x106000 (0x107001 + of_nat i))"
    by (rule exI [of _ "[75]"]) (auto simp: sample_ram_def q le_Suc_eq)
  have c: "load32 sample_ram 0x110000 = 0x110000" by (simp add: load32_def sample_ram_def)
  have d: "apart 0x105000 0x105004 0x106000" by (auto simp: apart_def r far)
  have e: "lock_ready 0x105000 sample_ram" "mutex_pad_clear 0x105004 sample_ram" "sample_ram 0x105004 = 0"
    by (auto simp: lock_ready_def mutex_pad_clear_def sample_ram_def far)
  have f: "\<forall>i \<in> {0, 1, 2, 3}. untouched 0x105000 0x105004 0x106000 (0x110000 + i)" by (auto simp: q)
  have g: "unat (load32 sample_ram 0x110000) + 0x10ad + 8320 < 0x3E0000" by (simp add: c)
  show ?thesis
    unfolding boot_ready_def Let_def assms(3) sel by (intro conjI assms(1,2) a b d e f g)
qed


end
