(* ===== verification/Kernel_Print.thy ===== *)
theory Kernel_Print
  imports Boot
begin

text \<open>
  What prints the state of the kernel: \<open>tasking_print_all\<close> in \<open>src/tasking.c\<close>, which walks the ring of the
  processes, \<open>mm_print_out\<close> in \<open>src/memory/malloc.c\<close>, and the system call of \<open>src/syscall.c\<close>.
\<close>

section \<open>The code\<close>

definition kernel_kprintf :: "boot_env \<Rightarrow> uint8 list \<Rightarrow> uint32 list \<Rightarrow> kernel \<Rightarrow> kernel option" where
  "kernel_kprintf e fmt ap k = do {
     (len, st) \<leftarrow> kprintf (\<lambda>m. m) (m_display_at e) (str_buffer e) (display_get_current (k_displays k)) (Some fmt) ap
       (k_screen k, kernel_ram k);
     Some (set_kernel_ram (snd st) (k\<lparr>k_screen := fst st\<rparr>))
   }"

definition kernel_mprint :: "boot_env \<Rightarrow> addr \<Rightarrow> uint8 list \<Rightarrow> uint32 list \<Rightarrow> kernel \<Rightarrow> kernel option" where
  "kernel_mprint e md fmt ap k = do {
     st \<leftarrow> mprintf (\<lambda>m. m) (m_display_at e) (str_buffer e) (display_get_current (k_displays k)) md fmt ap (k_screen k, kernel_ram k);
     Some (set_kernel_ram (snd st) (k\<lparr>k_screen := fst st\<rparr>))
   }"

text \<open>The names of the states are constants at three addresses.\<close>

record state_names =
  zombie_text :: addr
  alive_text :: addr
  dead_text :: addr

definition state_text :: "state_names \<Rightarrow> uint8 \<Rightarrow> addr" where
  "state_text n st = (if st = PROCESS_STATE_ZOMBIE then zombie_text n else if st = PROCESS_STATE_ALIVE then alive_text n else dead_text n)"

definition print_process :: "boot_env \<Rightarrow> state_names \<Rightarrow> addr \<Rightarrow> kernel \<Rightarrow> kernel option" where
  "print_process e n p k = (let d = procs (k_tasks k) p in
     kernel_kprintf e (map of_char ''Process: %s (%d) %s'' @ [10, 0]) [p_name d, p_pid d, state_text n (p_state d)] k)"

partial_function (option) print_loop :: "boot_env \<Rightarrow> state_names \<Rightarrow> addr \<Rightarrow> addr \<Rightarrow> kernel \<Rightarrow> kernel option" where
  "print_loop e n orig p k = do {
     k1 \<leftarrow> print_process e n p k;
     let p' = p_nexts (k_tasks k1) p;
     if p' = orig then Some k1 else print_loop e n orig p' k1
   }"

definition tasking_print_all :: "boot_env \<Rightarrow> state_names \<Rightarrow> kernel \<Rightarrow> kernel option" where
  "tasking_print_all e n k = print_loop e n (cur (k_tasks k)) (cur (k_tasks k)) k"

definition mm_print_out :: "boot_env \<Rightarrow> kernel \<Rightarrow> kernel option" where
  "mm_print_out e k = (let h = kmem (k_tasks k) in do {
     k1 \<leftarrow> kernel_kprintf e (map of_char ''Memory used: %d bytes'' @ [10, 0]) [memory_used h] k;
     k2 \<leftarrow> kernel_kprintf e (map of_char ''Memory free: %d bytes'' @ [10, 0]) [heap_end h - heap_begin h - memory_used h] k1;
     k3 \<leftarrow> kernel_kprintf e (map of_char ''Heap size: %d bytes'' @ [10, 0]) [heap_end h - heap_begin h] k2;
     k4 \<leftarrow> kernel_kprintf e (map of_char ''Heap start: 0x%x'' @ [10, 0]) [heap_begin h] k3;
     k5 \<leftarrow> kernel_kprintf e (map of_char ''Heap end: 0x%x'' @ [10, 0]) [heap_end h] k4;
     kernel_kprintf e (map of_char ''PHeap start: 0x%x'' @ [10] @ map of_char ''PHeap end: 0x%x'' @ [10, 0]) [pheap_begin h, pheap_end h] k5
   })"

text \<open>\<open>eax\<close> is what the register holds when the call comes in.\<close>

definition syscall :: "boot_env \<Rightarrow> addr \<Rightarrow> uint32 \<Rightarrow> kernel \<Rightarrow> kernel option" where
  "syscall e md eax k = kernel_mprint e md (map of_char ''Received %d'' @ [10, 0]) [eax] k"

definition syscall_init :: "boot_env \<Rightarrow> addr \<Rightarrow> uint32 \<Rightarrow> kernel \<Rightarrow> kernel option" where
  "syscall_init e md syscall_at k = do {
     k1 \<leftarrow> kernel_mprint e md (map of_char ''Registering syscall interface'' @ [10, 0]) [] k;
     Some (k1\<lparr>k_idt := set_idt_gate (k_idt k1) 0x80 syscall_at\<rparr>)
   }"

section \<open>Printing the processes\<close>

text \<open>The kernel can print, and every process of the list has a name that printing does not touch.\<close>

definition text_safe :: "boot_env \<Rightarrow> mem \<Rightarrow> addr \<Rightarrow> bool" where
  "text_safe e m a \<longleftrightarrow> (\<exists>cs. cstr m a cs \<and> (\<forall>i \<le> length cs. boot_safe e (a + of_nat i)))"

definition can_print :: "boot_env \<Rightarrow> kernel \<Rightarrow> bool" where
  "can_print e k \<longleftrightarrow> display_get_current (k_displays k) = Some (boot_display e) \<and>
     out_ready (m_memcpy_at e) (m_display_at e) (k_screen k) (kernel_ram k) \<and> apart (m_memcpy_at e) (m_display_at e) (str_buffer e)"

definition only_printed :: "boot_env \<Rightarrow> kernel \<Rightarrow> kernel \<Rightarrow> bool" where
  "only_printed e k k' \<longleftrightarrow> can_print e k' \<and> (\<exists>m d. k' = set_kernel_ram m (k\<lparr>k_screen := d\<rparr>)) \<and>
     (\<forall>x. boot_safe e x \<longrightarrow> kernel_ram k' x = kernel_ram k x)"

lemma only_printedI:
  assumes "can_print e k'" "k' = set_kernel_ram m (k\<lparr>k_screen := d\<rparr>)" "\<forall>x. boot_safe e x \<longrightarrow> kernel_ram k' x = kernel_ram k x"
  shows "only_printed e k k'"
  using assms unfolding only_printed_def by blast

lemma only_printed_trans:
  assumes "only_printed e k k1" "only_printed e k1 k2"
  shows "only_printed e k k2"
proof -
  obtain m d m' d' where "k1 = set_kernel_ram m (k\<lparr>k_screen := d\<rparr>)" "k2 = set_kernel_ram m' (k1\<lparr>k_screen := d'\<rparr>)"
    using assms unfolding only_printed_def by blast
  then have "k2 = set_kernel_ram m' (k\<lparr>k_screen := d'\<rparr>)" by (simp add: set_kernel_ram_def set_kmem_def)
  with assms show ?thesis by (intro only_printedI [where m = m' and d = d']) (auto simp: only_printed_def)
qed

lemma only_printed_tasks:
  "only_printed e k k' \<Longrightarrow> procs (k_tasks k') = procs (k_tasks k) \<and> cur (k_tasks k') = cur (k_tasks k)"
  by (auto simp: only_printed_def)

lemma only_printed_safe:
  assumes "only_printed e k k'" "text_safe e (kernel_ram k) a"
  shows "text_safe e (kernel_ram k') a"
proof -
  obtain cs where cs: "cstr (kernel_ram k) a cs" "\<forall>i \<le> length cs. boot_safe e (a + of_nat i)"
    using assms(2) by (auto simp: text_safe_def)
  then have "cstr (kernel_ram k') a cs" using assms(1) by (intro cstr_frame [OF cs(1)]) (simp add: only_printed_def)
  with cs(2) show ?thesis by (auto simp: text_safe_def)
qed

lemma kernel_kprintf_ok:
  assumes c: "can_print e k" and f: "0 \<notin> set f" "length f < 65535"
    and a: "args_ok (kernel_ram k) (boot_safe e) (kitems f) ap"
  shows "\<exists>k'. kernel_kprintf e (f @ [0]) ap k = Some k' \<and> only_printed e k k'"
proof -
  have c': "display_get_current (k_displays k) = Some (boot_display e)"
    "out_ready (m_memcpy_at e) (m_display_at e) (k_screen k) (kernel_ram k)" "apart (m_memcpy_at e) (m_display_at e) (str_buffer e)"
    using c by (simp_all add: can_print_def)
  obtain len d m where r: "kprint_va_list (\<lambda>x. x) (m_display_at e) (str_buffer e) (Some (boot_display e)) (f @ [0]) ap
      (k_screen k, kernel_ram k) = Some (len, d, m)" "out_ready (m_memcpy_at e) (m_display_at e) d m"
      "\<forall>x. boot_safe e x \<longrightarrow> m x = kernel_ram k x"
    using kprint_ready [OF c'(2,3) f a, where msg = "on_set_msg e"] by blast
  have "only_printed e k (set_kernel_ram m (k\<lparr>k_screen := d\<rparr>))"
    by (rule only_printedI [where m = m and d = d]) (use r c' in \<open>simp_all add: can_print_def\<close>)
  with r(1) c'(1) show ?thesis by (auto simp: kernel_kprintf_def kprintf_def)
qed

lemma print_process_ok:
  assumes "can_print e k" "text_safe e (kernel_ram k) (p_name (procs (k_tasks k) p))"
    "text_safe e (kernel_ram k) (state_text n (p_state (procs (k_tasks k) p)))"
  shows "\<exists>k'. print_process e n p k = Some k' \<and> only_printed e k k'"
proof -
  let ?f = "map of_char ''Process: %s (%d) %s'' @ [10 :: uint8]"
  have it: "kitems ?f = map (Char \<circ> of_char) ''Process: '' @ [Conv 115, Char 32, Char 40, Conv 100, Char 41, Char 32, Conv 115, Char 10]"
    by code_simp
  have "args_ok (kernel_ram k) (boot_safe e) (kitems ?f) [p_name (procs (k_tasks k) p), p_pid (procs (k_tasks k) p),
      state_text n (p_state (procs (k_tasks k) p))]"
    using assms(2,3) unfolding it text_safe_def by auto
  moreover have "0 \<notin> set ?f" by code_simp
  moreover have "length ?f < 65535" by simp
  ultimately show ?thesis using kernel_kprintf_ok [OF assms(1), of ?f] by (simp add: print_process_def Let_def)
qed

text \<open>What \<open>tasking_print_all\<close> stands for: one line for each process, in the order of the ring.\<close>

fun print_each :: "boot_env \<Rightarrow> state_names \<Rightarrow> addr list \<Rightarrow> kernel \<Rightarrow> kernel option" where
  "print_each e n [] k = Some k"
| "print_each e n (p # ps) k = do { k1 \<leftarrow> print_process e n p k; print_each e n ps k1 }"

definition names_ok :: "boot_env \<Rightarrow> state_names \<Rightarrow> addr list \<Rightarrow> kernel \<Rightarrow> bool" where
  "names_ok e n ps k \<longleftrightarrow> (\<forall>p \<in> set ps. text_safe e (kernel_ram k) (p_name (procs (k_tasks k) p)) \<and>
     text_safe e (kernel_ram k) (state_text n (p_state (procs (k_tasks k) p))))"

lemma names_ok_printed: "names_ok e n ps k \<Longrightarrow> only_printed e k k' \<Longrightarrow> names_ok e n ps k'"
  by (simp add: names_ok_def only_printed_tasks only_printed_safe)

lemma print_each_ok:
  "can_print e k \<Longrightarrow> names_ok e n ps k \<Longrightarrow> ps \<noteq> [] \<Longrightarrow> \<exists>k'. print_each e n ps k = Some k' \<and> only_printed e k k'"
proof (induction ps arbitrary: k)
  case (Cons p ps)
  obtain k1 where 1: "print_process e n p k = Some k1" "only_printed e k k1"
    using print_process_ok [OF Cons.prems(1), of p n] Cons.prems(2) by (auto simp: names_ok_def)
  show ?case
  proof (cases "ps = []")
    case True
    with 1 show ?thesis by simp
  next
    case False
    have "names_ok e n ps k1" using names_ok_printed [OF _ 1(2), of n ps] Cons.prems(2) by (simp add: names_ok_def)
    moreover have "can_print e k1" using 1(2) by (simp add: only_printed_def)
    ultimately obtain k' where "print_each e n ps k1 = Some k'" "only_printed e k1 k'" using Cons.IH False by blast
    with 1 only_printed_trans show ?thesis by auto
  qed
qed simp

lemma print_loop_each:
  "can_print e k \<Longrightarrow> names_ok e n (p # ps) k \<Longrightarrow> segment (p_nexts (k_tasks k)) (p_prevs (k_tasks k)) p ps orig \<Longrightarrow>
   orig \<notin> set ps \<Longrightarrow> print_loop e n orig p k = print_each e n (p # ps) k"
proof (induction ps arbitrary: p k)
  case Nil
  obtain k1 where 1: "print_process e n p k = Some k1" "only_printed e k k1"
    using print_process_ok [OF Nil.prems(1), of p n] Nil.prems(2) by (auto simp: names_ok_def)
  then have "p_nexts (k_tasks k1) p = orig" using Nil.prems(3) by (simp add: p_nexts_def only_printed_tasks)
  with 1 show ?case by (subst print_loop.simps) simp
next
  case (Cons q ps)
  obtain k1 where 1: "print_process e n p k = Some k1" "only_printed e k k1"
    using print_process_ok [OF Cons.prems(1), of p n] Cons.prems(2) by (auto simp: names_ok_def)
  have same: "p_nexts (k_tasks k1) = p_nexts (k_tasks k)" "p_prevs (k_tasks k1) = p_prevs (k_tasks k)"
    using only_printed_tasks [OF 1(2)] by (simp_all add: p_nexts_def p_prevs_def fun_eq_iff)
  have "p_nexts (k_tasks k1) p = q" using Cons.prems(3) by (simp add: same)
  moreover have "names_ok e n (q # ps) k1"
    using names_ok_printed [OF _ 1(2), of n "q # ps"] Cons.prems(2) by (simp add: names_ok_def)
  moreover have "can_print e k1" using 1(2) by (simp add: only_printed_def)
  moreover have "q \<noteq> orig" using Cons.prems(4) by auto
  ultimately show ?case using Cons.IH [of k1 q] Cons.prems(3,4) 1(1) same by (subst print_loop.simps) simp
qed

lemma tasking_print_all_each:
  assumes "can_print e k" "task_ring (k_tasks k) xs" "names_ok e n (cur (k_tasks k) # xs) k"
  shows "tasking_print_all e n k = print_each e n (cur (k_tasks k) # xs) k"
  unfolding tasking_print_all_def
  by (rule print_loop_each) (use assms in \<open>auto simp: task_ring_def is_ring_def\<close>)

text \<open>
  The list of the processes: from a ring of processes whose names are strings that printing does not touch,
  \<open>tasking_print_all\<close> returns, after one line for every process, each once and in the order of the ring
  from the running one on; only the screen and the memory of the output are different afterwards.
\<close>

theorem tasking_print_all_prints_ring:
  assumes "can_print e k" "task_ring (k_tasks k) xs" "names_ok e n (cur (k_tasks k) # xs) k"
  shows "\<exists>k'. tasking_print_all e n k = Some k' \<and> print_each e n (cur (k_tasks k) # xs) k = Some k' \<and> only_printed e k k'"
  unfolding tasking_print_all_each [OF assms] using print_each_ok [OF assms(1,3)] by auto

section \<open>The system call\<close>

lemma kernel_mprint_ok:
  assumes c: "can_print e k" and f: "0 \<notin> set f" "length f < 65535"
    and a: "args_ok (kernel_ram k) (boot_safe e) (kitems f) ap" and md: "text_safe e (kernel_ram k) md"
  shows "\<exists>k'. kernel_mprint e md (f @ [0]) ap k = Some k' \<and> only_printed e k k'"
proof -
  have c': "display_get_current (k_displays k) = Some (boot_display e)"
    "out_ready (m_memcpy_at e) (m_display_at e) (k_screen k) (kernel_ram k)" "apart (m_memcpy_at e) (m_display_at e) (str_buffer e)"
    using c by (simp_all add: can_print_def)
  obtain cs where cs: "cstr (kernel_ram k) md cs" "\<forall>i \<le> length cs. boot_safe e (md + of_nat i)" using md by (auto simp: text_safe_def)
  obtain d m where r: "mprintf (\<lambda>x. x) (m_display_at e) (str_buffer e) (Some (boot_display e)) md (f @ [0]) ap
      (k_screen k, kernel_ram k) = Some (d, m)" "out_ready (m_memcpy_at e) (m_display_at e) d m"
      "\<forall>x. boot_safe e x \<longrightarrow> m x = kernel_ram k x"
    using mprintf_returns [OF c'(2,3) f a cs, where msg = "on_set_msg e"] by blast
  have "only_printed e k (set_kernel_ram m (k\<lparr>k_screen := d\<rparr>))"
    by (rule only_printedI [where m = m and d = d]) (use r c' in \<open>simp_all add: can_print_def\<close>)
  with r(1) c'(1) show ?thesis by (auto simp: kernel_mprint_def)
qed

text \<open>
  \<open>syscall_init\<close> leads the interrupt 0x80, and no other, to the handler, and a call of the handler prints and
  returns.
\<close>

theorem syscall_ready:
  assumes "can_print e k" "text_safe e (kernel_ram k) md"
  shows "\<exists>k'. syscall_init e md h k = Some k' \<and> gate_target (k_idt k' 0x80) = h \<and>
    (\<forall>v. v \<noteq> 0x80 \<longrightarrow> k_idt k' v = k_idt k v) \<and> (\<exists>k''. syscall e md eax k' = Some k'' \<and> only_printed e k' k'')"
proof -
  let ?f = "map of_char ''Registering syscall interface'' @ [10 :: uint8]" and ?g = "map of_char ''Received %d'' @ [10 :: uint8]"
  have "kitems ?f = map Char ?f" by code_simp
  moreover have "args_ok m Q (map Char cs) []" for m Q cs by (induction cs) simp_all
  ultimately have "args_ok (kernel_ram k) (boot_safe e) (kitems ?f) []" by simp
  moreover have "0 \<notin> set ?f" by code_simp
  ultimately obtain k1 where 1: "kernel_mprint e md (?f @ [0]) [] k = Some k1" "only_printed e k k1"
    using kernel_mprint_ok [OF assms(1) _ _ _ assms(2), of ?f "[]"] by auto
  let ?k = "k1\<lparr>k_idt := set_idt_gate (k_idt k1) 0x80 h\<rparr>"
  have "kernel_ram ?k = kernel_ram k1" by (simp add: kernel_ram_def)
  then have k: "can_print e ?k" "text_safe e (kernel_ram ?k) md"
    using 1(2) only_printed_safe [OF 1(2) assms(2)] by (simp_all add: only_printed_def can_print_def)
  have "kitems ?g = map (Char \<circ> of_char) ''Received '' @ [Conv 100, Char 10]" by code_simp
  then have "args_ok (kernel_ram ?k) (boot_safe e) (kitems ?g) [eax]" by simp
  moreover have "0 \<notin> set ?g" by code_simp
  ultimately obtain k2 where "kernel_mprint e md (?g @ [0]) [eax] ?k = Some k2" "only_printed e ?k k2"
    using kernel_mprint_ok [OF k(1) _ _ _ k(2), of ?g "[eax]"] by auto
  moreover have "k_idt k1 = k_idt k" using 1(2) by (auto simp: only_printed_def set_kernel_ram_def set_kmem_def)
  ultimately show ?thesis using 1(1)
    by (intro exI [of _ ?k]) (auto simp: syscall_init_def syscall_def gate_target_set set_gate_other)
qed

text \<open>A kernel with two processes, the second one a zombie; their names are \<open>K\<close> and empty.\<close>

definition sample_procs :: "addr \<Rightarrow> process" where
  "sample_procs = (\<lambda>_. zero_process)(0x300000 := zero_process\<lparr>p_name := 0x107001, p_pid := 1, p_next := 0x300100, p_prev := 0x300100\<rparr>,
     0x300100 := zero_process\<lparr>p_name := 0x107010, p_pid := 2, p_state := PROCESS_STATE_ZOMBIE, p_next := 0x300000, p_prev := 0x300000\<rparr>)"

definition sample_names :: state_names where
  "sample_names = \<lparr>zombie_text = 0x107020, alive_text = 0x107030, dead_text = 0x107040\<rparr>"

lemma sample_printing:
  "\<exists>k. can_print sample_boot_env k \<and> task_ring (k_tasks k) [0x300100] \<and> names_ok sample_boot_env sample_names (cur (k_tasks k) # [0x300100]) k \<and>
     cur (k_tasks k) = 0x300000 \<and> text_safe sample_boot_env (kernel_ram k) 0x107010"
proof -
  define k :: kernel where "k = undefined\<lparr>k_displays := displays_start\<lparr>cd := Some (boot_display sample_boot_env)\<rparr>, k_screen := text_start,
    k_tasks := undefined\<lparr>cur := 0x300000, procs := sample_procs, kmem := undefined\<lparr>ram := sample_ram\<rparr>\<rparr>\<rparr>"
  have k: "kernel_ram k = sample_ram" "k_screen k = text_start" "display_get_current (k_displays k) = Some (boot_display sample_boot_env)"
    "procs (k_tasks k) = sample_procs" "cur (k_tasks k) = 0x300000"
    by (simp_all add: k_def kernel_ram_def display_get_current_def)
  have sel: "m_memcpy_at sample_boot_env = 0x105000" "m_display_at sample_boot_env = 0x105004" "str_buffer sample_boot_env = 0x106000"
    by (simp_all add: sample_boot_env_def)
  have far: "4480 \<le> off x" if "0x100000 \<le> unat x" for x
    using that unat_sub_word [of x VGA_MEMORY] unat32_lt [of x] by (simp add: off_def VGA_MEMORY_def)
  note r = in_range_unat [of "0x106000" 34, simplified] in_range_unat [of "0x105000" 4, simplified]
    in_range_unat [of "0x105004" 4, simplified]
  have q: "boot_safe sample_boot_env x" if "0x107000 \<le> unat x" for x
    unfolding sel using that by (auto simp: untouched_def far r)
  have "can_print sample_boot_env k"
    unfolding can_print_def sel k
    by (auto simp: out_ready_def lock_ready_def mutex_pad_clear_def sample_ram_def cursor_ok_def text_start_def textmode_init_def
        apart_def r far)
  moreover have "task_ring (k_tasks k) [0x300100]"
    by (simp add: task_ring_def is_ring_def k p_nexts_def p_prevs_def sample_procs_def)
  moreover have t: "text_safe sample_boot_env sample_ram a" if "a \<in> {0x107010, 0x107020, 0x107030, 0x107040}" for a
    unfolding text_safe_def by (rule exI [of _ "[]"]) (use that in \<open>auto simp: sample_ram_def q\<close>)
  moreover have "text_safe sample_boot_env sample_ram 0x107001"
    unfolding text_safe_def by (rule exI [of _ "[75]"]) (auto simp: sample_ram_def q le_Suc_eq)
  ultimately show ?thesis
    by (intro exI [of _ k]) (simp add: names_ok_def k sample_procs_def state_text_def sample_names_def zero_process_def
        PROCESS_STATE_ZOMBIE_def PROCESS_STATE_ALIVE_def)
qed

theorem tasking_print_all_prints_ring_witness:
  "\<exists>k k'. tasking_print_all sample_boot_env sample_names k = Some k' \<and> print_each sample_boot_env sample_names [0x300000, 0x300100] k = Some k'"
proof -
  obtain k where k: "can_print sample_boot_env k" "task_ring (k_tasks k) [0x300100]"
    "names_ok sample_boot_env sample_names (cur (k_tasks k) # [0x300100]) k" "cur (k_tasks k) = 0x300000" using sample_printing by blast
  from tasking_print_all_prints_ring [OF k(1-3)] k(4) show ?thesis by auto
qed

theorem syscall_ready_witness:
  "\<exists>k k'. syscall_init sample_boot_env 0x107010 0x109000 k = Some k' \<and> gate_target (k_idt k' 0x80) = 0x109000"
proof -
  obtain k where "can_print sample_boot_env k" "text_safe sample_boot_env (kernel_ram k) 0x107010" using sample_printing by blast
  from syscall_ready [OF this, of "0x109000"] show ?thesis by blast
qed

section \<open>The figures of the heap\<close>

text \<open>A format that takes only numbers needs no strings in memory.\<close>

fun numbers_only :: "kitem list \<Rightarrow> nat \<Rightarrow> bool" where
  "numbers_only [] n = True"
| "numbers_only (Char c # its) n = numbers_only its n"
| "numbers_only (Conv t # its) n = (t \<noteq> 115 \<and> 0 < n \<and> numbers_only its (n - 1))"

lemma numbers_args: "numbers_only its (length ap) \<Longrightarrow> args_ok m Q its ap"
  by (induction m Q its ap rule: args_ok.induct) (auto split: list.splits)

lemma print_numbers_ok:
  assumes "can_print e k" "numbers_only (kitems f) (length ap)" "0 \<notin> set f" "length f < 65535"
  shows "\<exists>k'. kernel_kprintf e (f @ [0]) ap k = Some k' \<and> only_printed e k k'"
  by (rule kernel_kprintf_ok [OF assms(1,3,4) numbers_args [OF assms(2)]])

theorem mm_print_out_only_prints:
  assumes "can_print e k"
  shows "\<exists>k'. mm_print_out e k = Some k' \<and> only_printed e k k'"
proof -
  let ?u = "map of_char ''Memory used: %d bytes'' @ [10 :: uint8]" and ?f = "map of_char ''Memory free: %d bytes'' @ [10 :: uint8]"
    and ?s = "map of_char ''Heap size: %d bytes'' @ [10 :: uint8]" and ?b = "map of_char ''Heap start: 0x%x'' @ [10 :: uint8]"
    and ?e = "map of_char ''Heap end: 0x%x'' @ [10 :: uint8]"
    and ?p = "map of_char ''PHeap start: 0x%x'' @ [10] @ map of_char ''PHeap end: 0x%x'' @ [10 :: uint8]"
  have n: "numbers_only (kitems ?u) 1 \<and> 0 \<notin> set ?u \<and> length ?u < 65535" "numbers_only (kitems ?f) 1 \<and> 0 \<notin> set ?f \<and> length ?f < 65535"
    "numbers_only (kitems ?s) 1 \<and> 0 \<notin> set ?s \<and> length ?s < 65535" "numbers_only (kitems ?b) 1 \<and> 0 \<notin> set ?b \<and> length ?b < 65535"
    "numbers_only (kitems ?e) 1 \<and> 0 \<notin> set ?e \<and> length ?e < 65535" "numbers_only (kitems ?p) 2 \<and> 0 \<notin> set ?p \<and> length ?p < 65535"
    by (intro conjI, code_simp, code_simp, simp)+
  have next_: "\<exists>k'. kernel_kprintf e (f @ [0]) ap k1 = Some k' \<and> only_printed e k k'"
    if "only_printed e k k1" "numbers_only (kitems f) (length ap) \<and> 0 \<notin> set f \<and> length f < 65535" for f ap k1
    using print_numbers_ok [of e k1 f ap] that only_printed_trans [OF that(1)] by (auto simp: only_printed_def [of e k k1])
  let ?h = "kmem (k_tasks k)"
  obtain k1 where 1: "kernel_kprintf e (?u @ [0]) [memory_used ?h] k = Some k1" "only_printed e k k1"
    using print_numbers_ok [OF assms, of ?u "[memory_used ?h]"] n(1) by auto
  obtain k2 where 2: "kernel_kprintf e (?f @ [0]) [heap_end ?h - heap_begin ?h - memory_used ?h] k1 = Some k2" "only_printed e k k2"
    using next_ [OF 1(2), of ?f "[heap_end ?h - heap_begin ?h - memory_used ?h]"] n(2) by auto
  obtain k3 where 3: "kernel_kprintf e (?s @ [0]) [heap_end ?h - heap_begin ?h] k2 = Some k3" "only_printed e k k3"
    using next_ [OF 2(2), of ?s "[heap_end ?h - heap_begin ?h]"] n(3) by auto
  obtain k4 where 4: "kernel_kprintf e (?b @ [0]) [heap_begin ?h] k3 = Some k4" "only_printed e k k4"
    using next_ [OF 3(2), of ?b "[heap_begin ?h]"] n(4) by auto
  obtain k5 where 5: "kernel_kprintf e (?e @ [0]) [heap_end ?h] k4 = Some k5" "only_printed e k k5"
    using next_ [OF 4(2), of ?e "[heap_end ?h]"] n(5) by auto
  obtain k6 where 6: "kernel_kprintf e (?p @ [0]) [pheap_begin ?h, pheap_end ?h] k5 = Some k6" "only_printed e k k6"
    using next_ [OF 5(2), of ?p "[pheap_begin ?h, pheap_end ?h]"] n(6) by auto
  have "mm_print_out e k = Some k6" using 1(1) 2(1) 3(1) 4(1) 5(1) 6(1) by (simp add: mm_print_out_def Let_def)
  with 6(2) show ?thesis by blast
qed

section \<open>The end of the kernel\<close>

text \<open>
  \<open>kmain\<close> gives \<open>mm_init\<close> the word that lies behind the kernel image, not the address of the label. When
  that word is 0, as fresh memory is, everything between 4 KB and the pages is cleared, the kernel at 1 MB included.
\<close>

theorem mm_init_clears_kernel:
  "\<exists>h. mm_init s 0 = Some (Ret (), h) \<and> (\<forall>y. 0x1028 \<le> unat y \<longrightarrow> unat y < 0x3E0000 \<longrightarrow> ram h y = 0)"
proof -
  have "unat (0 :: uint32) + 4096 + 32 + 8 < 0x3E0000" by simp
  from mm_init_result [OF this, of s] obtain h where h: "mm_init s 0 = Some (Ret (), h)"
    "\<forall>y. \<not> in_range 0x1000 40 y \<longrightarrow> ram h y = (if in_range 0x1000 (0x3E0000 - 0x1000) y then 0 else ram s y)" by auto
  have "ram h y = 0" if "0x1028 \<le> unat y" "unat y < 0x3E0000" for y
    using h(2) that in_range_unat [of "0x1000" 40 y] in_range_unat [of "0x1000" "0x3E0000 - 0x1000" y] by simp
  with h(1) show ?thesis by blast
qed

theorem mm_init_clears_kernel_witness: "\<exists>h. mm_init sample_heap 0 = Some (Ret (), h) \<and> ram h 0x100000 = 0"
proof -
  obtain h where "mm_init sample_heap 0 = Some (Ret (), h)" "\<forall>y. 0x1028 \<le> unat y \<longrightarrow> unat y < 0x3E0000 \<longrightarrow> ram h y = 0"
    using mm_init_clears_kernel by blast
  then show ?thesis by auto
qed

end
