(* ===== verification/Device_Print.thy ===== *)
theory Device_Print
  imports Kernel_Print Vfs
begin

text \<open>
  The lists of the devices and of the mounts: \<open>device_print_out\<close> in \<open>src/device.c\<close> and \<open>list_mount\<close> in
  \<open>src/fs/vfs.c\<close>. The strings and the table of mounts are in the memory of the kernel; the name of a file
  system, none of which is in the program, is the parameter \<open>fs_name\<close>.
\<close>

section \<open>The code\<close>

record type_names =
  char_text :: addr
  block_text :: addr

definition DEVICE_CHAR :: uint32 where "DEVICE_CHAR = 1"

fun device_print_loop :: "boot_env \<Rightarrow> type_names \<Rightarrow> 'a dev_state_scheme \<Rightarrow> nat \<Rightarrow> nat \<Rightarrow> kernel \<Rightarrow> kernel option" where
  "device_print_loop e n s 0 i k = Some k"
| "device_print_loop e n s (Suc c) i k = (let d = devs s (device_get (of_nat i) s) in do {
     k1 \<leftarrow> kernel_kprintf e (map of_char ''id: %d, unique: %d, %s, %s'' @ [10, 0])
       [of_nat i, dv_unique_id d, if dv_type d = DEVICE_CHAR then char_text n else block_text n, dv_name d] k;
     device_print_loop e n s c (i + 1) k1
   })"

definition device_print_out :: "boot_env \<Rightarrow> type_names \<Rightarrow> 'a dev_state_scheme \<Rightarrow> kernel \<Rightarrow> kernel option" where
  "device_print_out e n s k = device_print_loop e n s (unat (lastid s)) 0 k"

fun list_mount_loop :: "boot_env \<Rightarrow> (addr \<Rightarrow> addr) \<Rightarrow> vfs_state \<Rightarrow> nat \<Rightarrow> nat \<Rightarrow> kernel \<Rightarrow> kernel option" where
  "list_mount_loop e fs_name s 0 i k = Some k"
| "list_mount_loop e fs_name s (Suc c) i k = (let p = mount_at (kernel_ram k) (mount_points s) i in
     if p = 0 then Some k
     else let d = devs s (mount_dev (kernel_ram k) p) in do {
       k1 \<leftarrow> kernel_kprintf e (map of_char ''%s on %s type: %s'' @ [10, 0])
         [dv_name d, mount_loc (kernel_ram k) p, fs_name (dv_fs d)] k;
       list_mount_loop e fs_name s c (i + 1) k1
     })"

definition list_mount :: "boot_env \<Rightarrow> (addr \<Rightarrow> addr) \<Rightarrow> vfs_state \<Rightarrow> kernel \<Rightarrow> (uint8 \<times> kernel) option" where
  "list_mount e fs_name s k = map_option (Pair 1) (list_mount_loop e fs_name s MAX_MOUNTS 0 k)"

section \<open>They print and return\<close>

lemma only_printed_refl: "can_print e k \<Longrightarrow> only_printed e k k"
  by (rule only_printedI [where m = "kernel_ram k" and d = "k_screen k"])
    (simp_all add: set_kernel_ram_def set_kmem_def kernel_ram_def)

lemma device_line_ok:
  assumes "can_print e k" "text_safe e (kernel_ram k) a" "text_safe e (kernel_ram k) b"
  shows "\<exists>k'. kernel_kprintf e (map of_char ''id: %d, unique: %d, %s, %s'' @ [10, 0]) [i, u, a, b] k = Some k' \<and> only_printed e k k'"
proof -
  let ?f = "map of_char ''id: %d, unique: %d, %s, %s'' @ [10 :: uint8]"
  have it: "kitems ?f = map (Char \<circ> of_char) ''id: '' @ [Conv 100] @ map (Char \<circ> of_char) '', unique: '' @
      [Conv 100, Char 44, Char 32, Conv 115, Char 44, Char 32, Conv 115, Char 10]" by code_simp
  have "args_ok (kernel_ram k) (boot_safe e) (kitems ?f) [i, u, a, b]"
    using assms(2,3) unfolding it text_safe_def by auto
  moreover have "0 \<notin> set ?f" by code_simp
  moreover have "length ?f < 65535" by simp
  ultimately show ?thesis using kernel_kprintf_ok [OF assms(1), of ?f] by simp
qed

lemma mount_line_ok:
  assumes "can_print e k" "text_safe e (kernel_ram k) a" "text_safe e (kernel_ram k) b" "text_safe e (kernel_ram k) c"
  shows "\<exists>k'. kernel_kprintf e (map of_char ''%s on %s type: %s'' @ [10, 0]) [a, b, c] k = Some k' \<and> only_printed e k k'"
proof -
  let ?f = "map of_char ''%s on %s type: %s'' @ [10 :: uint8]"
  have it: "kitems ?f = [Conv 115] @ map (Char \<circ> of_char) '' on '' @ [Conv 115] @ map (Char \<circ> of_char) '' type: '' @ [Conv 115, Char 10]"
    by code_simp
  have "args_ok (kernel_ram k) (boot_safe e) (kitems ?f) [a, b, c]"
    using assms(2-4) unfolding it text_safe_def by auto
  moreover have "0 \<notin> set ?f" by code_simp
  moreover have "length ?f < 65535" by simp
  ultimately show ?thesis using kernel_kprintf_ok [OF assms(1), of ?f] by simp
qed

theorem device_print_out_only_prints:
  assumes "can_print e k" "text_safe e (kernel_ram k) (char_text n)" "text_safe e (kernel_ram k) (block_text n)"
    and "\<forall>d \<in> set (device_list s). text_safe e (kernel_ram k) (dv_name d)"
  shows "\<exists>k'. device_print_out e n s k = Some k' \<and> only_printed e k k'"
proof -
  have "\<exists>k'. device_print_loop e n s c i k1 = Some k' \<and> only_printed e k k'"
    if "only_printed e k k1" "i + c \<le> unat (lastid s)" for c i k1
    using that
  proof (induction c arbitrary: i k1)
    case (Suc c)
    let ?d = "devs s (device_get (of_nat i) s)"
    have "?d \<in> set (device_list s)" using Suc.prems(2) by (auto simp: device_list_def)
    with assms(2-4) have t: "text_safe e (kernel_ram k1) (char_text n)" "text_safe e (kernel_ram k1) (block_text n)"
      "text_safe e (kernel_ram k1) (dv_name ?d)" using only_printed_safe [OF Suc.prems(1)] by blast+
    have "can_print e k1" using Suc.prems(1) by (simp add: only_printed_def)
    have "text_safe e (kernel_ram k1) (if dv_type ?d = DEVICE_CHAR then char_text n else block_text n)" using t(1,2) by simp
    from device_line_ok [OF \<open>can_print e k1\<close> this t(3), of "of_nat i" "dv_unique_id ?d"] obtain k2 where 2: "kernel_kprintf e (map of_char ''id: %d, unique: %d, %s, %s'' @ [10, 0])
        [of_nat i, dv_unique_id ?d, if dv_type ?d = DEVICE_CHAR then char_text n else block_text n, dv_name ?d] k1 = Some k2"
      "only_printed e k1 k2" by blast
    show ?case using Suc.IH [OF only_printed_trans [OF Suc.prems(1) 2(2)], of "i + 1"] Suc.prems(2) 2(1) by (simp add: Let_def)
  qed simp
  from this [OF only_printed_refl [OF assms(1)]] show ?thesis by (simp add: device_print_out_def)
qed

theorem list_mount_only_prints:
  assumes c: "can_print e k"
    and tab: "\<forall>i < MAX_MOUNTS. let p = mount_at (kernel_ram k) (mount_points s) i; d = devs s (mount_dev (kernel_ram k) p) in
      (\<forall>j < 4. boot_safe e (mount_points s + of_nat (4 * i) + of_nat j)) \<and>
      (p \<noteq> 0 \<longrightarrow> (\<forall>j < 8. boot_safe e (p + of_nat j)) \<and> text_safe e (kernel_ram k) (dv_name d) \<and>
        text_safe e (kernel_ram k) (mount_loc (kernel_ram k) p) \<and> text_safe e (kernel_ram k) (fs_name (dv_fs d)))"
  shows "\<exists>k'. list_mount e fs_name s k = Some (1, k') \<and> only_printed e k k'"
proof -
  have word: "load32 (kernel_ram k1) a = load32 (kernel_ram k) a" if "only_printed e k k1" "\<forall>j < 4. boot_safe e (a + of_nat j)" for k1 a
  proof -
    have "boot_safe e a" "boot_safe e (a + 1)" "boot_safe e (a + 2)" "boot_safe e (a + 3)"
      using that(2) [rule_format, of 0] that(2) [rule_format, of 1] that(2) [rule_format, of 2] that(2) [rule_format, of 3] by simp_all
    then show ?thesis using that(1) by (simp add: load32_def only_printed_def)
  qed
  have "\<exists>k'. list_mount_loop e fs_name s c i k1 = Some k' \<and> only_printed e k k'"
    if "only_printed e k k1" "i + c \<le> MAX_MOUNTS" for c i k1
    using that
  proof (induction c arbitrary: i k1)
    case (Suc c)
    define p where "p = mount_at (kernel_ram k) (mount_points s) i"
    have i: "i < MAX_MOUNTS" using Suc.prems(2) by simp
    have p1: "mount_at (kernel_ram k1) (mount_points s) i = p"
      unfolding p_def mount_at_def using tab [rule_format, OF i] by (intro word [OF Suc.prems(1)]) (simp add: Let_def)
    show ?case
    proof (cases "p = 0")
      case True
      with p1 Suc.prems(1) show ?thesis by simp
    next
      case False
      let ?d = "devs s (mount_dev (kernel_ram k) p)"
      have t: "\<forall>j < 8. boot_safe e (p + of_nat j)" "text_safe e (kernel_ram k) (dv_name ?d)"
        "text_safe e (kernel_ram k) (mount_loc (kernel_ram k) p)" "text_safe e (kernel_ram k) (fs_name (dv_fs ?d))"
        using tab [rule_format, OF i] False by (simp_all add: Let_def p_def)
      have "boot_safe e (p + 4 + of_nat j)" if "j < 4" for j
        using t(1) [rule_format, of "4 + j"] that by (simp add: ac_simps)
      then have w: "mount_loc (kernel_ram k1) p = mount_loc (kernel_ram k) p" "mount_dev (kernel_ram k1) p = mount_dev (kernel_ram k) p"
        unfolding mount_loc_def mount_dev_def using t(1) by (auto intro!: word [OF Suc.prems(1)])
      have "can_print e k1" using Suc.prems(1) by (simp add: only_printed_def)
      from mount_line_ok [OF this only_printed_safe [OF Suc.prems(1) t(2)] only_printed_safe [OF Suc.prems(1) t(3)]
          only_printed_safe [OF Suc.prems(1) t(4)]]
      obtain k2 where 2: "kernel_kprintf e (map of_char ''%s on %s type: %s'' @ [10, 0])
          [dv_name ?d, mount_loc (kernel_ram k) p, fs_name (dv_fs ?d)] k1 = Some k2" "only_printed e k1 k2" by blast
      show ?thesis using Suc.IH [OF only_printed_trans [OF Suc.prems(1) 2(2)], of "i + 1"] Suc.prems(2) 2(1) False
        by (simp add: Let_def p1 w)
    qed
  qed simp
  from this [OF only_printed_refl [OF c], of 0 MAX_MOUNTS] show ?thesis by (auto simp: list_mount_def)
qed

end
