(* ===== verification/Shell.thy ===== *)
theory Shell
  imports Keyboard Display Strtok Net_Stack
begin

text \<open>
  The shell, \<open>src/kshell.c\<close>, and the list of addresses that it prints, \<open>arp_dump_entries\<close> in
  \<open>src/net/arp.c\<close>: a line from the keyboard, its pieces, and the command. The state is that of the
  network, which holds the memory, of the keyboard and of the screen. The addresses of locks, constants and
  local variables are the record \<open>shell_env\<close>; \<open>sc_sched\<close> is what the locks take, \<open>sc_arrive\<close> what happens
  to the keyboard between two polls. \<open>None\<close> is a call that never returns, or a panic.
\<close>

section \<open>The code\<close>

record 'w shell_env =
  sc_sched :: "mem \<Rightarrow> mem"
  sc_memcpy :: addr
  sc_getkey :: addr
  sc_display :: addr
  sc_str :: addr
  sc_delim :: addr
  sc_split :: addr
  sc_clear :: addr
  sc_arp :: addr
  sc_ping :: addr
  sc_module :: addr
  sc_arp_module :: addr
  sc_array :: addr
  sc_old_addr :: IPv4Addr
  sc_as :: addr
  sc_ha :: addr
  sc_pa :: addr
  sc_dev :: "'w dev"
  sc_arrive :: "keyboard \<times> mem \<Rightarrow> keyboard \<times> mem"

record 'w shell =
  sh_net :: "'w net"
  sh_kbd :: keyboard
  sh_screen :: text_display
  sh_displays :: "text_display displays"

definition sh_ram :: "'w shell \<Rightarrow> mem" where "sh_ram s = nram (sh_net s)"

definition set_sh_ram :: "mem \<Rightarrow> 'w shell \<Rightarrow> 'w shell" where
  "set_sh_ram m s = s\<lparr>sh_net := set_nram m (sh_net s)\<rparr>"

definition shell_kprintf :: "'w shell_env \<Rightarrow> uint8 list \<Rightarrow> uint32 list \<Rightarrow> 'w shell \<Rightarrow> 'w shell option" where
  "shell_kprintf e fmt ap s = do {
     (len, st) \<leftarrow> kprintf (sc_sched e) (sc_display e) (sc_str e) (display_get_current (sh_displays s)) (Some fmt) ap
       (sh_screen s, sh_ram s);
     Some (set_sh_ram (snd st) (s\<lparr>sh_screen := fst st\<rparr>))
   }"

definition shell_mprint :: "'w shell_env \<Rightarrow> addr \<Rightarrow> uint8 list \<Rightarrow> uint32 list \<Rightarrow> 'w shell \<Rightarrow> 'w shell option" where
  "shell_mprint e md fmt ap s = do {
     st \<leftarrow> mprintf (sc_sched e) (sc_display e) (sc_str e) (display_get_current (sh_displays s)) md fmt ap
       (sh_screen s, sh_ram s);
     Some (set_sh_ram (snd st) (s\<lparr>sh_screen := fst st\<rparr>))
   }"

definition shell_get_key :: "'w shell_env \<Rightarrow> 'w shell \<Rightarrow> (uint8 \<times> 'w shell) option" where
  "shell_get_key e s = do {
     (ch, st) \<leftarrow> keyboard_get_key (sc_sched e) (sc_getkey e) (sh_kbd s, sh_ram s);
     Some (ch, set_sh_ram (snd st) (s\<lparr>sh_kbd := fst st\<rparr>))
   }"

definition shell_arrive :: "'w shell_env \<Rightarrow> 'w shell \<Rightarrow> 'w shell" where
  "shell_arrive e s = (let st = sc_arrive e (sh_kbd s, sh_ram s) in set_sh_ram (snd st) (s\<lparr>sh_kbd := fst st\<rparr>))"

text \<open>\<open>while (ch == 0) ch = keyboard_get_key();\<close>\<close>

partial_function (option) shell_wait_key :: "'w shell_env \<Rightarrow> 'w shell \<Rightarrow> (uint8 \<times> 'w shell) option" where
  "shell_wait_key e s = do {
     (ch, s1) \<leftarrow> shell_get_key e s;
     if ch = 0 then shell_wait_key e (shell_arrive e s1) else Some (ch, s1)
   }"

text \<open>The loop over the characters of the line; \<open>n\<close> rounds are left.\<close>

fun shell_read_line :: "nat \<Rightarrow> nat \<Rightarrow> 'w shell_env \<Rightarrow> addr \<Rightarrow> 'w shell \<Rightarrow> 'w shell option" where
  "shell_read_line 0 i e cmdbuf s = Some s"
| "shell_read_line (Suc n) i e cmdbuf s = do {
     (ch, s1) \<leftarrow> shell_wait_key e s;
     s2 \<leftarrow> shell_kprintf e [37, 99, 0] [scast ch] s1;
     if ch = 10 then Some s2
     else shell_read_line n (i + 1) e cmdbuf (set_sh_ram ((sh_ram s2)(cmdbuf + of_nat i := ch)) s2)
   }"

definition shell_line :: "'w shell_env \<Rightarrow> addr \<Rightarrow> 'w shell \<Rightarrow> 'w shell option" where
  "shell_line e cmdbuf s = do {
     s1 \<leftarrow> shell_kprintf e (map of_char ''KSH > '' @ [0]) [] (set_sh_ram (memset (sh_ram s) cmdbuf 0 0xFF) s);
     shell_read_line 255 0 e cmdbuf s1
   }"

text \<open>The commands: \<open>split\<close> prints the pieces, one a line.\<close>

fun shell_print_pieces :: "nat \<Rightarrow> nat \<Rightarrow> 'w shell_env \<Rightarrow> addr \<Rightarrow> 'w shell \<Rightarrow> 'w shell option" where
  "shell_print_pieces 0 i e split s = Some s"
| "shell_print_pieces (Suc n) i e split s = do {
     s1 \<leftarrow> shell_mprint e (sc_module e) [37, 115, 10, 0] [load32 (sh_ram s) (split + 4 * of_nat i)] s;
     shell_print_pieces n (i + 1) e split s1
   }"

text \<open>\<open>arp_dump_entries\<close>, at entry \<open>i\<close>.\<close>

fun arp_dump_loop :: "ArpEntry list \<Rightarrow> nat \<Rightarrow> 'w shell_env \<Rightarrow> 'w shell \<Rightarrow> 'w shell option" where
  "arp_dump_loop [] i e s = Some s"
| "arp_dump_loop (en # ens) i e s =
     (if ae_pa en = 0 then arp_dump_loop ens (i + 1) e s
      else do {
        let m0 = memset (memset (sh_ram s) (sc_ha e) 0 18) (sc_pa e) 0 16;
        (l1, m1) \<leftarrow> addr_eth_tostr (sc_ha e) 18 (ae_ha en) m0;
        (l2, m2) \<leftarrow> addr_ipv4_tostr (sc_pa e) 16 (ae_pa en) m1;
        s1 \<leftarrow> shell_mprint e (sc_arp_module e) (map of_char ''#%d MAC=%s IP=%s'' @ [10, 0]) [of_nat i, sc_ha e, sc_pa e]
          (set_sh_ram m2 s);
        arp_dump_loop ens (i + 1) e s1
      })"

definition arp_dump_entries :: "'w shell_env \<Rightarrow> 'w shell \<Rightarrow> 'w shell option" where
  "arp_dump_entries e s = arp_dump_loop (take ARP_CACHE_SIZE (arpCache (sh_net s))) 0 e s"

text \<open>
  \<open>ping\<close>: \<open>sc_array\<close> is the local array of \<open>addr_strto_ipv4\<close>, \<open>sc_old_addr\<close> what lies on the stack in the
  place of \<open>addr\<close>; the result of \<open>addr_strto_ipv4\<close> is not looked at.
\<close>

definition shell_ping :: "'w shell_env \<Rightarrow> addr \<Rightarrow> 'w shell \<Rightarrow> 'w shell option" where
  "shell_ping e split s = do {
     str \<leftarrow> read_cstr (sh_ram s) (load32 (sh_ram s) (split + 4));
     (ok, a, m1) \<leftarrow> addr_strto_ipv4 (sc_array e) (sc_old_addr e) (str @ [0]) (sh_ram s);
     (len, m2) \<leftarrow> addr_ipv4_tostr (sc_as e) 16 a m1;
     s1 \<leftarrow> shell_mprint e (sc_module e) (map of_char ''pinging %s'' @ [10, 0]) [sc_as e] (set_sh_ram m2 s);
     n \<leftarrow> icmp_echo_request (sc_sched e) (sc_memcpy e) (sc_dev e) a 0 0 0 0 (sh_net s1);
     Some (s1\<lparr>sh_net := n\<rparr>)
   }"

definition shell_clear :: "'w shell \<Rightarrow> 'w shell option" where
  "shell_clear s = do {
     st \<leftarrow> display_clear (sh_displays s) (sh_screen s, sh_ram s);
     Some (set_sh_ram (snd st) (s\<lparr>sh_screen := fst st\<rparr>))
   }"

text \<open>\<open>if (!strcmp(p, name)) body\<close>.\<close>

definition when_equal :: "addr \<Rightarrow> addr \<Rightarrow> ('w shell \<Rightarrow> 'w shell option) \<Rightarrow> 'w shell \<Rightarrow> 'w shell option" where
  "when_equal p name body s = do { r \<leftarrow> strcmp (sh_ram s) p name; if r = 0 then body s else Some s }"

definition shell_command :: "'w shell_env \<Rightarrow> addr \<Rightarrow> 'w shell \<Rightarrow> 'w shell option" where
  "shell_command e cmdbuf s = do {
     (r, splitcount, h) \<leftarrow> strtok cmdbuf (sc_delim e) (nmm (sh_net s));
     case r of
       Panic \<Rightarrow> None
     | Ret split \<Rightarrow> do {
         let s0 = s\<lparr>sh_net := (sh_net s)\<lparr>nmm := h\<rparr>\<rparr>;
         s1 \<leftarrow> when_equal (load32 (sh_ram s0) split) (sc_split e) (shell_print_pieces (unat splitcount) 0 e split) s0;
         s2 \<leftarrow> when_equal cmdbuf (sc_clear e) shell_clear s1;
         s3 \<leftarrow> when_equal cmdbuf (sc_arp e) (arp_dump_entries e) s2;
         s4 \<leftarrow> when_equal cmdbuf (sc_ping e) (shell_ping e split) s3;
         Some (s4\<lparr>sh_net := (sh_net s4)\<lparr>nmm := free (nmm (sh_net s4)) split\<rparr>\<rparr>)
       }
   }"

text \<open>One round of the loop of \<open>kshell_init\<close>, and what comes before the loop.\<close>

definition kshell_round :: "'w shell_env \<Rightarrow> addr \<Rightarrow> 'w shell \<Rightarrow> 'w shell option" where
  "kshell_round e cmdbuf s = do { s1 \<leftarrow> shell_line e cmdbuf s; shell_command e cmdbuf s1 }"

definition kshell_start :: "'w shell \<Rightarrow> (addr \<times> 'w shell) option" where
  "kshell_start s = do {
     (cmdbuf, n1) \<leftarrow> kalloc 0xFF (sh_net s);
     n2 \<leftarrow> net_route_add (ipv4_of_n 0 0 0 0) (ipv4_of_n 0 0 0 0) (Some (ipv4_of_n 192 168 2 1))
       (lnk_next (nlinks n1 (g_netIntfList n1))) n1;
     Some (cmdbuf, s\<lparr>sh_net := n2\<rparr>)
   }"

section \<open>Printing and reading keys\<close>

lemma sh_ram_simps [simp]:
  "sh_ram (set_sh_ram m s) = m" "sh_kbd (set_sh_ram m s) = sh_kbd s" "sh_screen (set_sh_ram m s) = sh_screen s"
  "sh_displays (set_sh_ram m s) = sh_displays s" "set_sh_ram m (set_sh_ram m' s) = set_sh_ram m s"
  "sh_ram (s\<lparr>sh_screen := d\<rparr>) = sh_ram s" "sh_ram (s\<lparr>sh_kbd := k\<rparr>) = sh_ram s"
  by (simp_all add: sh_ram_def set_sh_ram_def nram_def set_nram_def)

abbreviation sc_untouched :: "'w shell_env \<Rightarrow> addr \<Rightarrow> bool" where
  "sc_untouched e \<equiv> untouched (sc_memcpy e) (sc_display e) (sc_str e)"

text \<open>
  The shell can work: nobody else runs in the locks, the text mode is the current display, all
  locks are free, and the memory of the keyboard is apart from that of the output.
\<close>

definition shell_ready :: "'w shell_env \<Rightarrow> 'w shell \<Rightarrow> bool" where
  "shell_ready e s \<longleftrightarrow> sc_sched e = (\<lambda>m. m) \<and>
     (\<exists>msg. display_get_current (sh_displays s) = Some (textmode_display (\<lambda>m. m) (sc_memcpy e) msg)) \<and>
     apart (sc_memcpy e) (sc_display e) (sc_str e) \<and>
     out_ready (sc_memcpy e) (sc_display e) (sh_screen s) (sh_ram s) \<and> kbd_ok (sc_getkey e) (sh_kbd s, sh_ram s) \<and>
     (\<forall>x. in_range (keycache (sh_kbd s)) 256 x \<or> in_range (sc_getkey e) 4 x \<longrightarrow> sc_untouched e x)"

text \<open>The keys that wait, and memory that neither reading nor printing changes.\<close>

definition keys :: "'w shell \<Rightarrow> uint8 list" where "keys s = pending (sh_kbd s, sh_ram s)"

definition quiet :: "'w shell_env \<Rightarrow> 'w shell \<Rightarrow> addr \<Rightarrow> bool" where
  "quiet e s x \<longleftrightarrow> sc_untouched e x \<and> \<not> in_range (keycache (sh_kbd s)) 256 x"

lemma kbd_cong:
  assumes "kbd_ok lk (k, m)" "\<And>x. in_range (keycache k) 256 x \<or> in_range lk 4 x \<Longrightarrow> m' x = m x"
  shows "kbd_ok lk (k, m')" "pending (k, m') = pending (k, m)"
proof -
  have "in_range lk 4 lk" "in_range lk 4 (lk + 1)" "in_range lk 4 (lk + 2)" "in_range lk 4 (lk + 3)"
    by (simp_all add: in_range_def)
  then show "kbd_ok lk (k, m')" using assms by (simp add: kbd_ok_def mutex_pad_clear_def)
  have n: "unat (key_loc k) \<le> 256" using assms(1) by (simp add: kbd_ok_def word_le_nat_alt)
  have "in_range (keycache k) 256 (keycache k + of_nat i)" if "i < unat (key_loc k)" for i
    using that n by (simp add: in_range_def word_less_nat_alt unat_of_nat_small)
  then show "pending (k, m') = pending (k, m)" using assms(2) by (simp add: pending_def)
qed

lemma keyboard_get_key_keeps:
  "keyboard_get_key sched lk (k, m) = Some (c, k', m') \<Longrightarrow> keycache k' = keycache k"
  by (auto simp: keyboard_get_key_def get_key_body_def get_key_take_def get_key_shift_def Let_def
      split: Option.bind_splits prod.splits if_splits)

lemma shell_ready_print:
  assumes "shell_ready e s" "out_ready (sc_memcpy e) (sc_display e) d m" "\<forall>x. sc_untouched e x \<longrightarrow> m x = sh_ram s x"
  shows "shell_ready e (set_sh_ram m (s\<lparr>sh_screen := d\<rparr>))" "keys (set_sh_ram m (s\<lparr>sh_screen := d\<rparr>)) = keys s"
proof -
  have k: "kbd_ok (sc_getkey e) (sh_kbd s, sh_ram s)" and
    m: "in_range (keycache (sh_kbd s)) 256 x \<or> in_range (sc_getkey e) 4 x \<Longrightarrow> m x = sh_ram s x" for x
    using assms(1,3) by (auto simp: shell_ready_def)
  have "kbd_ok (sc_getkey e) (sh_kbd s, m)" "pending (sh_kbd s, m) = pending (sh_kbd s, sh_ram s)"
    using kbd_cong [OF k m] by simp_all
  with assms(1,2) show "shell_ready e (set_sh_ram m (s\<lparr>sh_screen := d\<rparr>))"
    "keys (set_sh_ram m (s\<lparr>sh_screen := d\<rparr>)) = keys s"
    by (simp_all add: shell_ready_def keys_def)
qed

lemma shell_kprintf_ok:
  assumes r: "shell_ready e s" and f: "0 \<notin> set body" "length body < 65535"
    and a: "args_ok (sh_ram s) (sc_untouched e) (kitems body) ap"
  shows "\<exists>m d. shell_kprintf e (body @ [0]) ap s = Some (set_sh_ram m (s\<lparr>sh_screen := d\<rparr>)) \<and>
    shell_ready e (set_sh_ram m (s\<lparr>sh_screen := d\<rparr>)) \<and> keys (set_sh_ram m (s\<lparr>sh_screen := d\<rparr>)) = keys s \<and>
    (\<forall>x. sc_untouched e x \<longrightarrow> m x = sh_ram s x)"
proof -
  obtain msg where c: "display_get_current (sh_displays s) = Some (textmode_display (\<lambda>m. m) (sc_memcpy e) msg)"
    and i: "sc_sched e = (\<lambda>m. m)" and o: "out_ready (sc_memcpy e) (sc_display e) (sh_screen s) (sh_ram s)"
    and p: "apart (sc_memcpy e) (sc_display e) (sc_str e)"
    using r by (auto simp: shell_ready_def)
  obtain len d m where k: "kprint_va_list (\<lambda>x. x) (sc_display e) (sc_str e) (Some (textmode_display (\<lambda>x. x) (sc_memcpy e) msg))
      (body @ [0]) ap (sh_screen s, sh_ram s) = Some (len, d, m)" "out_ready (sc_memcpy e) (sc_display e) d m"
      "\<forall>x. sc_untouched e x \<longrightarrow> m x = sh_ram s x"
    using kprint_ready [OF o p f a, where msg = msg] by blast
  then have "shell_kprintf e (body @ [0]) ap s = Some (set_sh_ram m (s\<lparr>sh_screen := d\<rparr>))"
    by (simp add: shell_kprintf_def kprintf_def c i)
  with shell_ready_print [OF r k(2,3)] k(3) show ?thesis by blast
qed

lemma shell_mprint_ok:
  assumes r: "shell_ready e s" and f: "0 \<notin> set body" "length body < 65535"
    and a: "args_ok (sh_ram s) (sc_untouched e) (kitems body) ap"
    and nm: "cstr (sh_ram s) nm cs" "\<forall>i \<le> length cs. sc_untouched e (nm + of_nat i)"
  shows "\<exists>m d. shell_mprint e nm (body @ [0]) ap s = Some (set_sh_ram m (s\<lparr>sh_screen := d\<rparr>)) \<and>
    shell_ready e (set_sh_ram m (s\<lparr>sh_screen := d\<rparr>)) \<and> keys (set_sh_ram m (s\<lparr>sh_screen := d\<rparr>)) = keys s \<and>
    (\<forall>x. sc_untouched e x \<longrightarrow> m x = sh_ram s x)"
proof -
  obtain msg where c: "display_get_current (sh_displays s) = Some (textmode_display (\<lambda>m. m) (sc_memcpy e) msg)"
    and i: "sc_sched e = (\<lambda>m. m)" and o: "out_ready (sc_memcpy e) (sc_display e) (sh_screen s) (sh_ram s)"
    and p: "apart (sc_memcpy e) (sc_display e) (sc_str e)"
    using r by (auto simp: shell_ready_def)
  obtain d m where k: "mprintf (\<lambda>x. x) (sc_display e) (sc_str e) (Some (textmode_display (\<lambda>x. x) (sc_memcpy e) msg)) nm
      (body @ [0]) ap (sh_screen s, sh_ram s) = Some (d, m)" "out_ready (sc_memcpy e) (sc_display e) d m"
      "\<forall>x. sc_untouched e x \<longrightarrow> m x = sh_ram s x"
    using mprintf_returns [OF o p f a nm, where msg = msg] by blast
  then have "shell_mprint e nm (body @ [0]) ap s = Some (set_sh_ram m (s\<lparr>sh_screen := d\<rparr>))"
    by (simp add: shell_mprint_def c i)
  with shell_ready_print [OF r k(2,3)] k(3) show ?thesis by blast
qed

text \<open>A key that waits is taken at once.\<close>

lemma shell_wait_key_ok:
  assumes r: "shell_ready e s" and k: "keys s = c # q" "c \<noteq> 0"
  shows "\<exists>s'. shell_wait_key e s = Some (c, s') \<and> shell_ready e s' \<and> keys s' = q \<and> keycache (sh_kbd s') = keycache (sh_kbd s) \<and>
    (\<forall>x. quiet e s x \<longrightarrow> sh_ram s' x = sh_ram s x) \<and> (\<exists>m kb. s' = set_sh_ram m (s\<lparr>sh_kbd := kb\<rparr>))"
proof -
  have kb: "kbd_ok (sc_getkey e) (sh_kbd s, sh_ram s)" and i: "sc_sched e = (\<lambda>m. m)"
    and o: "out_ready (sc_memcpy e) (sc_display e) (sh_screen s) (sh_ram s)"
    and far: "\<forall>x. in_range (keycache (sh_kbd s)) 256 x \<or> in_range (sc_getkey e) 4 x \<longrightarrow> sc_untouched e x"
    using r by (auto simp: shell_ready_def)
  obtain kb' m' where g: "keyboard_get_key (\<lambda>x. x) (sc_getkey e) (sh_kbd s, sh_ram s) = Some (c, kb', m')"
      "kbd_ok (sc_getkey e) (kb', m')" "pending (kb', m') = q" "\<forall>x. \<not> in_range (keycache (sh_kbd s)) 256 x \<longrightarrow> m' x = sh_ram s x"
    using keyboard_get_key_free [OF kb] k(1) by (auto simp: keys_def)
  have kc: "keycache kb' = keycache (sh_kbd s)"
    using keyboard_get_key_keeps [OF g(1)] .
  let ?s = "set_sh_ram m' (s\<lparr>sh_kbd := kb'\<rparr>)"
  have w: "shell_wait_key e s = Some (c, ?s)"
    using g(1) k(2) i by (subst shell_wait_key.simps) (simp add: shell_get_key_def)
  have out: "m' x = sh_ram s x" if "in_range (sc_memcpy e) 4 x \<or> in_range (sc_display e) 4 x" for x
    using g(4) far that by (auto simp: untouched_def)
  have "in_range p 4 p" "in_range p 4 (p + 1)" "in_range p 4 (p + 2)" "in_range p 4 (p + 3)" for p
    by (simp_all add: in_range_def)
  then have "out_ready (sc_memcpy e) (sc_display e) (sh_screen s) m'"
    using o out by (simp add: out_ready_def lock_ready_def mutex_pad_clear_def)
  then have "shell_ready e ?s" using r g(2) kc by (simp add: shell_ready_def)
  then show ?thesis using w g(3,4) kc by (intro exI [of _ ?s]) (auto simp: keys_def quiet_def)
qed


section \<open>Reading a line\<close>

text \<open>The buffer of the line is apart from everything that reading and printing use.\<close>

definition line_cell :: "'w shell_env \<Rightarrow> 'w shell \<Rightarrow> addr \<Rightarrow> bool" where
  "line_cell e s x \<longleftrightarrow> quiet e s x \<and> \<not> in_range (sc_getkey e) 4 x"

lemma shell_ready_poke:
  assumes r: "shell_ready e s" and m: "\<And>x. \<not> line_cell e s x \<Longrightarrow> m x = sh_ram s x"
  shows "shell_ready e (set_sh_ram m s)" "keys (set_sh_ram m s) = keys s"
proof -
  have kb: "kbd_ok (sc_getkey e) (sh_kbd s, sh_ram s)"
    and o: "out_ready (sc_memcpy e) (sc_display e) (sh_screen s) (sh_ram s)" using r by (auto simp: shell_ready_def)
  have k: "m x = sh_ram s x" if "in_range (keycache (sh_kbd s)) 256 x \<or> in_range (sc_getkey e) 4 x" for x
    using m that by (auto simp: line_cell_def quiet_def)
  have out: "m x = sh_ram s x" if "in_range (sc_memcpy e) 4 x \<or> in_range (sc_display e) 4 x" for x
    using m that by (auto simp: line_cell_def quiet_def untouched_def)
  have "in_range p 4 p" "in_range p 4 (p + 1)" "in_range p 4 (p + 2)" "in_range p 4 (p + 3)" for p
    by (simp_all add: in_range_def)
  then have "out_ready (sc_memcpy e) (sc_display e) (sh_screen s) m"
    using o out by (simp add: out_ready_def lock_ready_def mutex_pad_clear_def)
  with r kbd_cong [OF kb k] show "shell_ready e (set_sh_ram m s)" "keys (set_sh_ram m s) = keys s"
    by (simp_all add: shell_ready_def keys_def)
qed

text \<open>What may be different after a line has been read: the memory, the keyboard and the screen.\<close>

definition moved :: "'w shell \<Rightarrow> 'w shell \<Rightarrow> bool" where
  "moved s s' \<longleftrightarrow> (\<exists>m kb d. s' = set_sh_ram m (s\<lparr>sh_kbd := kb, sh_screen := d\<rparr>)) \<and> keycache (sh_kbd s') = keycache (sh_kbd s)"

lemma movedI:
  assumes "s' = set_sh_ram m (s\<lparr>sh_kbd := kb, sh_screen := d\<rparr>)" "keycache kb = keycache (sh_kbd s)"
  shows "moved s s'"
  unfolding moved_def
proof
  show "\<exists>m kb d. s' = set_sh_ram m (s\<lparr>sh_kbd := kb, sh_screen := d\<rparr>)" using assms(1) by blast
  show "keycache (sh_kbd s') = keycache (sh_kbd s)" using assms by simp
qed

lemma moved_refl: "moved s s"
  by (rule movedI [where m = "sh_ram s" and kb = "sh_kbd s" and d = "sh_screen s"]) (simp_all add: set_sh_ram_def sh_ram_def nram_def set_nram_def)

lemma moved_trans:
  assumes "moved s s1" "moved s1 s2"
  shows "moved s s2"
proof -
  obtain m kb d m' kb' d' where "s1 = set_sh_ram m (s\<lparr>sh_kbd := kb, sh_screen := d\<rparr>)"
    and 2: "s2 = set_sh_ram m' (s1\<lparr>sh_kbd := kb', sh_screen := d'\<rparr>)" using assms unfolding moved_def by blast
  then have "s2 = set_sh_ram m' (s\<lparr>sh_kbd := kb', sh_screen := d'\<rparr>)" by (simp add: set_sh_ram_def set_nram_def)
  moreover have "keycache kb' = keycache (sh_kbd s)" using assms 2 by (simp add: moved_def)
  ultimately show ?thesis by (rule movedI)
qed

lemma moved_kbd:
  assumes "\<exists>m kb. s' = set_sh_ram m (s\<lparr>sh_kbd := kb\<rparr>)" "keycache (sh_kbd s') = keycache (sh_kbd s)"
  shows "moved s s'"
proof -
  obtain m kb where m: "s' = set_sh_ram m (s\<lparr>sh_kbd := kb\<rparr>)" using assms(1) by blast
  show ?thesis by (rule movedI [where m = m and kb = kb and d = "sh_screen s"]) (use m assms(2) in simp_all)
qed

lemma moved_cells: "moved s s' \<Longrightarrow> quiet e s' = quiet e s" "moved s s' \<Longrightarrow> line_cell e s' = line_cell e s"
  unfolding moved_def quiet_def line_cell_def by (simp_all add: fun_eq_iff)

lemma shell_char_ok:
  assumes r: "shell_ready e s"
  shows "\<exists>s'. shell_kprintf e [37, 99, 0] [c] s = Some s' \<and> shell_ready e s' \<and> keys s' = keys s \<and> moved s s' \<and>
    (\<forall>x. sc_untouched e x \<longrightarrow> sh_ram s' x = sh_ram s x)"
proof -
  have i: "kitems [37, 99] = [Conv 99]" by code_simp
  have "args_ok (sh_ram s) (sc_untouched e) (kitems [37, 99]) [c]" by (simp add: i)
  from shell_kprintf_ok [OF r _ _ this] obtain m d where
    k: "shell_kprintf e [37, 99, 0] [c] s = Some (set_sh_ram m (s\<lparr>sh_screen := d\<rparr>))"
    "shell_ready e (set_sh_ram m (s\<lparr>sh_screen := d\<rparr>))" "keys (set_sh_ram m (s\<lparr>sh_screen := d\<rparr>)) = keys s"
    "\<forall>x. sc_untouched e x \<longrightarrow> m x = sh_ram s x" by auto
  moreover have "moved s (set_sh_ram m (s\<lparr>sh_screen := d\<rparr>))"
    by (rule movedI [where m = m and kb = "sh_kbd s" and d = d]) simp_all
  ultimately show ?thesis by (intro exI [of _ "set_sh_ram m (s\<lparr>sh_screen := d\<rparr>)"]) simp
qed

lemma read_line_ok:
  assumes "shell_ready e s" "keys s = cs @ 10 # q" "0 \<notin> set cs" "10 \<notin> set cs" "length cs < n"
    and "\<forall>j < length cs. line_cell e s (cmd + of_nat (i + j))" "i + n \<le> 255"
  shows "\<exists>s'. shell_read_line n i e cmd s = Some s' \<and> shell_ready e s' \<and> keys s' = q \<and> moved s s' \<and>
    (\<forall>j < length cs. sh_ram s' (cmd + of_nat (i + j)) = cs ! j) \<and>
    (\<forall>x. quiet e s x \<longrightarrow> (\<forall>j < length cs. x \<noteq> cmd + of_nat (i + j)) \<longrightarrow> sh_ram s' x = sh_ram s x)"
  using assms
proof (induction cs arbitrary: s n i)
  case Nil
  then obtain n' where n: "n = Suc n'" by (cases n) auto
  obtain s1 where 1: "shell_wait_key e s = Some (10, s1)" "shell_ready e s1" "keys s1 = q"
      "keycache (sh_kbd s1) = keycache (sh_kbd s)" "\<forall>x. quiet e s x \<longrightarrow> sh_ram s1 x = sh_ram s x"
      "\<exists>m kb. s1 = set_sh_ram m (s\<lparr>sh_kbd := kb\<rparr>)"
    using shell_wait_key_ok [OF Nil(1), of 10 q] Nil(2) by auto
  have m1: "moved s s1" by (rule moved_kbd [OF 1(6,4)])
  obtain s2 where 2: "shell_kprintf e [37, 99, 0] [scast (10 :: uint8)] s1 = Some s2" "shell_ready e s2" "keys s2 = keys s1"
      "moved s1 s2" "\<forall>x. sc_untouched e x \<longrightarrow> sh_ram s2 x = sh_ram s1 x"
    using shell_char_ok [OF 1(2)] by blast
  have "shell_read_line n i e cmd s = Some s2" using 1(1) 2(1) by (simp add: n)
  with 1 2 moved_trans [OF m1 2(4)] show ?case by (auto simp: quiet_def)
next
  case (Cons c cs)
  then obtain n' where n: "n = Suc n'" "length cs < n'" by (cases n) auto
  have c: "c \<noteq> 0" "c \<noteq> 10" using Cons.prems(3,4) by auto
  obtain s1 where 1: "shell_wait_key e s = Some (c, s1)" "shell_ready e s1" "keys s1 = cs @ 10 # q"
      "keycache (sh_kbd s1) = keycache (sh_kbd s)" "\<forall>x. quiet e s x \<longrightarrow> sh_ram s1 x = sh_ram s x"
      "\<exists>m kb. s1 = set_sh_ram m (s\<lparr>sh_kbd := kb\<rparr>)"
    using shell_wait_key_ok [OF Cons.prems(1), of c "cs @ 10 # q"] Cons.prems(2) c by auto
  have m1: "moved s s1" by (rule moved_kbd [OF 1(6,4)])
  obtain s2 where 2: "shell_kprintf e [37, 99, 0] [scast c] s1 = Some s2" "shell_ready e s2" "keys s2 = keys s1"
      "moved s1 s2" "\<forall>x. sc_untouched e x \<longrightarrow> sh_ram s2 x = sh_ram s1 x"
    using shell_char_ok [OF 1(2)] by blast
  have m2: "moved s s2" by (rule moved_trans [OF m1 2(4)])
  let ?a = "cmd + of_nat i" and ?s3 = "set_sh_ram ((sh_ram s2)(cmd + of_nat i := c)) s2"
  have cell: "line_cell e s ?a" using Cons.prems(6) by force
  then have p: "((sh_ram s2)(?a := c)) x = sh_ram s2 x" if "\<not> line_cell e s2 x" for x
    using that moved_cells(2) [OF m2, of e] by auto
  have "shell_ready e ?s3" "keys ?s3 = keys s2" by (rule shell_ready_poke [OF 2(2)], erule p)+
  moreover have m3: "moved s ?s3"
  proof (rule moved_trans [OF m2])
    show "moved s2 ?s3" by (rule movedI [where m = "(sh_ram s2)(?a := c)" and kb = "sh_kbd s2" and d = "sh_screen s2"]) simp_all
  qed
  moreover have e: "cmd + of_nat (Suc i + j) = cmd + of_nat (i + Suc j)" for j by simp
  have "\<forall>j < length cs. line_cell e ?s3 (cmd + of_nat (Suc i + j))"
    unfolding e moved_cells(2) [OF m3] using Cons.prems(6) by (auto simp del: of_nat_add of_nat_Suc)
  moreover have "length cs < n'" "Suc i + n' \<le> 255" using n Cons.prems(7) by simp_all
  ultimately obtain s' where r: "shell_read_line n' (Suc i) e cmd ?s3 = Some s'" "shell_ready e s'" "keys s' = q" "moved ?s3 s'"
    "\<forall>j < length cs. sh_ram s' (cmd + of_nat (Suc i + j)) = cs ! j"
    "\<forall>x. quiet e ?s3 x \<longrightarrow> (\<forall>j < length cs. x \<noteq> cmd + of_nat (Suc i + j)) \<longrightarrow> sh_ram s' x = sh_ram ?s3 x"
    using Cons.IH [of ?s3 n' "Suc i"] Cons.prems(3,4) 1(3) 2(3) by auto
  have q: "quiet e ?s3 = quiet e s" by (rule moved_cells(1) [OF m3])
  have inj: "cmd + of_nat (Suc i + j) \<noteq> ?a" if "j < length cs" for j
    using that Cons.prems(5,7) by (simp add: of_nat_inj32 del: of_nat_add of_nat_Suc)
  have first: "sh_ram s' ?a = c"
  proof -
    have "quiet e s ?a" using cell by (simp add: line_cell_def)
    then have "sh_ram s' ?a = sh_ram ?s3 ?a" using r(6) inj unfolding q by metis
    then show ?thesis by simp
  qed
  have "sh_ram s' (cmd + of_nat (i + j)) = (c # cs) ! j" if "j < length (c # cs)" for j
  proof (cases j)
    case 0
    then show ?thesis using first by simp
  next
    case (Suc k)
    then show ?thesis using r(5) that unfolding e by (simp del: of_nat_add of_nat_Suc)
  qed
  moreover have "sh_ram s' x = sh_ram s x" if x: "quiet e s x" "\<forall>j < length (c # cs). x \<noteq> cmd + of_nat (i + j)" for x
  proof -
    have "x \<noteq> ?a" using x(2) by force
    moreover have "\<forall>j < length cs. x \<noteq> cmd + of_nat (Suc i + j)" unfolding e using x(2) by auto
    then have "sh_ram s' x = sh_ram ?s3 x" using r(6) x(1) unfolding q by blast
    ultimately show ?thesis using x(1) 2(5) 1(5) by (simp add: quiet_def)
  qed
  moreover have "shell_read_line n i e cmd s = Some s'" using 1(1) 2(1) r(1) c by (simp add: n(1) del: of_nat_Suc)
  ultimately show ?case using r(2,3) moved_trans [OF m3 r(4)] by blast
qed

lemma in_range_cells: "in_range p n x \<longleftrightarrow> (\<exists>j < unat n. x = p + of_nat j)"
proof
  assume "in_range p n x"
  then have "unat (x - p) < unat n" "x = p + of_nat (unat (x - p))" by (simp_all add: in_range_def word_less_nat_alt)
  then show "\<exists>j < unat n. x = p + of_nat j" by blast
next
  assume "\<exists>j < unat n. x = p + of_nat j"
  then obtain j where "j < unat n" "x = p + of_nat j" by blast
  moreover from this have "unat (of_nat j :: uint32) = j" using unat32_lt [of n] by (simp add: unat_of_nat_small)
  ultimately show "in_range p n x" by (simp add: in_range_def word_less_nat_alt)
qed

lemma shell_line_ok:
  assumes r: "shell_ready e s" and k: "keys s = line @ 10 # q" "0 \<notin> set line" "10 \<notin> set line" "length line < 255"
    and cell: "\<forall>j < 255. line_cell e s (cmd + of_nat j)"
  shows "\<exists>s'. shell_line e cmd s = Some s' \<and> shell_ready e s' \<and> keys s' = q \<and> moved s s' \<and> cstr (sh_ram s') cmd line \<and>
    (\<forall>x. quiet e s x \<longrightarrow> \<not> in_range cmd 255 x \<longrightarrow> sh_ram s' x = sh_ram s x)"
proof -
  define m0 where "m0 = memset (sh_ram s) cmd 0 0xFF"
  have in_buf: "in_range cmd 255 x \<longleftrightarrow> (\<exists>j < 255. x = cmd + of_nat j)" for x
    using in_range_cells [of cmd 255 x] by simp
  have poke: "m0 x = sh_ram s x" if "\<not> line_cell e s x" for x
    using that cell in_buf by (auto simp: m0_def memset_apply)
  let ?s0 = "set_sh_ram m0 s"
  have 0: "shell_ready e ?s0" "keys ?s0 = keys s" by (rule shell_ready_poke [OF r], erule poke)+
  have it: "kitems (map of_char ''KSH > '') = map (Char \<circ> of_char) ''KSH > ''" by code_simp
  have pr: "0 \<notin> set (map of_char ''KSH > '' :: uint8 list)" by code_simp
  have "args_ok (sh_ram ?s0) (sc_untouched e) (kitems (map of_char ''KSH > '')) []" by (simp add: it)
  from shell_kprintf_ok [OF 0(1) pr _ this] obtain m d where
    1: "shell_kprintf e (map of_char ''KSH > '' @ [0]) [] ?s0 = Some (set_sh_ram m (?s0\<lparr>sh_screen := d\<rparr>))"
    "shell_ready e (set_sh_ram m (?s0\<lparr>sh_screen := d\<rparr>))" "keys (set_sh_ram m (?s0\<lparr>sh_screen := d\<rparr>)) = keys s"
    "\<forall>x. sc_untouched e x \<longrightarrow> m x = m0 x" unfolding 0(2) by auto
  define s1 where "s1 = set_sh_ram m (?s0\<lparr>sh_screen := d\<rparr>)"
  have m1: "moved s s1"
    by (rule movedI [where m = m and kb = "sh_kbd s" and d = d]) (simp_all add: s1_def set_sh_ram_def set_nram_def)
  note cells = moved_cells [OF m1, of e]
  have "\<forall>j < length line. line_cell e s1 (cmd + of_nat (0 + j))" using cell k(4) by (simp add: cells)
  with 1(2,3) k have "\<exists>s'. shell_read_line 255 0 e cmd s1 = Some s' \<and> shell_ready e s' \<and> keys s' = q \<and> moved s1 s' \<and>
    (\<forall>j < length line. sh_ram s' (cmd + of_nat (0 + j)) = line ! j) \<and>
    (\<forall>x. quiet e s1 x \<longrightarrow> (\<forall>j < length line. x \<noteq> cmd + of_nat (0 + j)) \<longrightarrow> sh_ram s' x = sh_ram s1 x)"
    by (intro read_line_ok) (simp_all add: s1_def)
  then obtain s' where 2: "shell_read_line 255 0 e cmd s1 = Some s'" "shell_ready e s'" "keys s' = q" "moved s1 s'"
    "\<forall>j < length line. sh_ram s' (cmd + of_nat j) = line ! j"
    "\<forall>x. quiet e s x \<longrightarrow> (\<forall>j < length line. x \<noteq> cmd + of_nat j) \<longrightarrow> sh_ram s' x = sh_ram s1 x"
    unfolding cells by auto
  have ln: "shell_line e cmd s = Some s'" using 1(1) 2(1) by (simp add: shell_line_def m0_def s1_def)
  have s1m: "sh_ram s1 x = m0 x" if "sc_untouched e x" for x using 1(4) that by (simp add: s1_def)
  have "sh_ram s' (cmd + of_nat (length line)) = 0"
  proof -
    let ?x = "cmd + of_nat (length line)"
    have q: "quiet e s ?x" using cell k(4) by (auto simp: line_cell_def)
    have "?x \<noteq> cmd + of_nat j" if "j < length line" for j
      using that k(4) by (simp add: of_nat_inj32)
    with 2(6) q have "sh_ram s' ?x = sh_ram s1 ?x" by blast
    also have "\<dots> = m0 ?x" using q by (intro s1m) (simp add: quiet_def)
    also have "\<dots> = 0" using in_buf k(4) by (auto simp: m0_def memset_apply)
    finally show ?thesis .
  qed
  with 2(5) k(2) have "cstr (sh_ram s') cmd line" by (auto simp: cstr_nth in_set_conv_nth)
  moreover have "sh_ram s' x = sh_ram s x" if x: "quiet e s x" "\<not> in_range cmd 255 x" for x
  proof -
    have "\<forall>j < length line. x \<noteq> cmd + of_nat j" using x(2) k(4) by (meson in_buf less_trans)
    with 2(6) x(1) have "sh_ram s' x = sh_ram s1 x" by blast
    also have "\<dots> = m0 x" using x(1) by (intro s1m) (simp add: quiet_def)
    finally show ?thesis using x(2) by (simp add: m0_def memset_apply)
  qed
  ultimately show ?thesis using ln 2(2,3) moved_trans [OF m1 2(4)] by blast
qed

text \<open>
  The shell reads the line that was typed: when the keys that wait are a line of fewer than 255
  characters and a newline, one round of the loop takes exactly those keys, in their order, writes each
  to the screen and returns with the line as a terminated string in the buffer; the keys behind the
  newline wait for the next round, the shell is as ready as before, and only the buffer, the screen and the
  memory of the drivers are written.
\<close>

theorem kshell_reads_line:
  assumes "shell_ready e s" "keys s = line @ 10 # q" "0 \<notin> set line" "10 \<notin> set line" "length line < 255"
    and "\<forall>j < 255. line_cell e s (cmd + of_nat j)"
  shows "\<exists>s'. shell_line e cmd s = Some s' \<and> shell_ready e s' \<and> keys s' = q \<and> cstr (sh_ram s') cmd line \<and>
    (\<forall>x. quiet e s x \<longrightarrow> \<not> in_range cmd 255 x \<longrightarrow> sh_ram s' x = sh_ram s x)"
  using shell_line_ok [OF assms] by blast

definition sample_shell_env :: "nat shell_env" where
  "sample_shell_env = \<lparr>sc_sched = \<lambda>m. m, sc_memcpy = 0x200, sc_getkey = 0x500, sc_display = 0x300, sc_str = 0x400,
     sc_delim = 0x600, sc_split = 0x610, sc_clear = 0x620, sc_arp = 0x630, sc_ping = 0x640, sc_module = 0x650,
     sc_arp_module = 0x660, sc_array = 0x670, sc_old_addr = 0, sc_as = 0x680, sc_ha = 0x690, sc_pa = 0x6C0,
     sc_dev = count_dev, sc_arrive = \<lambda>x. x\<rparr>"

text \<open>\<open>hi\<close>, the newline and \<open>x\<close> have been typed.\<close>

definition sample_shell :: "nat shell" where
  "sample_shell = \<lparr>sh_net = set_nram ((\<lambda>_. 0)(0x1000 := 104, 0x1001 := 105, 0x1002 := 10, 0x1003 := 120)) sample_net,
     sh_kbd = sample_kbd\<lparr>key_loc := 4\<rparr>, sh_screen = text_start,
     sh_displays = displays_start\<lparr>cd := Some (textmode_display (\<lambda>m. m) 0x200 0)\<rparr>\<rparr>"

theorem kshell_reads_line_witness:
  "\<exists>s'. shell_line sample_shell_env 0x2000 sample_shell = Some s' \<and> keys s' = [120] \<and> cstr (sh_ram s') 0x2000 [104, 105]"
proof -
  have far: "4480 \<le> off x" if "unat x < 10000" for x
    using that unat_sub_word [of x VGA_MEMORY] by (simp add: off_def VGA_MEMORY_def)
  have r: "in_range p n x \<longleftrightarrow> unat p \<le> unat x \<and> unat x < unat p + unat n" if "unat p + unat n \<le> 4294967296" for p n x
    by (rule in_range_unat [OF that])
  have f: "sh_kbd sample_shell = sample_kbd\<lparr>key_loc := 4\<rparr>" "sh_screen sample_shell = text_start"
    "sh_ram sample_shell = (\<lambda>_. 0)(0x1000 := 104, 0x1001 := 105, 0x1002 := 10, 0x1003 := 120)"
    by (simp_all add: sample_shell_def sh_ram_def nram_def set_nram_def)
  have k: "keys sample_shell = [104, 105] @ 10 # [120]"
    by (simp add: keys_def pending_def f sample_kbd_def upt_rec)
  have "out_ready 0x200 0x300 text_start (sh_ram sample_shell)"
    by (auto simp: out_ready_def lock_ready_def mutex_pad_clear_def f cursor_ok_def text_start_def textmode_init_def intro!: far)
  moreover have "kbd_ok 0x500 (sh_kbd sample_shell, sh_ram sample_shell)"
    by (auto simp: kbd_ok_def mutex_pad_clear_def f sample_kbd_def in_range_def)
  moreover have "apart 0x200 0x300 0x400" by (auto simp: apart_def r intro!: far)
  ultimately have ok: "shell_ready sample_shell_env sample_shell"
    by (auto simp: shell_ready_def sample_shell_env_def untouched_def f r sample_kbd_def display_get_current_def sample_shell_def intro!: far)
  have "line_cell sample_shell_env sample_shell (0x2000 + of_nat j)" if "j < 255" for j
  proof -
    have "unat (0x2000 + of_nat j :: addr) = 0x2000 + j"
      using that by (simp add: unat_add_small unat_of_nat_small)
    then show ?thesis
      using that by (auto simp: line_cell_def quiet_def untouched_def sample_shell_env_def f r sample_kbd_def intro!: far)
  qed
  then have "\<forall>j < 255. line_cell sample_shell_env sample_shell (0x2000 + of_nat j)" by blast
  from kshell_reads_line [OF ok k _ _ _ this] show ?thesis by auto
qed

end
