(* ===== verification/Shell_Commands.thy ===== *)
theory Shell_Commands
  imports Shell
begin

text \<open>
  Rounds of the shell of \<open>src/kshell.c\<close>: an invariant of its loop, that reading a line and every command but
  \<open>ping\<close> keep it, and what \<open>ping\<close> sends. The pieces of a line are strings inside the buffer of the line, so
  printing them, clearing the screen and listing the addresses write only outside the heap; \<open>strtok\<close>
  and \<open>free\<close> leave the other blocks of the heap.
\<close>

section \<open>One round of the shell\<close>

text \<open>The local variables that the commands \<open>arp\<close> and \<open>ping\<close> write.\<close>

definition scratch :: "'w shell_env \<Rightarrow> addr \<Rightarrow> bool" where
  "scratch e x \<longleftrightarrow> in_range (sc_ha e) 18 x \<or> in_range (sc_pa e) 16 x \<or> in_range (sc_array e) 7 x \<or> in_range (sc_as e) 16 x"

definition locals_ok :: "'w shell_env \<Rightarrow> bool" where
  "locals_ok e \<longleftrightarrow> unat (sc_ha e) + 18 < 2 ^ 32 \<and> unat (sc_pa e) + 16 < 2 ^ 32 \<and> unat (sc_as e) + 16 < 2 ^ 32 \<and>
     (\<forall>x. in_range (sc_ha e) 18 x \<longrightarrow> \<not> in_range (sc_pa e) 16 x)"

text \<open>Memory that no operation of the shell writes.\<close>

definition steady :: "'w shell_env \<Rightarrow> 'w shell \<Rightarrow> addr \<Rightarrow> bool" where
  "steady e s x \<longleftrightarrow> line_cell e s x \<and> \<not> scratch e x \<and> outside_heap (nmm (sh_net s)) x"

definition fixed_text :: "'w shell_env \<Rightarrow> 'w shell \<Rightarrow> addr \<Rightarrow> uint8 list \<Rightarrow> bool" where
  "fixed_text e s p t \<longleftrightarrow> cstr (sh_ram s) p t \<and> (\<forall>i \<le> length t. steady e s (p + of_nat i))"

text \<open>
  The invariant of the loop: the shell can read and print, the blocks \<open>A\<close> of the heap are live, among them the
  line and the buffer of the keyboard, \<open>k\<close> more bytes fit, the locks, the screen and the local variables are
  outside the heap, and the constants are where they were.
\<close>

definition shell_inv :: "'w shell_env \<Rightarrow> addr \<Rightarrow> (addr \<times> uint32) list \<Rightarrow> nat \<Rightarrow> 'w shell \<Rightarrow> bool" where
  "shell_inv e cmd A k s \<longleftrightarrow> shell_ready e s \<and> holds (nmm (sh_net s)) A \<and> heap_room (nmm (sh_net s)) k \<and>
     (cmd, 255) \<in> set A \<and> (keycache (sh_kbd s), 256) \<in> set A \<and> cmd \<noteq> keycache (sh_kbd s) \<and>
     (\<forall>x. \<not> sc_untouched e x \<or> in_range (sc_getkey e) 4 x \<or> scratch e x \<longrightarrow> outside_heap (nmm (sh_net s)) x) \<and>
     locals_ok e \<and> (\<forall>x. scratch e x \<longrightarrow> line_cell e s x) \<and>
     unat (sc_delim e) + 1 < unat (heap_begin (nmm (sh_net s))) \<and>
     fixed_text e s (sc_delim e) [32] \<and> fixed_text e s (sc_split e) (map of_char ''split'') \<and>
     fixed_text e s (sc_clear e) (map of_char ''clear'') \<and> fixed_text e s (sc_arp e) (map of_char ''arp'') \<and>
     fixed_text e s (sc_ping e) (map of_char ''ping'') \<and> (\<exists>cs. fixed_text e s (sc_module e) cs) \<and>
     (\<exists>cs. fixed_text e s (sc_arp_module e) cs)"

lemma nmm_set_sh_ram [simp]:
  "nmm (sh_net (set_sh_ram m s)) = (nmm (sh_net s))\<lparr>ram := m\<rparr>" "(nmm (sh_net s))\<lparr>ram := sh_ram s\<rparr> = nmm (sh_net s)"
  by (simp_all add: set_sh_ram_def set_nram_def sh_ram_def nram_def)

lemma shell_ready_cong:
  assumes "shell_ready e s" "sh_kbd s' = sh_kbd s" "sh_screen s' = sh_screen s" "sh_displays s' = sh_displays s"
    and "\<And>x. \<not> line_cell e s x \<Longrightarrow> sh_ram s' x = sh_ram s x"
  shows "shell_ready e s'" "keys s' = keys s"
  using shell_ready_poke [OF assms(1,5)] assms(2-4) by (simp_all add: shell_ready_def keys_def)

text \<open>A step that keeps the blocks and the steady memory keeps the invariant.\<close>

lemma shell_inv_step:
  assumes i: "shell_inv e cmd A k s" and r: "shell_ready e s'" and kc: "keycache (sh_kbd s') = keycache (sh_kbd s)"
    and h: "holds (nmm (sh_net s')) A'" "heap_room (nmm (sh_net s')) k'"
    and A: "(cmd, 255) \<in> set A'" "(keycache (sh_kbd s), 256) \<in> set A'"
    and o: "outside_heap (nmm (sh_net s')) = outside_heap (nmm (sh_net s))"
      "heap_begin (nmm (sh_net s')) = heap_begin (nmm (sh_net s))"
    and m: "\<And>x. steady e s x \<Longrightarrow> sh_ram s' x = sh_ram s x"
  shows "shell_inv e cmd A' k' s'"
proof -
  have c: "line_cell e s' = line_cell e s" by (simp add: line_cell_def quiet_def kc fun_eq_iff)
  then have st: "steady e s' = steady e s" by (simp add: steady_def o fun_eq_iff)
  have "fixed_text e s' p t" if "fixed_text e s p t" for p t
    unfolding fixed_text_def
  proof
    show "cstr (sh_ram s') p t" using that m by (auto simp: fixed_text_def intro: cstr_frame)
    show "\<forall>i \<le> length t. steady e s' (p + of_nat i)" using that by (simp add: fixed_text_def st)
  qed
  with i r kc h A o c show ?thesis unfolding shell_inv_def by metis
qed

lemma shell_inv_cells:
  assumes i: "shell_inv e cmd A k s" and b: "(a, n) \<in> set A" "in_range a n x"
  shows "\<not> outside_heap (nmm (sh_net s)) x" "sc_untouched e x" "\<not> in_range (sc_getkey e) 4 x" "\<not> scratch e x"
    and "a \<noteq> keycache (sh_kbd s) \<Longrightarrow> line_cell e s x"
proof -
  have h: "holds (nmm (sh_net s)) A" "heap_room (nmm (sh_net s)) 0"
    and f: "\<not> sc_untouched e x \<or> in_range (sc_getkey e) 4 x \<or> scratch e x \<Longrightarrow> outside_heap (nmm (sh_net s)) x"
    and kc: "(keycache (sh_kbd s), 256) \<in> set A"
    using i by (auto simp: shell_inv_def heap_room_def)
  show o: "\<not> outside_heap (nmm (sh_net s)) x" using holds_not_outside [OF h(1) b(1) h(2)] b(2) by blast
  with f show u: "sc_untouched e x" "\<not> in_range (sc_getkey e) 4 x" "\<not> scratch e x" by blast+
  show "line_cell e s x" if "a \<noteq> keycache (sh_kbd s)"
    using holds_apart [OF h(1) b(1) kc that b(2)] u by (simp add: line_cell_def quiet_def)
qed

text \<open>Reading the line.\<close>

lemma shell_line_inv:
  assumes i: "shell_inv e cmd A k s"
    and k: "keys s = line @ 10 # q" "0 \<notin> set line" "10 \<notin> set line" "length line < 255"
  shows "\<exists>s'. shell_line e cmd s = Some s' \<and> shell_inv e cmd A k s' \<and> keys s' = q \<and> cstr (sh_ram s') cmd line"
proof -
  have r: "shell_ready e s" and A: "(cmd, 255) \<in> set A" "(keycache (sh_kbd s), 256) \<in> set A" "cmd \<noteq> keycache (sh_kbd s)"
    and h: "holds (nmm (sh_net s)) A" "heap_room (nmm (sh_net s)) k"
    and f: "\<And>x. \<not> sc_untouched e x \<Longrightarrow> outside_heap (nmm (sh_net s)) x" using i by (auto simp: shell_inv_def)
  have "line_cell e s (cmd + of_nat j)" if "j < 255" for j
    using shell_inv_cells(5) [OF i A(1) _ A(3)] that in_range_cells [of cmd 255] by auto
  with shell_line_ok [OF r k] obtain s' where s: "shell_line e cmd s = Some s'" "shell_ready e s'" "keys s' = q" "moved s s'"
      "cstr (sh_ram s') cmd line" "\<forall>x. quiet e s x \<longrightarrow> \<not> in_range cmd 255 x \<longrightarrow> sh_ram s' x = sh_ram s x" by blast
  obtain m kb d where m: "s' = set_sh_ram m (s\<lparr>sh_kbd := kb, sh_screen := d\<rparr>)" and kc: "keycache (sh_kbd s') = keycache (sh_kbd s)"
    using s(4) by (auto simp: moved_def)
  have n: "nmm (sh_net s') = (nmm (sh_net s))\<lparr>ram := m\<rparr>" "sh_ram s' = m" by (simp_all add: m)
  have "m y = ram (nmm (sh_net s)) y" if "\<not> in_range cmd 255 y" "\<not> in_range (keycache (sh_kbd s)) 256 y"
      "\<not> outside_heap (nmm (sh_net s)) y" for y
    using s(6) that f [of y] n by (auto simp: quiet_def sh_ram_def nram_def)
  note w = holds_write_cells [OF h A(1,2) this]
  have "shell_inv e cmd A k s'"
  proof (rule shell_inv_step [OF i s(2) kc])
    fix x assume x: "steady e s x"
    then have "\<not> in_range cmd 255 x" using shell_inv_cells(1) [OF i A(1)] by (auto simp: steady_def)
    with s(6) x show "sh_ram s' x = sh_ram s x" by (simp add: steady_def line_cell_def)
  qed (use w A n in simp_all)
  with s(1,3,5) show ?thesis by blast
qed


text \<open>What a command does that only prints: it leaves the memory but the screen, the locks and the local variables.\<close>

definition kept :: "'w shell_env \<Rightarrow> 'w shell \<Rightarrow> 'w shell \<Rightarrow> bool" where
  "kept e s s' \<longleftrightarrow> shell_ready e s' \<and> keys s' = keys s \<and> (\<exists>m d. s' = set_sh_ram m (s\<lparr>sh_screen := d\<rparr>)) \<and>
     (\<forall>x. sc_untouched e x \<longrightarrow> \<not> scratch e x \<longrightarrow> sh_ram s' x = sh_ram s x)"

lemma keptI:
  assumes "shell_ready e s'" "keys s' = keys s" "s' = set_sh_ram m (s\<lparr>sh_screen := d\<rparr>)"
    "\<forall>x. sc_untouched e x \<longrightarrow> \<not> scratch e x \<longrightarrow> sh_ram s' x = sh_ram s x"
  shows "kept e s s'"
  using assms unfolding kept_def by blast

lemma kept_refl: "shell_ready e s \<Longrightarrow> kept e s s"
  by (rule keptI [where m = "sh_ram s" and d = "sh_screen s"]) (simp_all add: set_sh_ram_def sh_ram_def nram_def set_nram_def)

lemma kept_trans:
  assumes "kept e s s1" "kept e s1 s2"
  shows "kept e s s2"
proof -
  obtain m d m' d' where "s1 = set_sh_ram m (s\<lparr>sh_screen := d\<rparr>)" "s2 = set_sh_ram m' (s1\<lparr>sh_screen := d'\<rparr>)"
    using assms unfolding kept_def by blast
  then have "s2 = set_sh_ram m' (s\<lparr>sh_screen := d'\<rparr>)" by (simp add: set_sh_ram_def set_nram_def)
  with assms show ?thesis by (intro keptI [of e s2 s m' d']) (auto simp: kept_def)
qed

lemma kept_inv:
  assumes i: "shell_inv e cmd A k s" and kp: "kept e s s'"
  shows "shell_inv e cmd A k s'"
proof -
  obtain m d where m: "s' = set_sh_ram m (s\<lparr>sh_screen := d\<rparr>)" using kp by (auto simp: kept_def)
  have h: "holds (nmm (sh_net s)) A" "heap_room (nmm (sh_net s)) k"
    and f: "\<And>x. \<not> sc_untouched e x \<or> scratch e x \<Longrightarrow> outside_heap (nmm (sh_net s)) x"
    and A: "(cmd, 255) \<in> set A" "(keycache (sh_kbd s), 256) \<in> set A" using i by (auto simp: shell_inv_def)
  have n: "nmm (sh_net s') = (nmm (sh_net s))\<lparr>ram := m\<rparr>" "sh_ram s' = m" "sh_kbd s' = sh_kbd s" by (simp_all add: m)
  have "m y = ram (nmm (sh_net s)) y" if "\<not> outside_heap (nmm (sh_net s)) y" for y
    using kp f [of y] that n(2) by (auto simp: kept_def sh_ram_def nram_def)
  note w = holds_write_outside [OF h this]
  show ?thesis
  proof (rule shell_inv_step [OF i])
    fix x assume "steady e s x"
    then show "sh_ram s' x = sh_ram s x" using kp by (simp add: kept_def steady_def line_cell_def quiet_def)
  qed (use kp w A n in \<open>simp_all add: kept_def\<close>)
qed

text \<open>The live blocks of the heap keep their bytes.\<close>

lemma kept_blocks:
  assumes "shell_inv e cmd A k s" "kept e s s'" "(a, n) \<in> set A" "in_range a n x"
  shows "sh_ram s' x = sh_ram s x"
  using shell_inv_cells(2,4) [OF assms(1,3,4)] assms(2) by (simp add: kept_def)

lemma kept_mprint:
  assumes i: "shell_inv e cmd A k s" and f: "0 \<notin> set body" "length body < 65535"
    and a: "args_ok (sh_ram s) (sc_untouched e) (kitems body) ap"
    and md: "fixed_text e s nm cs"
  shows "\<exists>s'. shell_mprint e nm (body @ [0]) ap s = Some s' \<and> kept e s s'"
proof -
  have r: "shell_ready e s" using i by (simp add: shell_inv_def)
  have nm: "cstr (sh_ram s) nm cs" "\<forall>i \<le> length cs. sc_untouched e (nm + of_nat i)" using md
    by (simp_all add: fixed_text_def steady_def line_cell_def quiet_def)
  obtain m d where p: "shell_mprint e nm (body @ [0]) ap s = Some (set_sh_ram m (s\<lparr>sh_screen := d\<rparr>))"
      "shell_ready e (set_sh_ram m (s\<lparr>sh_screen := d\<rparr>))" "keys (set_sh_ram m (s\<lparr>sh_screen := d\<rparr>)) = keys s"
      "\<forall>x. sc_untouched e x \<longrightarrow> m x = sh_ram s x"
    using shell_mprint_ok [OF r f a nm] by blast
  then have "kept e s (set_sh_ram m (s\<lparr>sh_screen := d\<rparr>))" by (intro keptI) auto
  with p(1) show ?thesis by blast
qed

lemma kept_clear:
  assumes "shell_inv e cmd A k s"
  shows "\<exists>s'. shell_clear s = Some s' \<and> kept e s s'"
proof -
  have r: "shell_ready e s" using assms by (simp add: shell_inv_def)
  then obtain msg where c: "cd (sh_displays s) = Some (textmode_display (\<lambda>m. m) (sc_memcpy e) msg)"
    and o: "out_ready (sc_memcpy e) (sc_display e) (sh_screen s) (sh_ram s)" and p: "apart (sc_memcpy e) (sc_display e) (sc_str e)"
    by (auto simp: shell_ready_def display_get_current_def)
  obtain d m where t: "textmode_clear (sh_screen s, sh_ram s) = (d, m)" by (cases "textmode_clear (sh_screen s, sh_ram s)")
  note tame = textmode_clear_tame [OF t]
  have md: "4480 \<le> off x" if "in_range (sc_display e) 4 x" for x using p that by (simp add: apart_def)
  have "in_range q 4 q" "in_range q 4 (q + 1)" "in_range q 4 (q + 2)" "in_range q 4 (q + 3)" for q
    by (simp_all add: in_range_def)
  with md tame o have "out_ready (sc_memcpy e) (sc_display e) d m"
    by (auto simp: out_ready_def con_tame_lock [OF tame] mutex_pad_clear_def con_tame_def)
  moreover have u: "\<forall>x. sc_untouched e x \<longrightarrow> m x = sh_ram s x" using tame by (simp add: con_tame_def untouched_def)
  ultimately have "kept e s (set_sh_ram m (s\<lparr>sh_screen := d\<rparr>))"
    using shell_ready_print [OF r] by (intro keptI) auto
  then show ?thesis by (simp add: shell_clear_def display_clear_def c textmode_display_def t)
qed

lemma kept_scratch:
  assumes i: "shell_inv e cmd A k s" and m: "\<And>x. \<not> scratch e x \<Longrightarrow> m x = sh_ram s x"
  shows "kept e s (set_sh_ram m s)"
proof -
  have r: "shell_ready e s" and c: "\<And>x. scratch e x \<Longrightarrow> line_cell e s x" using i by (auto simp: shell_inv_def)
  have "m x = sh_ram s x" if "\<not> line_cell e s x" for x using m c that by blast
  with shell_ready_poke [OF r, of m] m show ?thesis
    by (intro keptI [where m = m and d = "sh_screen s"]) simp_all
qed


section \<open>The commands\<close>

text \<open>The pieces of the line are strings in the buffer of the line.\<close>

lemma string_before:
  assumes "cstr m (p + of_nat j) xs" "j \<le> n" "m (p + of_nat n) = 0" 
  shows "length xs \<le> n - j"
proof (rule ccontr)
  assume "\<not> length xs \<le> n - j"
  then have "n - j < length xs" by simp
  then have "m (p + of_nat j + of_nat (n - j)) \<noteq> 0" using assms(1) by (auto simp: cstr_nth)
  moreover have "p + of_nat j + of_nat (n - j) = p + of_nat n" using assms(2) by (simp add: of_nat_diff)
  ultimately show False using assms(3) by simp
qed

lemma kept_piece:
  assumes i: "shell_inv e cmd A k s" and kp: "kept e s s'" and p: "(p, of_nat (4 * N)) \<in> set A" "4 * N < 4294967296" "q < N"
    and j: "j \<le> L" "cstr (sh_ram s) (cmd + of_nat j) xs" "sh_ram s (cmd + of_nat L) = 0" "L < 255"
  shows "load32 (sh_ram s') (p + 4 * of_nat q) = load32 (sh_ram s) (p + 4 * of_nat q)" "cstr (sh_ram s') (cmd + of_nat j) xs"
proof -
  have A: "(cmd, 255) \<in> set A" using i by (simp add: shell_inv_def)
  have c: "in_range p (of_nat (4 * N)) (p + of_nat (4 * q + b))" if "b < 4" for b
    unfolding in_range_cells using that p(2,3)
    by (intro exI [of _ "4 * q + b"]) (simp add: unat_of_nat_small del: of_nat_add of_nat_mult)
  show "load32 (sh_ram s') (p + 4 * of_nat q) = load32 (sh_ram s) (p + 4 * of_nat q)"
    using kept_blocks [OF i kp p(1)] c [of 0] c [of 1] c [of 2] c [of 3] by (simp add: load32_def ac_simps)
  show "cstr (sh_ram s') (cmd + of_nat j) xs"
  proof (rule cstr_frame [OF j(2)])
    fix b assume "b \<le> length xs"
    then have "in_range cmd 255 (cmd + of_nat (j + b))"
      unfolding in_range_cells using string_before [OF j(2,1,3)] j(1,4) by (intro exI [of _ "j + b"]) simp
    then show "sh_ram s' (cmd + of_nat j + of_nat b) = sh_ram s (cmd + of_nat j + of_nat b)"
      using kept_blocks [OF i kp A] by (simp add: ac_simps)
  qed
qed

lemma print_pieces_ok:
  assumes "shell_inv e cmd A k s" "(p, of_nat (4 * N)) \<in> set A" "4 * N < 4294967296" "i + n \<le> N"
    and "\<forall>q < N. \<exists>j xs. load32 (sh_ram s) (p + 4 * of_nat q) = cmd + of_nat j \<and> j \<le> L \<and> cstr (sh_ram s) (cmd + of_nat j) xs"
    and "sh_ram s (cmd + of_nat L) = 0" "L < 255"
  shows "\<exists>s'. shell_print_pieces n i e p s = Some s' \<and> kept e s s'"
  using assms
proof (induction n arbitrary: i s)
  case 0
  then show ?case by (auto simp: shell_inv_def intro: kept_refl)
next
  case (Suc n)
  have A: "(cmd, 255) \<in> set A" using Suc.prems(1) by (simp add: shell_inv_def)
  have buf: "in_range cmd 255 (cmd + of_nat j)" if "j \<le> L" for j
    unfolding in_range_cells using that Suc.prems(7) by (intro exI [of _ j]) simp
  have "i < N" using Suc.prems(4) by simp
  then obtain j xs where j: "load32 (sh_ram s) (p + 4 * of_nat i) = cmd + of_nat j" "j \<le> L"
    "cstr (sh_ram s) (cmd + of_nat j) xs" using Suc.prems(5) by blast
  have l: "length xs \<le> L - j" by (rule string_before [OF j(3,2) Suc.prems(6)])
  have "sc_untouched e (cmd + of_nat j + of_nat c)" if "c \<le> length xs" for c
  proof -
    have "in_range cmd 255 (cmd + of_nat (j + c))" by (rule buf) (use that l j(2) in simp)
    then show ?thesis using shell_inv_cells(2) [OF Suc.prems(1) A] by (simp add: ac_simps)
  qed
  then have a: "args_ok (sh_ram s) (sc_untouched e) (kitems [37, 115, 10]) [load32 (sh_ram s) (p + 4 * of_nat i)]"
  proof -
    have it: "kitems [37, 115, 10] = [Conv 115, Char 10]" by code_simp
    show "args_ok (sh_ram s) (sc_untouched e) (kitems [37, 115, 10]) [load32 (sh_ram s) (p + 4 * of_nat i)]"
      if "\<And>c. c \<le> length xs \<Longrightarrow> sc_untouched e (cmd + of_nat j + of_nat c)" using that j by (auto simp: it)
  qed
  obtain cs where "fixed_text e s (sc_module e) cs" using Suc.prems(1) by (auto simp: shell_inv_def)
  from kept_mprint [OF Suc.prems(1) _ _ a this] obtain s1 where
    1: "shell_mprint e (sc_module e) [37, 115, 10, 0] [load32 (sh_ram s) (p + 4 * of_nat i)] s = Some s1" "kept e s s1" by auto
  have "\<exists>s'. shell_print_pieces n (Suc i) e p s1 = Some s' \<and> kept e s1 s'"
  proof (rule Suc.IH [OF kept_inv [OF Suc.prems(1) 1(2)] Suc.prems(2,3)])
    show "\<forall>q < N. \<exists>j xs. load32 (sh_ram s1) (p + 4 * of_nat q) = cmd + of_nat j \<and> j \<le> L \<and> cstr (sh_ram s1) (cmd + of_nat j) xs"
    proof (intro allI impI)
      fix q assume q: "q < N"
      then obtain j xs where j: "load32 (sh_ram s) (p + 4 * of_nat q) = cmd + of_nat j" "j \<le> L"
        "cstr (sh_ram s) (cmd + of_nat j) xs" using Suc.prems(5) by blast
      show "\<exists>j xs. load32 (sh_ram s1) (p + 4 * of_nat q) = cmd + of_nat j \<and> j \<le> L \<and> cstr (sh_ram s1) (cmd + of_nat j) xs"
        using kept_piece [OF Suc.prems(1) 1(2) Suc.prems(2,3) q j(2,3) Suc.prems(6,7)] j(1,2) by auto
    qed
    show "sh_ram s1 (cmd + of_nat L) = 0"
      using kept_blocks [OF Suc.prems(1) 1(2) A buf [of L]] Suc.prems(6) by simp
  qed (use Suc.prems in simp_all)
  with 1 kept_trans show ?case by auto
qed


text \<open>The list of the addresses.\<close>

lemma untouched_scratch: "shell_inv e cmd A k s \<Longrightarrow> scratch e x \<Longrightarrow> sc_untouched e x"
  by (simp add: shell_inv_def line_cell_def quiet_def)

lemma arp_entry_ok:
  assumes i: "shell_inv e cmd A k s"
  shows "\<exists>s'. (do {
        let m0 = memset (memset (sh_ram s) (sc_ha e) 0 18) (sc_pa e) 0 16;
        (l1, m1) \<leftarrow> addr_eth_tostr (sc_ha e) 18 (ae_ha en) m0;
        (l2, m2) \<leftarrow> addr_ipv4_tostr (sc_pa e) 16 (ae_pa en) m1;
        shell_mprint e (sc_arp_module e) (map of_char ''#%d MAC=%s IP=%s'' @ [10, 0]) [n, sc_ha e, sc_pa e]
          (set_sh_ram m2 s) }) = Some s' \<and> kept e s s'"
proof -
  have lo: "unat (sc_ha e) + 18 < 2 ^ 32" "unat (sc_pa e) + 16 < 2 ^ 32"
    "\<And>x. in_range (sc_ha e) 18 x \<Longrightarrow> \<not> in_range (sc_pa e) 16 x" using i by (auto simp: shell_inv_def locals_ok_def)
  define m0 where "m0 = memset (memset (sh_ram s) (sc_ha e) 0 18) (sc_pa e) 0 16"
  define m1 where "m1 = write_bytes m0 (sc_ha e) (eth_text (ae_ha en) @ [0])"
  define m2 where "m2 = write_bytes m1 (sc_pa e) (dotted (ae_pa en) @ [0])"
  have 1: "addr_eth_tostr (sc_ha e) 18 (ae_ha en) m0 = Some (17, m1)"
    using addr_eth_tostr_text [of 18 "sc_ha e"] lo(1) by (simp add: m1_def)
  have 2: "addr_ipv4_tostr (sc_pa e) 16 (ae_pa en) m1 = Some (of_nat (length (dotted (ae_pa en))), m2)"
    using addr_ipv4_tostr_text [of 16 "sc_pa e"] lo(2) by (simp add: m2_def)
  have l: "length (dotted (ae_pa en)) \<le> 15" by (rule dotted_length)
  have d0: "0 \<notin> set (dotted (ae_pa en))" using dotted_chars by blast
  have w1: "cstr m1 (sc_ha e) (eth_text (ae_ha en))" "\<And>x. \<not> in_range (sc_ha e) 18 x \<Longrightarrow> m1 x = m0 x"
    using write_bytes_cstr [OF eth_text_chars(2) [of "ae_ha en"], where m = m0 and p = "sc_ha e"] by (simp_all add: m1_def eth_text_chars)
  have sub: "in_range (sc_pa e) 16 x" if "in_range (sc_pa e) (of_nat (length (dotted (ae_pa en)) + 1)) x" for x
    using that l by (simp add: in_range_def word_less_nat_alt unat_of_nat_small del: of_nat_add of_nat_Suc)
  have w2: "cstr m2 (sc_pa e) (dotted (ae_pa en))" "\<And>x. \<not> in_range (sc_pa e) 16 x \<Longrightarrow> m2 x = m1 x"
    using write_bytes_cstr [OF d0, where m = m1 and p = "sc_pa e"] l sub by (auto simp: m2_def)
  have ha: "in_range (sc_ha e) 18 (sc_ha e + of_nat c)" if "c \<le> 17" for c
    unfolding in_range_cells using that by (intro exI [of _ c]) simp
  have pa: "in_range (sc_pa e) 16 (sc_pa e + of_nat c)" if "c \<le> 15" for c
    unfolding in_range_cells using that by (intro exI [of _ c]) simp
  have h2: "cstr m2 (sc_ha e) (eth_text (ae_ha en))"
    by (rule cstr_frame [OF w1(1)]) (use ha lo(3) in \<open>simp add: w2(2) eth_text_chars\<close>)
  have "m2 x = sh_ram s x" if "\<not> scratch e x" for x
    using that w1(2) w2(2) by (simp add: scratch_def m0_def memset_apply)
  note kp = kept_scratch [OF i this]
  let ?s = "set_sh_ram m2 s"
  have i2: "shell_inv e cmd A k ?s" by (rule kept_inv [OF i kp])
  have it: "kitems (map of_char ''#%d MAC=%s IP=%s'' @ [10]) =
      [Char 35, Conv 100, Char 32, Char 77, Char 65, Char 67, Char 61, Conv 115, Char 32, Char 73, Char 80, Char 61, Conv 115, Char 10]"
    by code_simp
  have sc: "\<forall>c \<le> 17. sc_untouched e (sc_ha e + of_nat c)" "\<forall>c \<le> 15. sc_untouched e (sc_pa e + of_nat c)"
    using ha pa untouched_scratch [OF i] by (auto simp: scratch_def)
  have a: "args_ok (sh_ram ?s) (sc_untouched e) (kitems (map of_char ''#%d MAC=%s IP=%s'' @ [10])) [n, sc_ha e, sc_pa e]"
    unfolding it using h2 w2(1) sc l by (auto simp: eth_text_chars)
  have z: "0 \<notin> set (map of_char ''#%d MAC=%s IP=%s'' @ [10 :: uint8])" by code_simp
  obtain cs where md: "fixed_text e ?s (sc_arp_module e) cs" using i2 by (auto simp: shell_inv_def)
  have ln: "length (map of_char ''#%d MAC=%s IP=%s'' @ [10 :: uint8]) < 65535" by simp
  obtain s' where "shell_mprint e (sc_arp_module e) ((map of_char ''#%d MAC=%s IP=%s'' @ [10]) @ [0]) [n, sc_ha e, sc_pa e] ?s = Some s'"
    "kept e ?s s'" using kept_mprint [OF i2 z ln a md] by blast
  then show ?thesis using kept_trans [OF kp] 1 2 unfolding m0_def [symmetric] Let_def by auto
qed

lemma arp_dump_ok:
  "shell_inv e cmd A k s \<Longrightarrow> \<exists>s'. arp_dump_loop ens n e s = Some s' \<and> kept e s s'"
proof (induction ens arbitrary: n s)
  case Nil
  then show ?case by (auto simp: shell_inv_def intro: kept_refl)
next
  case (Cons en ens)
  show ?case
  proof (cases "ae_pa en = 0")
    case True
    with Cons show ?thesis by simp
  next
    case False
    from arp_entry_ok [OF Cons.prems, of en "of_nat n"] obtain s1 where
      1: "(do {
        let m0 = memset (memset (sh_ram s) (sc_ha e) 0 18) (sc_pa e) 0 16;
        (l1, m1) \<leftarrow> addr_eth_tostr (sc_ha e) 18 (ae_ha en) m0;
        (l2, m2) \<leftarrow> addr_ipv4_tostr (sc_pa e) 16 (ae_pa en) m1;
        shell_mprint e (sc_arp_module e) (map of_char ''#%d MAC=%s IP=%s'' @ [10, 0]) [of_nat n, sc_ha e, sc_pa e]
          (set_sh_ram m2 s) }) = Some s1" "kept e s s1" by blast
    from Cons.IH [OF kept_inv [OF Cons.prems 1(2)], of "n + 1"] obtain s' where
      2: "arp_dump_loop ens (n + 1) e s1 = Some s'" "kept e s1 s'" by blast
    have "arp_dump_loop (en # ens) n e s = Some s'"
      using 1(1) 2(1) False by (auto simp: Let_def split: Option.bind_splits prod.splits)
    with kept_trans [OF 1(2) 2(2)] show ?thesis by blast
  qed
qed

lemma when_equal_cstr:
  assumes "cstr (sh_ram s) p w" "cstr (sh_ram s) name t"
  shows "when_equal p name body s = (if w = t then body s else Some s)"
  using strcmp_cstr [OF assms] by (simp add: when_equal_def)


text \<open>Cutting the line into its pieces, and giving the array of them back.\<close>

lemma sh_ram_nmm [simp]: "sh_ram (s\<lparr>sh_net := (sh_net s)\<lparr>nmm := h\<rparr>\<rparr>) = ram h"
  by (simp add: sh_ram_def nram_def)

lemma shell_split_ok:
  assumes i: "shell_inv e cmd A (4 * K + 12 + k) s" and l: "cstr (sh_ram s) cmd line" "length line < 255"
    and K: "K = length (split_at [32] line)"
  shows "\<exists>p h. strtok cmd (sc_delim e) (nmm (sh_net s)) = Some (Ret p, of_nat K, h) \<and>
    shell_inv e cmd ((p, of_nat (4 * K)) # A) k (s\<lparr>sh_net := (sh_net s)\<lparr>nmm := h\<rparr>\<rparr>) \<and>
    keys (s\<lparr>sh_net := (sh_net s)\<lparr>nmm := h\<rparr>\<rparr>) = keys s \<and>
    list_all2 (cstr (ram h)) (cmd # piece_starts [32] cmd line) (split_at [32] line) \<and>
    map (\<lambda>q. load32 (ram h) (p + of_nat (4 * q))) [0..<K] = cmd # piece_starts [32] cmd line \<and>
    ram h (cmd + of_nat (length line)) = 0"
proof -
  let ?h = "nmm (sh_net s)"
  have A: "holds ?h A" "(cmd, 255) \<in> set A" "(keycache (sh_kbd s), 256) \<in> set A" "cmd \<noteq> keycache (sh_kbd s)"
    and room: "heap_room ?h (4 * K + 12 + k)" and r: "shell_ready e s"
    and d: "cstr (ram ?h) (sc_delim e) [32]" "unat (sc_delim e) + length [32 :: uint8] < unat (heap_begin ?h)"
    and f: "\<And>x. \<not> sc_untouched e x \<or> in_range (sc_getkey e) 4 x \<Longrightarrow> outside_heap ?h x"
    using i by (auto simp: shell_inv_def fixed_text_def sh_ram_def nram_def simp del: cstr.simps)
  have l1: "cstr (ram ?h) cmd line" "length line < unat (255 :: uint32)" using l by (simp_all add: sh_ram_def nram_def)
  have K2: "4 * length (split_at [32] line) < 2147483000"
    using length_split_at [of "[32]" line 0] length_starts_le [of "[32]" 0 line] l(2) by simp
  from strtok_pieces [OF A(1,2) l1 d K2 room [unfolded K], folded K] obtain p h where
    t: "strtok cmd (sc_delim e) ?h = Some (Ret p, of_nat K, h)" "holds h ((p, of_nat (4 * K)) # A)"
    "list_all2 (cstr (ram h)) (map (\<lambda>q. load32 (ram h) (p + of_nat (4 * q))) [0..<K]) (split_at [32] line)"
    "map (\<lambda>q. load32 (ram h) (p + of_nat (4 * q))) [0..<K] = cmd # piece_starts [32] cmd line"
    "ram h (cmd + of_nat (length line)) = 0" "heap_room h k" "outside_heap h = outside_heap ?h"
    "\<forall>y. outside_heap ?h y \<longrightarrow> ram h y = ram ?h y"
    "\<forall>b l y. (b, l) \<in> set A \<longrightarrow> b \<noteq> cmd \<longrightarrow> in_range b l y \<longrightarrow> ram h y = ram ?h y"
    by (elim exE conjE)
  let ?s = "s\<lparr>sh_net := (sh_net s)\<lparr>nmm := h\<rparr>\<rparr>"
  have frame: "sh_ram ?s x = sh_ram s x" if "\<not> line_cell e s x" for x
    using that f [of x] t(8,9) A(3,4) by (auto simp: line_cell_def quiet_def sh_ram_def nram_def)
  have r': "shell_ready e ?s" "keys ?s = keys s" by (rule shell_ready_cong [OF r _ _ _ frame]; simp)+
  have hb: "heap_begin h = heap_begin ?h"
    using t(1) by (auto simp: strtok_def Let_def malloc_begin split: Option.bind_splits prod.splits outcome.splits)
  have inv: "shell_inv e cmd ((p, of_nat (4 * K)) # A) k ?s"
  proof (rule shell_inv_step [OF i r'(1)])
    show "sh_ram ?s x = sh_ram s x" if "steady e s x" for x
      using that t(8) by (simp add: steady_def sh_ram_def nram_def)
  qed (use t(2,6,7) A hb in simp_all)
  show ?thesis
    by (rule exI [of _ p], rule exI [of _ h], intro conjI)
      (rule t(1) inv r'(2) t(4) t(5) t(3) [unfolded t(4)])+
qed

lemma shell_free_ok:
  assumes i: "shell_inv e cmd ((p, n) # A) k s" and A: "(cmd, 255) \<in> set A" "(keycache (sh_kbd s), 256) \<in> set A"
  shows "shell_inv e cmd A k (s\<lparr>sh_net := (sh_net s)\<lparr>nmm := free (nmm (sh_net s)) p\<rparr>\<rparr>)"
    "keys (s\<lparr>sh_net := (sh_net s)\<lparr>nmm := free (nmm (sh_net s)) p\<rparr>\<rparr>) = keys s"
proof -
  let ?h = "nmm (sh_net s)"
  let ?s = "s\<lparr>sh_net := (sh_net s)\<lparr>nmm := free ?h p\<rparr>\<rparr>"
  have h: "holds ?h ((p, n) # A)" "heap_room ?h k" and r: "shell_ready e s"
    and f: "\<And>x. \<not> sc_untouched e x \<or> in_range (sc_getkey e) 4 x \<Longrightarrow> outside_heap ?h x" using i by (auto simp: shell_inv_def)
  note fr = holds_free [OF h(1)] and kp = free_keeps [OF h]
  have "ram (free ?h p) x = ram ?h x" if "in_range (keycache (sh_kbd s)) 256 x" for x
    using fr holds_block [OF h(1), of "keycache (sh_kbd s)" 256] A(2) that by auto
  then have frame: "sh_ram ?s x = sh_ram s x" if "\<not> line_cell e s x" for x
    using that f [of x] kp(3) by (auto simp: line_cell_def quiet_def sh_ram_def nram_def)
  have r': "shell_ready e ?s" "keys ?s = keys s" by (rule shell_ready_cong [OF r _ _ _ frame]; simp)+
  then show "keys ?s = keys s" by simp
  have hb: "heap_begin (free ?h p) = heap_begin ?h" by (simp add: free_def Let_def)
  show "shell_inv e cmd A k ?s"
  proof (rule shell_inv_step [OF i r'(1)])
    show "sh_ram ?s x = sh_ram s x" if "steady e s x" for x
      using that kp(3) by (simp add: steady_def sh_ram_def nram_def)
  qed (use fr kp(1,2) A hb in simp_all)
qed

text \<open>What happens to every line until the test for \<open>ping\<close>.\<close>

lemma shell_command_run:
  assumes i: "shell_inv e cmd A (4 * K + 12 + k) s" and l: "cstr (sh_ram s) cmd line" "length line < 255"
    and K: "K = length (split_at [32] line)"
  shows "\<exists>p s3. shell_command e cmd s = (do {
        s4 \<leftarrow> (if hd (split_at [32] line) = map of_char ''ping'' then shell_ping e p s3 else Some s3);
        Some (s4\<lparr>sh_net := (sh_net s4)\<lparr>nmm := free (nmm (sh_net s4)) p\<rparr>\<rparr>) }) \<and>
     shell_inv e cmd ((p, of_nat (4 * K)) # A) k s3 \<and> keys s3 = keys s \<and> keycache (sh_kbd s3) = keycache (sh_kbd s) \<and>
     (\<forall>q < K. cstr (sh_ram s3) (load32 (sh_ram s3) (p + 4 * of_nat q)) (split_at [32] line ! q))"
proof -
  define w0 where "w0 = hd (split_at [32] line)"
  have A: "(cmd, 255) \<in> set A" "(keycache (sh_kbd s), 256) \<in> set A" using i by (auto simp: shell_inv_def)
  obtain p h where t: "strtok cmd (sc_delim e) (nmm (sh_net s)) = Some (Ret p, of_nat K, h)"
    "shell_inv e cmd ((p, of_nat (4 * K)) # A) k (s\<lparr>sh_net := (sh_net s)\<lparr>nmm := h\<rparr>\<rparr>)"
    "keys (s\<lparr>sh_net := (sh_net s)\<lparr>nmm := h\<rparr>\<rparr>) = keys s"
    "list_all2 (cstr (ram h)) (cmd # piece_starts [32] cmd line) (split_at [32] line)"
    "map (\<lambda>q. load32 (ram h) (p + of_nat (4 * q))) [0..<K] = cmd # piece_starts [32] cmd line"
    "ram h (cmd + of_nat (length line)) = 0"
    using shell_split_ok [OF i l K] by (elim exE conjE)
  define s0 where "s0 = s\<lparr>sh_net := (sh_net s)\<lparr>nmm := h\<rparr>\<rparr>"
  have i0: "shell_inv e cmd ((p, of_nat (4 * K)) # A) k s0" and r0: "sh_ram s0 = ram h" "keys s0 = keys s"
    "sh_kbd s0 = sh_kbd s" using t(2,3) by (simp_all add: s0_def)
  obtain v vs where v: "split_at [32] line = v # vs" by (cases "split_at [32] line") auto
  have c0: "cstr (ram h) cmd w0" using t(4) by (simp add: w0_def v)
  have K0: "0 < K" "4 * K < 4294967296" using K v l(2) length_split_at [of "[32]" line 0] length_starts_le [of "[32]" 0 line]
    by simp_all
  have "load32 (ram h) (p + of_nat (4 * 0)) = cmd"
    using arg_cong [OF t(5), of "\<lambda>l. l ! 0"] K0 by (simp del: upt_Suc)
  then have p0: "load32 (ram h) p = cmd" by simp
  have pieces: "\<exists>j. load32 (sh_ram s0) (p + 4 * of_nat q) = cmd + of_nat j \<and> j \<le> length line \<and>
      cstr (sh_ram s0) (cmd + of_nat j) (split_at [32] line ! q)" if q: "q < K" for q
  proof -
    have a: "load32 (ram h) (p + of_nat (4 * q)) = (cmd # piece_starts [32] cmd line) ! q"
      using arg_cong [OF t(5), of "\<lambda>l. l ! q"] q by (simp del: upt_Suc)
    have n: "q < length (cmd # piece_starts [32] cmd line)" using q K list_all2_lengthD [OF t(4)] by simp
    then have "(cmd # piece_starts [32] cmd line) ! q \<in> set (cmd # piece_starts [32] cmd line)" by (rule nth_mem)
    moreover have "\<exists>j \<le> length line. x = cmd + of_nat j" if "x \<in> set (cmd # piece_starts [32] cmd line)" for x
      using that piece_starts_in [of x "[32]" cmd line] by (cases "x = cmd") (auto intro: exI [of _ 0])
    ultimately obtain j where j: "j \<le> length line" "(cmd # piece_starts [32] cmd line) ! q = cmd + of_nat j" by blast
    show ?thesis
      by (rule exI [of _ j]) (use a j list_all2_nthD [OF t(4) n] r0 in \<open>simp del: nth_Cons\<close>)
  qed
  have eq: "when_equal cmd name body s1 = (if w0 = map of_char c then body s1 else Some s1)"
    if "kept e s0 s1" "fixed_text e s1 name (map of_char c)" for name body s1 c
  proof (rule when_equal_cstr)
    show "cstr (sh_ram s1) name (map of_char c)" using that by (simp add: fixed_text_def)
    show "cstr (sh_ram s1) cmd w0"
    proof (rule cstr_frame [OF c0])
      fix b assume "b \<le> length w0"
      moreover have "length w0 \<le> length line" using string_before [of "ram h" cmd 0 w0 "length line"] c0 t(6) by simp
      ultimately have "in_range cmd 255 (cmd + of_nat b)"
        unfolding in_range_cells using l(2) by (intro exI [of _ b]) simp
      then show "sh_ram s1 (cmd + of_nat b) = ram h (cmd + of_nat b)"
        using kept_blocks [OF i0 that(1), of cmd 255] A(1) r0 by simp
    qed
  qed
  have texts: "fixed_text e s1 (sc_split e) (map of_char ''split'')" "fixed_text e s1 (sc_clear e) (map of_char ''clear'')"
    "fixed_text e s1 (sc_arp e) (map of_char ''arp'')" "fixed_text e s1 (sc_ping e) (map of_char ''ping'')"
    if "kept e s0 s1" for s1 using kept_inv [OF i0 that] by (simp_all add: shell_inv_def)
  have k0: "kept e s0 s0" using i0 by (intro kept_refl) (simp add: shell_inv_def)
  have run: "\<exists>s2. when_equal cmd name body s1 = Some s2 \<and> kept e s0 s2"
    if "kept e s0 s1" "fixed_text e s1 name (map of_char c)" "\<exists>s2. body s1 = Some s2 \<and> kept e s1 s2" for name body s1 c
    using eq [OF that(1,2), of body] that(1,3) kept_trans [OF that(1)] by auto
  have "unat (of_nat K :: uint32) = K" using K0 by (intro unat_of_nat_small) simp
  moreover have "\<forall>q < K. \<exists>j xs. load32 (sh_ram s0) (p + 4 * of_nat q) = cmd + of_nat j \<and> j \<le> length line \<and>
      cstr (sh_ram s0) (cmd + of_nat j) xs" using pieces by blast
  ultimately have "\<exists>s1. shell_print_pieces (unat (of_nat K :: uint32)) 0 e p s0 = Some s1 \<and> kept e s0 s1"
    using print_pieces_ok [OF i0, where p = p and N = K and i = 0 and n = K and L = "length line"] K0 t(6) r0(1) l(2) by simp
  from run [where body = "shell_print_pieces (unat (of_nat K :: uint32)) 0 e p", OF k0 texts(1) [OF k0] this] obtain s1 where
    1: "when_equal cmd (sc_split e) (shell_print_pieces (unat (of_nat K :: uint32)) 0 e p) s0 = Some s1" "kept e s0 s1" by blast
  from run [where body = shell_clear, OF 1(2) texts(2) [OF 1(2)] kept_clear [OF kept_inv [OF i0 1(2)]]] obtain s2 where
    2: "when_equal cmd (sc_clear e) shell_clear s1 = Some s2" "kept e s0 s2" by blast
  have "\<exists>s3. arp_dump_entries e s2 = Some s3 \<and> kept e s2 s3"
    unfolding arp_dump_entries_def by (rule arp_dump_ok [OF kept_inv [OF i0 2(2)]])
  from run [where body = "arp_dump_entries e", OF 2(2) texts(3) [OF 2(2)] this] obtain s3 where
    3: "when_equal cmd (sc_arp e) (arp_dump_entries e) s2 = Some s3" "kept e s0 s3" by blast
  have 4: "when_equal cmd (sc_ping e) (shell_ping e p) s3 = (if w0 = map of_char ''ping'' then shell_ping e p s3 else Some s3)"
    by (rule eq [OF 3(2) texts(4) [OF 3(2)]])
  have "cstr (sh_ram s3) (load32 (sh_ram s3) (p + 4 * of_nat q)) (split_at [32] line ! q)" if q: "q < K" for q
  proof -
    obtain j where j: "load32 (sh_ram s0) (p + 4 * of_nat q) = cmd + of_nat j" "j \<le> length line"
      "cstr (sh_ram s0) (cmd + of_nat j) (split_at [32] line ! q)" using pieces [OF q] by blast
    have z: "sh_ram s0 (cmd + of_nat (length line)) = 0" using t(6) r0(1) by simp
    from kept_piece [OF i0 3(2) list.set_intros(1) K0(2) q j(2,3) z l(2)] j(1) show ?thesis by simp
  qed
  moreover have "shell_command e cmd s = (do {
      s4 \<leftarrow> (if w0 = map of_char ''ping'' then shell_ping e p s3 else Some s3);
      Some (s4\<lparr>sh_net := (sh_net s4)\<lparr>nmm := free (nmm (sh_net s4)) p\<rparr>\<rparr>) })"
    unfolding shell_command_def t(1) by (simp only: s0_def [symmetric] r0 p0 Option.bind.simps 1(1) 2(1) 3(1) 4 outcome.case prod.case Let_def)
  moreover have "keycache (sh_kbd s3) = keycache (sh_kbd s)" "keys s3 = keys s" using 3(2) r0 by (auto simp: kept_def)
  ultimately show ?thesis using kept_inv [OF i0 3(2)] unfolding w0_def by blast
qed

text \<open>
  A command other than \<open>ping\<close>: the line is cut, the command runs if there is one, and the array of the
  pieces is given back.
\<close>

lemma shell_command_ok:
  assumes i: "shell_inv e cmd A (4 * K + 12 + k) s" and l: "cstr (sh_ram s) cmd line" "length line < 255"
    and K: "K = length (split_at [32] line)" and w: "hd (split_at [32] line) \<noteq> map of_char ''ping''"
  shows "\<exists>s'. shell_command e cmd s = Some s' \<and> shell_inv e cmd A k s' \<and> keys s' = keys s"
proof -
  have A: "(cmd, 255) \<in> set A" "(keycache (sh_kbd s), 256) \<in> set A" using i by (auto simp: shell_inv_def)
  obtain p s3 where r: "shell_command e cmd s = Some (s3\<lparr>sh_net := (sh_net s3)\<lparr>nmm := free (nmm (sh_net s3)) p\<rparr>\<rparr>)"
    "shell_inv e cmd ((p, of_nat (4 * K)) # A) k s3" "keys s3 = keys s" "keycache (sh_kbd s3) = keycache (sh_kbd s)"
    using shell_command_run [OF i l K] w by auto
  then show ?thesis using shell_free_ok [OF r(2) A(1)] A(2) by simp
qed

fun kshell_rounds :: "nat \<Rightarrow> 'w shell_env \<Rightarrow> addr \<Rightarrow> 'w shell \<Rightarrow> 'w shell option" where
  "kshell_rounds 0 e cmdbuf s = Some s"
| "kshell_rounds (Suc n) e cmdbuf s = do { s1 \<leftarrow> kshell_round e cmdbuf s; kshell_rounds n e cmdbuf s1 }"

text \<open>The keys of some lines, and the room in the heap that their pieces take.\<close>

definition typed :: "uint8 list list \<Rightarrow> uint8 list" where "typed ls = concat (map (\<lambda>l. l @ [10]) ls)"

definition room_for :: "uint8 list list \<Rightarrow> nat" where
  "room_for ls = sum_list (map (\<lambda>l. 4 * length (split_at [32] l) + 12) ls)"

definition plain_line :: "uint8 list \<Rightarrow> bool" where
  "plain_line l \<longleftrightarrow> 0 \<notin> set l \<and> 10 \<notin> set l \<and> length l < 255 \<and> hd (split_at [32] l) \<noteq> map of_char ''ping''"

lemma kshell_rounds_ok:
  "shell_inv e cmd A (room_for ls + k) s \<Longrightarrow> keys s = typed ls @ q \<Longrightarrow> list_all plain_line ls \<Longrightarrow>
   \<exists>s'. kshell_rounds (length ls) e cmd s = Some s' \<and> shell_inv e cmd A k s' \<and> keys s' = q"
proof (induction ls arbitrary: s)
  case Nil
  then show ?case by (simp add: room_for_def typed_def)
next
  case (Cons l ls)
  have i: "shell_inv e cmd A (4 * length (split_at [32] l) + 12 + (room_for ls + k)) s"
    using Cons.prems(1) by (simp add: room_for_def add.assoc)
  have l: "0 \<notin> set l" "10 \<notin> set l" "length l < 255" "hd (split_at [32] l) \<noteq> map of_char ''ping''"
    using Cons.prems(3) by (simp_all add: plain_line_def)
  have "keys s = l @ 10 # (typed ls @ q)" using Cons.prems(2) by (simp add: typed_def)
  from shell_line_inv [OF i this l(1-3)] obtain s1 where 1: "shell_line e cmd s = Some s1"
    "shell_inv e cmd A (4 * length (split_at [32] l) + 12 + (room_for ls + k)) s1" "keys s1 = typed ls @ q"
    "cstr (sh_ram s1) cmd l" by blast
  from shell_command_ok [OF 1(2,4) l(3) refl l(4)] obtain s2 where
    2: "shell_command e cmd s1 = Some s2" "shell_inv e cmd A (room_for ls + k) s2" "keys s2 = keys s1" by blast
  have "kshell_round e cmd s = Some s2" using 1(1) 2(1) by (simp add: kshell_round_def)
  with Cons.IH [OF 2(2)] 2(3) 1(3) Cons.prems(3) show ?case by auto
qed


lemma read_cstr_cstr: "cstr m p xs \<Longrightarrow> read_cstr m p = Some xs"
proof (induction xs arbitrary: p)
  case Nil
  then show ?case by (subst read_cstr.simps) simp
next
  case (Cons c xs)
  then show ?case by (subst read_cstr.simps) simp
qed

lemma split_at_plain: "set xs \<inter> set ds = {} \<Longrightarrow> split_at ds xs = [xs]"
  by (induction xs) auto

lemma split_at_two:
  assumes "set xs \<inter> set ds = {}" "d \<in> set ds" "set ys \<inter> set ds = {}"
  shows "split_at ds (xs @ d # ys) = [xs, ys]"
  using assms by (induction xs) (auto simp: split_at_plain)

lemma shell_ping_ok:
  assumes i: "shell_inv e cmd A k s" and a: "cstr (sh_ram s) (load32 (sh_ram s) (p + 4)) (dotted x)"
  shows "\<exists>s2. shell_ping e p s = (do {
      n \<leftarrow> icmp_echo_request (sc_sched e) (sc_memcpy e) (sc_dev e) x 0 0 0 0 (sh_net s2);
      Some (s2\<lparr>sh_net := n\<rparr>) }) \<and> kept e s s2"
proof -
  obtain m1 where m1: "addr_strto_ipv4 (sc_array e) (sc_old_addr e) (dotted x @ [0]) (sh_ram s) = Some (True, x, m1)"
    "\<forall>y. \<not> in_range (sc_array e) 7 y \<longrightarrow> m1 y = sh_ram s y"
    using addr_strto_ipv4_dotted by blast
  define m2 where "m2 = write_bytes m1 (sc_as e) (dotted x @ [0])"
  have lo: "unat (sc_as e) + 16 < 2 ^ 32" using i by (auto simp: shell_inv_def locals_ok_def)
  have l: "length (dotted x) \<le> 15" by (rule dotted_length)
  have t: "addr_ipv4_tostr (sc_as e) 16 x m1 = Some (of_nat (length (dotted x)), m2)"
    using addr_ipv4_tostr_text [of 16 "sc_as e"] lo by (simp add: m2_def)
  have d0: "0 \<notin> set (dotted x)" using dotted_chars by blast
  have sub: "in_range (sc_as e) 16 y" if "in_range (sc_as e) (of_nat (length (dotted x) + 1)) y" for y
    using that l by (simp add: in_range_def word_less_nat_alt unat_of_nat_small del: of_nat_add of_nat_Suc)
  have w: "cstr m2 (sc_as e) (dotted x)" "\<And>y. \<not> in_range (sc_as e) 16 y \<Longrightarrow> m2 y = m1 y"
    using write_bytes_cstr [OF d0, where m = m1 and p = "sc_as e"] l sub by (auto simp: m2_def)
  have "m2 y = sh_ram s y" if "\<not> scratch e y" for y using that w(2) m1(2) by (simp add: scratch_def)
  note kp = kept_scratch [OF i this]
  let ?s = "set_sh_ram m2 s"
  have i2: "shell_inv e cmd A k ?s" by (rule kept_inv [OF i kp])
  have it: "kitems (map of_char ''pinging %s'' @ [10]) = map (Char \<circ> of_char) ''pinging '' @ [Conv 115, Char 10]" by code_simp
  have "sc_untouched e (sc_as e + of_nat c)" if "c \<le> length (dotted x)" for c
  proof -
    have "in_range (sc_as e) 16 (sc_as e + of_nat c)"
      unfolding in_range_cells using that l by (intro exI [of _ c]) simp
    then show ?thesis using untouched_scratch [OF i] by (simp add: scratch_def)
  qed
  then have ar: "args_ok (sh_ram ?s) (sc_untouched e) (kitems (map of_char ''pinging %s'' @ [10])) [sc_as e]"
    unfolding it using w(1) by auto
  have z: "0 \<notin> set (map of_char ''pinging %s'' @ [10 :: uint8])" by code_simp
  have ln: "length (map of_char ''pinging %s'' @ [10 :: uint8]) < 65535" by simp
  obtain cs where md: "fixed_text e ?s (sc_module e) cs" using i2 by (auto simp: shell_inv_def)
  obtain s2 where s2: "shell_mprint e (sc_module e) ((map of_char ''pinging %s'' @ [10]) @ [0]) [sc_as e] ?s = Some s2" "kept e ?s s2"
    using kept_mprint [OF i2 z ln ar md] by blast
  then have "shell_ping e p s = (do {
      n \<leftarrow> icmp_echo_request (sc_sched e) (sc_memcpy e) (sc_dev e) x 0 0 0 0 (sh_net s2);
      Some (s2\<lparr>sh_net := n\<rparr>) })"
    by (simp add: shell_ping_def read_cstr_cstr [OF a] m1(1) t)
  with kept_trans [OF kp s2(2)] show ?thesis by blast
qed

text \<open>
  C28. \<open>ping\<close> with an address: a round of the shell on a line \<open>ping \<close>, the dotted text of an address and the
  newline sends an echo request to exactly this address, and then gives the array of the pieces back: the
  round is the call of \<open>icmp_echo_request\<close>, from a state in which the keys of the line have been taken, the
  array is one more block and everything else that the shell needs holds; it returns exactly when the
  call returns.
\<close>

theorem kshell_ping:
  assumes "shell_inv e cmd A (20 + k) s" "keys s = map of_char ''ping '' @ dotted x @ 10 # q"
  shows "\<exists>p s2. kshell_round e cmd s = (do {
        n \<leftarrow> icmp_echo_request (sc_sched e) (sc_memcpy e) (sc_dev e) x 0 0 0 0 (sh_net s2);
        Some (s2\<lparr>sh_net := n\<lparr>nmm := free (nmm n) p\<rparr>\<rparr>) }) \<and>
     shell_inv e cmd ((p, 8) # A) k s2 \<and> keys s2 = q"
proof -
  let ?l = "map of_char ''ping'' @ 32 # dotted x"
  have nl: "0 \<notin> set ?l" "10 \<notin> set ?l" "length ?l < 255" using dotted_chars [of _ x] dotted_length [of x] by auto
  have sp: "split_at [32] ?l = [map of_char ''ping'', dotted x]"
    using dotted_chars [of _ x] by (intro split_at_two) auto
  have "keys s = ?l @ 10 # q" using assms(2) by simp
  from shell_line_inv [OF assms(1) this nl] obtain s1 where
    1: "shell_line e cmd s = Some s1" "shell_inv e cmd A (20 + k) s1" "keys s1 = q" "cstr (sh_ram s1) cmd ?l" by blast
  have i1: "shell_inv e cmd A (4 * 2 + 12 + k) s1" "2 = length (split_at [32] ?l)" using 1(2) sp by simp_all
  obtain p s3 where r: "shell_command e cmd s1 = (do { s4 \<leftarrow> shell_ping e p s3;
        Some (s4\<lparr>sh_net := (sh_net s4)\<lparr>nmm := free (nmm (sh_net s4)) p\<rparr>\<rparr>) })"
    "shell_inv e cmd ((p, of_nat (4 * 2)) # A) k s3" "keys s3 = keys s1"
    "\<forall>n < 2. cstr (sh_ram s3) (load32 (sh_ram s3) (p + 4 * of_nat n)) (split_at [32] ?l ! n)"
    using shell_command_run [OF i1(1) 1(4) nl(3) i1(2)] sp by auto
  have "cstr (sh_ram s3) (load32 (sh_ram s3) (p + 4)) (dotted x)" using r(4) [rule_format, of 1] unfolding sp by simp
  from shell_ping_ok [OF r(2) this] obtain s2 where
    2: "shell_ping e p s3 = (do {
      n \<leftarrow> icmp_echo_request (sc_sched e) (sc_memcpy e) (sc_dev e) x 0 0 0 0 (sh_net s2);
      Some (s2\<lparr>sh_net := n\<rparr>) })" "kept e s3 s2" by blast
  have "kshell_round e cmd s = (do {
        n \<leftarrow> icmp_echo_request (sc_sched e) (sc_memcpy e) (sc_dev e) x 0 0 0 0 (sh_net s2);
        Some (s2\<lparr>sh_net := n\<lparr>nmm := free (nmm n) p\<rparr>\<rparr>) })"
    by (simp add: kshell_round_def 1(1) r(1) 2(1))
  moreover have "shell_inv e cmd ((p, 8) # A) k s2" using kept_inv [OF r(2) 2(2)] by simp
  moreover have "keys s2 = q" using 2(2) r(3) 1(3) by (simp add: kept_def)
  ultimately show ?thesis by blast
qed

section \<open>A shell with keys that wait\<close>

text \<open>The constants, as they lie below the heap.\<close>

definition sample_texts :: mem where
  "sample_texts = write_bytes (write_bytes (write_bytes (write_bytes (write_bytes (\<lambda>_. 0)
     0x600 [32]) 0x610 (map of_char ''split'')) 0x620 (map of_char ''clear'')) 0x630 (map of_char ''arp'')) 0x640 (map of_char ''ping'')"

lemma sample_texts_apply:
  "sample_texts = (\<lambda>_. 0)(0x600 := 32, 0x610 := 115, 0x611 := 112, 0x612 := 108, 0x613 := 105, 0x614 := 116,
     0x620 := 99, 0x621 := 108, 0x622 := 101, 0x623 := 97, 0x624 := 114, 0x630 := 97, 0x631 := 114, 0x632 := 112,
     0x640 := 112, 0x641 := 105, 0x642 := 110, 0x643 := 103)"
  by (simp add: sample_texts_def)

lemma sample_waiting:
  assumes ks: "length ks \<le> 256"
  shows "\<exists>cmd A s. shell_inv sample_shell_env cmd A 200 s \<and> keys s = ks"
proof -
  have sz: "size_ok 256" "size_ok 255" by (simp_all add: size_ok_def)
  have "heap_good sample_heap" using sample_heap_ok by (auto simp: heap_good_def)
  then have start: "holds sample_heap []" "heap_room sample_heap (unat (256 :: uint32) + 12 + (unat (255 :: uint32) + 12 + 200))"
    using sample_net_ok by (auto simp: holds_start heap_room_def sample_net_def)
  obtain kb h1 where h1: "malloc sample_heap 256 = Some (Ret kb, h1)" "heap_room h1 (unat (255 :: uint32) + 12 + 200)"
    using malloc_heap_room [OF start(2) sz(1)] by blast
  obtain cmd h2 where h2: "malloc h1 255 = Some (Ret cmd, h2)" "heap_room h2 200" using malloc_heap_room [OF h1(2) sz(2)] by blast
  let ?A = "[(cmd, 255), (kb, 256)]"
  note a1 = holds_alloc [OF start(1) sz(1) h1(1)]
  have a2: "holds h2 ?A" using holds_alloc [OF conjunct1 [OF a1] sz(2) h2(1)] by simp
  have b: "heap_begin h2 = 0x200000" "heap_end h2 = heap_end sample_heap"
    using malloc_begin [OF h1(1)] malloc_begin [OF h2(1)] malloc_end [OF h1(1)] malloc_end [OF h2(1)]
    by (simp_all add: sample_heap_def)
  define m where "m x = (if unat x < 0x200000 then sample_texts x
    else if in_range kb 256 x then (ks @ replicate 256 0) ! unat (x - kb) else ram h2 x)" for x
  have out: "outside_heap h2 x" if "unat x < 0x200000" for x using that b by (simp add: outside_heap_def)
  have same: "m y = ram h2 y" if "\<not> in_range kb 256 y" "\<not> in_range kb 256 y" "\<not> outside_heap h2 y" for y
    using that out [of y] by (auto simp: m_def)
  have kbA: "(kb, 256) \<in> set ?A" by simp
  note hh = holds_write_cells [OF a2 h2(2) kbA kbA same]
  have kb: "0x200008 \<le> unat kb" "unat kb + 260 < 4294967296" "cmd \<noteq> kb"
    using holds_above_begin [OF a2, of kb 256] holds_in_memory [OF a2, of kb 256] b holds_head_fresh [OF a2, of kb 256] by auto
  define s where "s = \<lparr>sh_net = sample_net\<lparr>nmm := h2\<lparr>ram := m\<rparr>\<rparr>, sh_kbd = sample_kbd\<lparr>keycache := kb, key_loc := of_nat (length ks)\<rparr>,
     sh_screen = text_start, sh_displays = displays_start\<lparr>cd := Some (textmode_display (\<lambda>m. m) 0x200 0)\<rparr>\<rparr>"
  have f: "sh_kbd s = sample_kbd\<lparr>keycache := kb, key_loc := of_nat (length ks)\<rparr>" "sh_screen s = text_start" "sh_ram s = m"
    "nmm (sh_net s) = h2\<lparr>ram := m\<rparr>" "display_get_current (sh_displays s) = Some (textmode_display (\<lambda>m. m) 0x200 0)"
    by (simp_all add: s_def sh_ram_def nram_def display_get_current_def)
  have far: "4480 \<le> off x" if "unat x < 10000" for x
    using that unat_sub_word [of x VGA_MEMORY] by (simp add: off_def VGA_MEMORY_def)
  have high: "4480 \<le> off x" if "0x200000 \<le> unat x" for x
    using that unat_sub_word [of x VGA_MEMORY] by (simp add: off_def VGA_MEMORY_def)
  have safe: "4480 \<le> off x" if "unat x < 10000 \<or> 0x200000 \<le> unat x" for x using that far high by blast
  have r: "in_range p n x \<longleftrightarrow> unat p \<le> unat x \<and> unat x < unat p + unat n" if "unat p + unat n \<le> 4294967296" for p n x
    by (rule in_range_unat [OF that])
  have lk: "unat (of_nat (length ks) :: uint16) = length ks" using ks by (simp add: unsigned_of_nat take_bit_nat_eq_self)
  have "keys s = ks"
  proof (rule nth_equalityI)
    show n: "length (keys s) = length ks" by (simp add: keys_def pending_def f sample_kbd_def lk)
    fix i assume "i < length (keys s)"
    then have i: "i < length ks" "unat (kb + of_nat i) = unat kb + i" "unat (of_nat i :: addr) = i"
      using n ks kb by (simp_all add: unat_add_small unat_of_nat_small)
    moreover have "in_range kb 256 (kb + of_nat i)" using i ks by (simp add: in_range_def word_less_nat_alt)
    ultimately show "keys s ! i = ks ! i" using kb
      by (simp add: keys_def pending_def f sample_kbd_def lk m_def nth_append)
  qed
  have low: "m x = sample_texts x" if "unat x < 0x200000" for x using that by (simp add: m_def)
  have z: "m x = 0" if "x \<in> {0x200, 0x201, 0x202, 0x203, 0x300, 0x301, 0x302, 0x303, 0x500, 0x501, 0x502, 0x503}" for x
    using that by (auto simp: low sample_texts_apply)
  have "out_ready 0x200 0x300 text_start m"
    by (auto simp: out_ready_def lock_ready_def mutex_pad_clear_def z cursor_ok_def text_start_def textmode_init_def intro!: far)
  moreover have "kbd_ok 0x500 (sh_kbd s, m)"
    using kb ks by (auto simp: kbd_ok_def mutex_pad_clear_def z f sample_kbd_def r word_le_nat_alt lk)
  moreover have "apart 0x200 0x300 0x400" by (auto simp: apart_def r intro!: far)
  ultimately have ready: "shell_ready sample_shell_env s"
    using kb by (auto simp: shell_ready_def sample_shell_env_def untouched_def f r sample_kbd_def intro!: safe)
  have kc: "keycache (sh_kbd s) = kb" by (simp add: f)
  have outside: "outside_heap (nmm (sh_net s)) x \<longleftrightarrow> unat x < 0x200000 \<or> 0x3E0000 \<le> unat x" for x
    by (simp add: f outside_heap_def b sample_heap_def)
  have vga: "unat x < 0x200000" if "\<not> 4480 \<le> off x" for x
    using that high [of x] not_less by blast
  have o: "outside_heap (nmm (sh_net s)) x" if "\<not> sc_untouched sample_shell_env x \<or> in_range (sc_getkey sample_shell_env) 4 x \<or> scratch sample_shell_env x" for x
    using that vga [of x] by (auto simp: outside untouched_def sample_shell_env_def scratch_def r)
  have cell: "line_cell sample_shell_env s x" if "0x600 \<le> unat x" "unat x < 0x6D0" for x
    using that kb by (auto simp: line_cell_def quiet_def untouched_def sample_shell_env_def kc r intro!: far)
  have sc: "line_cell sample_shell_env s x" if "scratch sample_shell_env x" for x
    by (rule cell) (use that in \<open>auto simp: scratch_def sample_shell_env_def r\<close>)
  have st: "steady sample_shell_env s x" if "0x600 \<le> unat x" "unat x < 0x670" for x
    using that cell [of x] by (auto simp: steady_def outside scratch_def sample_shell_env_def r)
  have fx: "fixed_text sample_shell_env s p t" if "cstr sample_texts p t" "0x600 \<le> unat p" "unat p + length t < 0x670" for p t
    unfolding fixed_text_def
  proof (intro conjI allI impI)
    have n: "unat (p + of_nat i) = unat p + i" if "i \<le> length t" for i
      using that \<open>unat p + length t < 0x670\<close> by (simp add: unat_add_small unat_of_nat_small)
    show "cstr (sh_ram s) p t"
      by (rule cstr_frame [OF that(1)]) (use n that(3) in \<open>simp add: f low\<close>)
    show "steady sample_shell_env s (p + of_nat i)" if "i \<le> length t" for i
      using n [OF that] that \<open>0x600 \<le> unat p\<close> \<open>unat p + length t < 0x670\<close> by (intro st) simp_all
  qed
  have "fixed_text sample_shell_env s (sc_delim sample_shell_env) [32]" "fixed_text sample_shell_env s (sc_split sample_shell_env) (map of_char ''split'')"
    "fixed_text sample_shell_env s (sc_clear sample_shell_env) (map of_char ''clear'')" "fixed_text sample_shell_env s (sc_arp sample_shell_env) (map of_char ''arp'')"
    "fixed_text sample_shell_env s (sc_ping sample_shell_env) (map of_char ''ping'')" "fixed_text sample_shell_env s (sc_module sample_shell_env) []"
    "fixed_text sample_shell_env s (sc_arp_module sample_shell_env) []"
    by (rule fx; simp add: sample_shell_env_def sample_texts_apply)+
  moreover have "locals_ok sample_shell_env" by (auto simp: locals_ok_def sample_shell_env_def r)
  ultimately have "shell_inv sample_shell_env cmd ?A 200 s"
    using ready hh kb(3) o sc unfolding shell_inv_def kc f by (auto simp: sample_shell_env_def b)
  with \<open>keys s = ks\<close> show ?thesis by blast
qed


text \<open>\<open>ping 10.0.2.15\<close> has been typed.\<close>

theorem kshell_ping_witness:
  "\<exists>cmd A p s s2. keys (s :: nat shell) = map of_char ''ping 10.0.2.15'' @ [10] \<and> kshell_round sample_shell_env cmd s = (do {
       n \<leftarrow> icmp_echo_request (\<lambda>m. m) 0x200 count_dev (ipv4_of_n 10 0 2 15) 0 0 0 0 (sh_net s2);
       Some (s2\<lparr>sh_net := n\<lparr>nmm := free (nmm n) p\<rparr>\<rparr>) }) \<and> shell_inv sample_shell_env cmd ((p, 8) # A) 180 s2"
proof -
  let ?x = "ipv4_of_n 10 0 2 15"
  have d: "dotted ?x = map of_char ''10.0.2.15''"
    by (simp add: dotted_def ipv4_n_def ipv4_of_n_def int_text_def digits_text_def lsd.simps digit_byte_def word_sless_alt)
  let ?k = "map of_char ''ping '' @ dotted ?x @ 10 # []"
  have "length ?k \<le> 256" by (simp add: d)
  from sample_waiting [OF this] obtain cmd A s where i: "shell_inv sample_shell_env cmd A (20 + 180) s" "keys s = ?k" by auto
  have e: "sc_sched sample_shell_env = (\<lambda>m. m)" "sc_memcpy sample_shell_env = 0x200" "sc_dev sample_shell_env = count_dev" by (simp_all add: sample_shell_env_def)
  have k: "?k = map of_char ''ping 10.0.2.15'' @ [10]" by (simp add: d)
  from kshell_ping [OF i] i(2) show ?thesis unfolding e k by blast
qed

end
