(* ===== verification/Spec2Isabelle.thy ===== *)
theory Spec2Isabelle
  imports Links Scheduling Addr Display Keyboard Paging Vfs Ata E1000_Init Vga Late_Init Device_Print Shell_Commands
begin

text \<open>
  A verification library for AIJAK, a small kernel for 32-bit x86 machines written in C. The program
  runs without an operating system: \<open>kmain\<close> sets up the screen, the heap, the interrupts, the timer,
  paging and the process table, and \<open>late_init\<close> starts the drivers as processes and then the shell.
  Processes share one address space and are switched by the timer or by themselves; drivers talk to
  their devices through ports and registers, and to the rest through a few lists and tables.

  \<^bold>\<open>How the code is modelled.\<close> Memory is a function from 32-bit addresses to bytes (\<open>Memory\<close>), and
  integers are words of their width, so that the arithmetic wraps as in C. A structure is a record. Where
  the code computes with the bytes of a structure (headers of heap blocks, packets, descriptors, page
  tables, strings) they are bytes of memory, elsewhere the records are in a map from addresses (\<open>links\<close>,
  the process table, network buffers, interfaces, routes). A panic is the value \<open>Panic\<close> or \<open>None\<close>. A
  loop over a bounded index is a terminating recursion; a loop that may never end is a
  \<open>partial_function\<close>, so that not returning is the value \<open>None\<close>. No function has fuel. Port accesses are a trace, and
  what devices answer is an arbitrary function of the trace. Other processes and interrupts that
  may run at a point are a parameter (\<open>sched\<close>, \<open>others\<close>, \<open>hw\<close>). Messages are left out in the drivers, the
  network and the initialisations; they are there in the output functions themselves, in \<open>kmain\<close>, in the
  shell and in the list of processes.

  \<^bold>\<open>Foundations.\<close>
  \<^item> \<open>Prelude\<close>, \<open>Memory\<close>: words, addresses and ranges, loads and stores, \<open>src/memory/mmioutils.c\<close>.
  \<^item> \<open>Mutex_Lock\<close>: \<open>src/mutex.c\<close>. Mutual exclusion for any number of processes, when a lock is waited
    for, and what the instruction does to the bytes behind the mutex.
  \<^item> \<open>Mem_Utils\<close>: \<open>src/memory/memutils.c\<close>; \<open>memcpy\<close> equals copying byte by byte.
  \<^item> \<open>CStrings\<close>, \<open>Convert\<close>, \<open>Strtok\<close>: \<open>src/string.c\<close> and \<open>src/util.c\<close>.
  \<^item> \<open>Heap_Alloc\<close>, \<open>Ownership\<close>: \<open>src/memory/malloc.c\<close>. The bytes of the heap are read as a list of blocks;
    \<open>malloc\<close> is first fit over that list. The locale \<open>allocator\<close> states what clients use (a new block is
    fresh and zero, live blocks are disjoint and keep their bytes, freeing removes one block) and is
    interpreted on the code; \<open>Ownership\<close> gives clients sets of blocks that they hold.
  \<^item> \<open>Link_Ring\<close>, \<open>Links\<close>: \<open>src/include/link.h\<close>. Rings of nodes linked both ways over any pair of fields, as a
    locale that is interpreted on the links and on the process table.

  \<^bold>\<open>Interrupts and processes.\<close>
  \<^item> \<open>Ports\<close>, \<open>Interrupts\<close>, \<open>Timer\<close>: \<open>src/system.c\<close>, \<open>src/interrupt/*.c\<close>, \<open>src/pit.c\<close>.
  \<^item> \<open>Tasking\<close>, \<open>Scheduling\<close>: \<open>src/tasking.c\<close>. The invariant of the process table (one ring, disjoint
    memory, different pids, frames inside the stacks) holds in all states reachable from \<open>tasking_init\<close> by
    the operations, as an inductive step relation; switches go round the ring.
  \<^item> \<open>Paging\<close>: \<open>src/memory/paging.c\<close>; the tables that \<open>paging_init\<close> builds are read back the way the
    processor reads them, and map every address to itself.

  \<^item> \<open>Late_Init\<close>: signals and exceptions, sleeping, waiting for a process, the loop of the reaper, all of
    \<open>src/tasking.c\<close>, and \<open>late_init\<close> of \<open>src/kernel.c\<close>. The other processes are a function \<open>others\<close> on the state of the
    processes; a wait returns exactly when they have made the process go.
  \<^item> \<open>Boot\<close>: \<open>kmain\<close> of \<open>src/kernel.c\<close>, all initialisations on one memory. The theorem puts together what the parts
    establish: what one writes, the invariants of the others do not depend on.
  \<^item> \<open>Kernel_Print\<close>, \<open>Device_Print\<close>: the lists of processes, devices and mounts, the figures of the heap, and the system
    call, \<open>src/syscall.c\<close>.

  \<^bold>\<open>Input and output.\<close>
  \<^item> \<open>Formatting\<close>: \<open>src/stdlib/format.c\<close>. The text of a format is defined on its own, and \<open>vsnprintf\<close> writes
    exactly that text, cut to the buffer.
  \<^item> \<open>Textmode\<close>, \<open>Display\<close>, \<open>Vga\<close>: the text screen, \<open>kprintf\<close>, and the graphics mode, \<open>src/display/*\<close> and
    \<open>src/vga.c\<close>. What \<open>kprintf\<close> needs of a display is the locale \<open>console\<close>, interpreted on the text mode.
    The register writes of the graphics mode are replayed to see what the card holds in the end.
  \<^item> \<open>Keyboard\<close>: \<open>src/drivers/keyboard.c\<close>; the buffer is a queue (locale \<open>key_queue\<close>) until it overflows.
  \<^item> \<open>Devices\<close>, \<open>Ata\<close>, \<open>Vfs\<close>: \<open>src/device.c\<close>, \<open>src/drivers/ata.c\<close>, \<open>src/fs/vfs.c\<close>. For the round trip through
    the disk a drive is defined that follows the protocol; the other theorems hold for every drive.

  \<^bold>\<open>The network.\<close>
  \<^item> \<open>Addr\<close>, \<open>Checksum\<close>: \<open>src/net/addr.c\<close>, \<open>src/net/checksum.c\<close>, \<open>src/include/net/swap.h\<close>.
  \<^item> \<open>Net_Base\<close>: buffers, interfaces and routes, \<open>src/net/buf.c\<close>, \<open>intf.c\<close>, \<open>route.c\<close>.
  \<^item> \<open>Net_Stack\<close>: \<open>src/net/eth.c\<close>, \<open>arp.c\<close>, \<open>ipv4.c\<close>, \<open>icmp.c\<close>. What is sent decodes to what was meant, for
    any driver behind the interface.
  \<^item> \<open>Pci\<close>, \<open>E1000\<close>, \<open>E1000_Init\<close>: \<open>src/drivers/pci.c\<close>, \<open>src/drivers/intel_e1000.c\<close>. The driver is put behind
    the interface: how its rings are set up and kept, its registers and what happens to the buffers.

  \<^bold>\<open>The shell.\<close>
  \<^item> \<open>Shell\<close>, \<open>Shell_Commands\<close>: \<open>src/kshell.c\<close> and \<open>arp_dump_entries\<close>. The state joins the memory with its heap, the
    keyboard, the screen and the network. The invariant of the loop says which blocks are live and which memory
    nothing writes; \<open>kept\<close> is what a command that prints may change. Any number of typed lines is served,
    and \<open>ping\<close> calls \<open>icmp_echo_request\<close> with the address that was typed.

  \<^bold>\<open>Kinds of theorems.\<close> For each part: the invariant of its state and that the operations keep it; the
  result of the operations in every case; equality with a simpler definition (first fit, lists, queues,
  texts, byte-wise copies); that loops end, or exactly when they do not; round trips. Where the code
  does not do what it means to do, the theorem states what it does do. A theorem with hypotheses is followed by an
  instance on concrete data.

  \<^bold>\<open>Bounds.\<close> Sizes that \<open>malloc\<close> is asked for are below half of the address space (\<open>size_ok\<close>), as are all that
  the kernel uses; the heap ends below \<open>0x80000000\<close>, which \<open>mm_init\<close> ensures. Formats and strings are shorter
  than 65535 bytes where an index of 16 bits runs over them.

  \<^bold>\<open>Not modelled.\<close> The assembly files and the linker script, whose labels are parameters; the demo processes
  \<open>task2\<close> and \<open>task3\<close>, which print for ever; what follows the call of \<open>kshell_init\<close> in \<open>late_init\<close> and the bodies of \<open>eth_print\<close>, \<open>arp_print\<close>,
  \<open>ipv4_print\<close> and \<open>icmp_print\<close> behind their first \<open>return\<close>, which is never reached. The product of \<open>_sleep\<close> is
  computed with floating point numbers and is a parameter. Processes are interleaved where they call the
  scheduler and where the timer switches them; an interrupt inside an operation is modelled for the
  keyboard buffer only, and the shell runs with no other process in the locks.
\<close>

end
